(* ===== verification/Prelude.thy ===== *)
theory Prelude
  imports Main "HOL-Library.Word" "HOL-Library.Signed_Division"
begin

text \<open>
  Shared vocabulary of the development: the named theorem collections, the
  error values that stand for C++ exceptions, the result type, the
  \<^verbatim>\<open>size_t\<close> and \<^verbatim>\<open>uint32_t\<close> arithmetic the sources use, byte-addressed
  memory with its read/write laws, and the ring-index arithmetic
  (\<^verbatim>\<open>mod_p\<close>) that \<^verbatim>\<open>allreduce_ring.cc\<close> and \<^verbatim>\<open>allgather.cc\<close> share.
\<close>

unbundle bit_operations_syntax

named_theorems result_simps \<open>rewrite rules of the result type\<close>
named_theorems mem_simps \<open>read-over-write laws of byte memory\<close>

subsection \<open>Types, errors and results\<close>

type_synonym byte = "8 word"
type_synonym u16 = "16 word"
type_synonym u32 = "32 word"
type_synonym u64 = "64 word"
type_synonym mem = "nat \<Rightarrow> byte"

text \<open>
  A C++ exception is a value: its class, the literal part of its message and
  the numbers interpolated into the message. \<open>Undefined\<close> marks an operation
  whose behaviour the C++ standard leaves undefined.
\<close>

datatype error =
    InvalidArgument string
  | RuntimeError string "int list"
  | VerbsError string int
  | OutOfRange
  | LengthError
  | Undefined string

type_synonym 'a result = "error + 'a"

definition bind_res :: "'a result \<Rightarrow> ('a \<Rightarrow> 'b result) \<Rightarrow> 'b result" where
  "bind_res x f = (case x of Inl e \<Rightarrow> Inl e | Inr a \<Rightarrow> f a)"

lemma bind_res_simps [simp, result_simps]:
  "bind_res (Inl e) f = Inl e"
  "bind_res (Inr a) f = f a"
  by (simp_all add: bind_res_def)

lemma bind_res_eq_Inr [result_simps]:
  "bind_res x f = Inr b \<longleftrightarrow> (\<exists>a. x = Inr a \<and> f a = Inr b)"
  by (cases x) simp_all

lemma bind_res_eq_Inl [result_simps]:
  "bind_res x f = Inl e \<longleftrightarrow> x = Inl e \<or> (\<exists>a. x = Inr a \<and> f a = Inl e)"
  by (cases x) simp_all

text \<open>
  \<^verbatim>\<open>include/micro_ccl/detail/error.hpp\<close>: a null pointer or a non-zero return code of
  a verbs call becomes a \<open>VerbsError\<close> that names the call. \<open>None\<close> is the null pointer.
\<close>

definition check_ptr :: "'a option \<Rightarrow> int \<Rightarrow> string \<Rightarrow> 'a result" where
  "check_ptr ptr errno call = (case ptr of None \<Rightarrow> Inl (VerbsError call errno) | Some p \<Rightarrow> Inr p)"

definition check_rc :: "int \<Rightarrow> string \<Rightarrow> unit result" where
  "check_rc rc call = (if rc \<noteq> 0 then Inl (VerbsError call rc) else Inr ())"

lemma check_rc_simps [simp, result_simps]:
  "check_rc 0 call = Inr ()"
  "rc \<noteq> 0 \<Longrightarrow> check_rc rc call = Inl (VerbsError call rc)"
  by (simp_all add: check_rc_def)

subsection \<open>Fixed-width unsigned arithmetic\<close>

text \<open>
  \<^verbatim>\<open>size_t\<close> values are natural numbers below \<open>2 ^ 64\<close>; multiplication and
  addition wrap. A cast to \<^verbatim>\<open>uint32_t\<close> keeps the low 32 bits.
\<close>

definition sz_mul :: "nat \<Rightarrow> nat \<Rightarrow> nat" where
  "sz_mul a b = (a * b) mod 2 ^ 64"

definition sz_add :: "nat \<Rightarrow> nat \<Rightarrow> nat" where
  "sz_add a b = (a + b) mod 2 ^ 64"

definition to_u32 :: "nat \<Rightarrow> nat" where
  "to_u32 n = n mod 2 ^ 32"

lemma sz_mul_exact: "a * b < 2 ^ 64 \<Longrightarrow> sz_mul a b = a * b"
  by (simp add: sz_mul_def)

lemma sz_add_exact: "a + b < 2 ^ 64 \<Longrightarrow> sz_add a b = a + b"
  by (simp add: sz_add_def)

lemma to_u32_exact: "n < 2 ^ 32 \<Longrightarrow> to_u32 n = n"
  by (simp add: to_u32_def)

lemma to_u32_le: "to_u32 n \<le> n"
  by (simp add: to_u32_def)

text \<open>The values of \<^verbatim>\<open>int\<close>; signed arithmetic that leaves them is undefined.\<close>

definition int_range :: "int \<Rightarrow> bool" where
  "int_range x \<longleftrightarrow> - (2 ^ 31) \<le> x \<and> x < 2 ^ 31"

subsection \<open>Byte memory\<close>

definition mem_read :: "mem \<Rightarrow> nat \<Rightarrow> nat \<Rightarrow> byte list" where
  "mem_read m a n = map m [a..<a + n]"

definition mem_write :: "mem \<Rightarrow> nat \<Rightarrow> byte list \<Rightarrow> mem" where
  "mem_write m a bs = (\<lambda>x. if a \<le> x \<and> x < a + length bs then bs ! (x - a) else m x)"

text \<open>Two byte ranges, given by start and length, have no address in common.\<close>

definition disjoint_ranges :: "nat \<Rightarrow> nat \<Rightarrow> nat \<Rightarrow> nat \<Rightarrow> bool" where
  "disjoint_ranges a m b n \<longleftrightarrow> m = 0 \<or> n = 0 \<or> a + m \<le> b \<or> b + n \<le> a"

lemma length_mem_read [simp]: "length (mem_read m a n) = n"
  by (simp add: mem_read_def)

lemma mem_read_0 [simp, mem_simps]: "mem_read m a 0 = []"
  by (simp add: mem_read_def)

lemma nth_mem_read [simp]: "i < n \<Longrightarrow> mem_read m a n ! i = m (a + i)"
  by (simp add: mem_read_def)

lemma mem_write_inside:
  "a \<le> x \<Longrightarrow> x < a + length bs \<Longrightarrow> mem_write m a bs x = bs ! (x - a)"
  by (simp add: mem_write_def)

lemma mem_write_outside:
  "x < a \<or> a + length bs \<le> x \<Longrightarrow> mem_write m a bs x = m x"
  by (auto simp: mem_write_def)

lemma mem_write_Nil [simp, mem_simps]: "mem_write m a [] = m"
  by (rule ext) (auto simp: mem_write_def)

lemma mem_read_write_same [simp, mem_simps]:
  "mem_read (mem_write m a bs) a (length bs) = bs"
  by (rule nth_equalityI) (simp_all add: mem_write_inside)

lemma mem_read_cong:
  "(\<And>x. a \<le> x \<Longrightarrow> x < a + n \<Longrightarrow> m x = m' x) \<Longrightarrow> mem_read m a n = mem_read m' a n"
  by (auto simp: mem_read_def)

lemma mem_read_write_disjoint [mem_simps]:
  assumes "disjoint_ranges a n b (length bs)"
  shows "mem_read (mem_write m b bs) a n = mem_read m a n"
  by (rule mem_read_cong) (use assms in \<open>auto simp: mem_write_def disjoint_ranges_def\<close>)

lemma disjoint_ranges_sym: "disjoint_ranges a m b n \<longleftrightarrow> disjoint_ranges b n a m"
  by (auto simp: disjoint_ranges_def)

lemma disjoint_ranges_sub:
  assumes "disjoint_ranges a m b n"
    and "a \<le> a'" "a' + m' \<le> a + m" "b \<le> b'" "b' + n' \<le> b + n"
  shows "disjoint_ranges a' m' b' n'"
  using assms by (auto simp: disjoint_ranges_def)

subsection \<open>Ring indices\<close>

text \<open>
  The lambda \<^verbatim>\<open>mod_p\<close> of \<^verbatim>\<open>allreduce_ring.cc\<close> and \<^verbatim>\<open>allgather.cc\<close>:
  \<^verbatim>\<open>((x % P) + P) % P\<close>, where \<^verbatim>\<open>%\<close> truncates towards zero (\<open>smod\<close>).
\<close>

definition mod_p :: "int \<Rightarrow> int \<Rightarrow> int" where
  "mod_p P x = ((x smod P) + P) smod P"

lemma smod_nonneg: "0 \<le> (x::int) \<Longrightarrow> 0 < P \<Longrightarrow> x smod P = x mod P"
  by (simp add: signed_modulo_int_def signed_divide_int_def minus_div_mult_eq_mod sgn_if)

lemma smod_neg: "(x::int) < 0 \<Longrightarrow> 0 < P \<Longrightarrow> x smod P = - ((- x) mod P)"
  by (simp add: signed_modulo_int_def signed_divide_int_def minus_div_mult_eq_mod sgn_if)

theorem mod_p_eq_mod: "0 < P \<Longrightarrow> mod_p P x = x mod P"
proof (cases "0 \<le> x")
  case True
  assume "0 < P"
  with True show ?thesis
    by (simp add: mod_p_def smod_nonneg)
next
  case False
  assume P: "0 < P"
  then have "- ((- x) mod P) + P \<ge> 0"
    by (smt (verit) pos_mod_bound)
  with False P have "mod_p P x = (P - (- x) mod P) mod P"
    by (simp add: mod_p_def smod_neg smod_nonneg)
  also have "\<dots> = x mod P"
    by (simp add: mod_diff_right_eq mod_minus_eq)
  finally show ?thesis .
qed

lemma mod_p_nat:
  "0 < n \<Longrightarrow> x mod int n = int k \<Longrightarrow> nat (mod_p (int n) x) = k"
  by (simp add: mod_p_eq_mod)

lemma mod_p_bound: "0 < n \<Longrightarrow> nat (mod_p (int n) x) < n"
  by (simp add: mod_p_eq_mod nat_less_iff)

text \<open>Reading back an \<^verbatim>\<open>int\<close>.\<close>

lemma sint_dst: "- (2 ^ 31) \<le> d \<Longrightarrow> d < 2 ^ 31 \<Longrightarrow> sint (word_of_int d :: u32) = d"
  by (simp add: sint_sbintrunc' signed_take_bit_int_eq_self)

end
