(* ===== verification/Transport.thy ===== *)
theory Transport
  imports Prelude
begin

text \<open>
  \<^verbatim>\<open>src/transport/transport.cc\<close> and the verbs data it handles. The code of one
  rank is a resumption \<open>rprog\<close>: the next call it makes into the RDMA library
  together with what it does with the answer. The transport functions are
  written in continuation style, so a collective reads like its source: each
  call is followed by the rest of the function.
\<close>

subsection \<open>Verbs data\<close>

text \<open>
  Work requests and completions as \<^verbatim>\<open>transport.cc\<close> builds and reads them: every
  request carries exactly one scatter/gather element, every send is an
  \<^verbatim>\<open>IBV_WR_SEND\<close>. Addresses and lengths are natural numbers; a length stored
  into an element is the \<^verbatim>\<open>uint32_t\<close> cast of the \<^verbatim>\<open>size_t\<close> argument.
\<close>

record ibv_sge =
  sge_addr :: nat
  sge_length :: nat
  sge_lkey :: nat

record ibv_send_wr =
  swr_id :: nat
  swr_sge :: ibv_sge
  swr_signaled :: bool

record ibv_recv_wr =
  rwr_id :: nat
  rwr_sge :: ibv_sge

record ibv_wc =
  wc_wr_id :: nat
  wc_status :: int
  wc_byte_len :: nat
  wc_qp :: nat

record MemoryRegion =
  mr_lkey :: nat
  mr_addr :: nat
  mr_length :: nat

datatype cq_id = SendCq | RecvCq

abbreviation (input) IBV_WC_SUCCESS :: int where "IBV_WC_SUCCESS \<equiv> 0"
abbreviation (input) IBV_WC_LOC_LEN_ERR :: int where "IBV_WC_LOC_LEN_ERR \<equiv> 1"
abbreviation (input) IBV_WC_LOC_PROT_ERR :: int where "IBV_WC_LOC_PROT_ERR \<equiv> 4"
abbreviation (input) IBV_WC_REM_INV_REQ_ERR :: int where "IBV_WC_REM_INV_REQ_ERR \<equiv> 9"
abbreviation (input) IBV_WC_REM_OP_ERR :: int where "IBV_WC_REM_OP_ERR \<equiv> 11"

subsection \<open>The code of one rank\<close>

text \<open>
  \<open>IbvPostSend qp wr k\<close> and \<open>IbvPostRecv qp wr k\<close> call \<^verbatim>\<open>ibv_post_send\<close> and
  \<^verbatim>\<open>ibv_post_recv\<close> and continue with the return code. \<open>AwaitCq cq k\<close> is the
  busy-poll loop: \<^verbatim>\<open>ibv_poll_cq\<close> is called with room for one entry until it
  returns something other than 0, and \<open>k\<close> gets that return value and the entry
  (\<open>poll_loop\<close> below is the loop itself). \<open>Compute f p\<close> updates the rank's own
  memory. A queue pair is named by the rank it is connected to.
\<close>

datatype rprog =
    Return
  | Throw error
  | IbvPostSend nat ibv_send_wr "int \<Rightarrow> rprog"
  | IbvPostRecv nat ibv_recv_wr "int \<Rightarrow> rprog"
  | AwaitCq cq_id "int \<Rightarrow> ibv_wc \<Rightarrow> rprog"
  | Compute "mem \<Rightarrow> mem result" rprog

text \<open>Continue with \<open>k\<close> unless a helper failed; run a statement only under a condition.\<close>

definition or_throw :: "'a result \<Rightarrow> ('a \<Rightarrow> rprog) \<Rightarrow> rprog" where
  "or_throw x k = (case x of Inl e \<Rightarrow> Throw e | Inr a \<Rightarrow> k a)"

definition when_do :: "bool \<Rightarrow> (rprog \<Rightarrow> rprog) \<Rightarrow> rprog \<Rightarrow> rprog" where
  "when_do b stmt k = (if b then stmt k else k)"

lemma or_throw_simps [simp]:
  "or_throw (Inl e) k = Throw e"
  "or_throw (Inr a) k = k a"
  by (simp_all add: or_throw_def)

lemma when_do_simps [simp]:
  "when_do True stmt k = stmt k"
  "when_do False stmt k = k"
  by (simp_all add: when_do_def)

subsection \<open>CompletionQueue::poll and the polling loop\<close>

text \<open>
  \<^verbatim>\<open>ibv_poll_cq\<close> is a parameter: from the state of the queue it gives the return
  value, the entries written and the new state. \<open>poll\<close> is
  \<^verbatim>\<open>CompletionQueue::poll\<close>, \<open>poll_loop\<close> the \<^verbatim>\<open>for (;;)\<close> loop of
  \<^verbatim>\<open>wait_completion\<close>, which has no bound (\<open>None\<close>: it never returns).
\<close>

definition poll ::
    "('s \<Rightarrow> int \<Rightarrow> int \<times> ibv_wc list \<times> 's) \<Rightarrow> int \<Rightarrow> 's \<Rightarrow> (int \<times> ibv_wc list) result \<times> 's" where
  "poll ibv_poll_cq max_entries s =
     (case ibv_poll_cq s max_entries of (n, out, s') \<Rightarrow>
        (if n < 0 then Inl (RuntimeError ''ibv_poll_cq failed, rc='' [n])
         else Inr (n, take (nat n) out), s'))"

partial_function (option) poll_loop ::
    "('s \<Rightarrow> int \<Rightarrow> int \<times> ibv_wc list \<times> 's) \<Rightarrow> 's \<Rightarrow> (ibv_wc list result \<times> 's) option" where
  "poll_loop ibv_poll_cq s =
     (case poll ibv_poll_cq 1 s of
        (Inl e, s') \<Rightarrow> Some (Inl e, s')
      | (Inr (n, wcs), s') \<Rightarrow> if n > 0 then Some (Inr wcs, s') else poll_loop ibv_poll_cq s')"

subsection \<open>Transport calls\<close>

definition post_send ::
    "nat \<Rightarrow> MemoryRegion \<Rightarrow> nat \<Rightarrow> nat \<Rightarrow> nat \<Rightarrow> bool \<Rightarrow> rprog \<Rightarrow> rprog" where
  "post_send qp mr data len wr_id signaled k =
     IbvPostSend qp
       \<lparr>swr_id = wr_id,
        swr_sge = \<lparr>sge_addr = data, sge_length = to_u32 len, sge_lkey = mr_lkey mr\<rparr>,
        swr_signaled = signaled\<rparr>
       (\<lambda>rc. or_throw (check_rc rc ''ibv_post_send'') (\<lambda>_. k))"

definition post_recv ::
    "nat \<Rightarrow> MemoryRegion \<Rightarrow> nat \<Rightarrow> nat \<Rightarrow> nat \<Rightarrow> rprog \<Rightarrow> rprog" where
  "post_recv qp mr data len wr_id k =
     IbvPostRecv qp
       \<lparr>rwr_id = wr_id,
        rwr_sge = \<lparr>sge_addr = data, sge_length = to_u32 len, sge_lkey = mr_lkey mr\<rparr>\<rparr>
       (\<lambda>rc. or_throw (check_rc rc ''ibv_post_recv'') (\<lambda>_. k))"

definition wait_completion :: "cq_id \<Rightarrow> (ibv_wc \<Rightarrow> rprog) \<Rightarrow> rprog" where
  "wait_completion cq k =
     AwaitCq cq (\<lambda>n wc.
       if n < 0 then Throw (RuntimeError ''ibv_poll_cq failed, rc='' [n])
       else if wc_status wc \<noteq> IBV_WC_SUCCESS
       then Throw (RuntimeError ''completion error: '' [wc_status wc])
       else k wc)"

definition send :: "nat \<Rightarrow> MemoryRegion \<Rightarrow> nat \<Rightarrow> nat \<Rightarrow> rprog \<Rightarrow> rprog" where
  "send qp mr data len k = post_send qp mr data len 0 True (wait_completion SendCq (\<lambda>_. k))"

definition recv :: "nat \<Rightarrow> MemoryRegion \<Rightarrow> nat \<Rightarrow> nat \<Rightarrow> (nat \<Rightarrow> rprog) \<Rightarrow> rprog" where
  "recv qp mr data capacity k =
     post_recv qp mr data capacity 0 (wait_completion RecvCq (\<lambda>wc. k (wc_byte_len wc)))"

subsection \<open>What a collective sees of a Communicator\<close>

record communicator =
  comm_rank :: int
  comm_size :: int
  comm_qps :: "int \<rightharpoonup> nat"

text \<open>\<^verbatim>\<open>Communicator::qp\<close>: \<^verbatim>\<open>qps_.at(peer_rank)\<close> throws \<^verbatim>\<open>std::out_of_range\<close>.\<close>

definition comm_qp :: "communicator \<Rightarrow> int \<Rightarrow> nat result" where
  "comm_qp comm peer_rank = (case comm_qps comm peer_rank of None \<Rightarrow> Inl OutOfRange | Some q \<Rightarrow> Inr q)"

definition with_qp :: "communicator \<Rightarrow> int \<Rightarrow> (nat \<Rightarrow> rprog) \<Rightarrow> rprog" where
  "with_qp comm peer k = or_throw (comm_qp comm peer) k"

subsection \<open>The polling loop returns as soon as a completion is ready\<close>

text \<open>\<open>polls_empty ibv k s t\<close>: \<open>k\<close> polls in a row from \<open>s\<close> find nothing and end in \<open>t\<close>.\<close>

fun polls_empty :: "('s \<Rightarrow> int \<Rightarrow> int \<times> ibv_wc list \<times> 's) \<Rightarrow> nat \<Rightarrow> 's \<Rightarrow> 's \<Rightarrow> bool" where
  "polls_empty ibv_poll_cq 0 s t \<longleftrightarrow> s = t"
| "polls_empty ibv_poll_cq (Suc k) s t \<longleftrightarrow>
     (\<exists>out s'. ibv_poll_cq s 1 = (0, out, s') \<and> polls_empty ibv_poll_cq k s' t)"

lemma poll_loop_skip:
  "polls_empty ibv k s t \<Longrightarrow> poll_loop ibv s = poll_loop ibv t"
  by (induction k arbitrary: s) (auto simp: poll_loop.simps [of ibv s for s] poll_def)

lemma poll_loop_waits:
  "poll_loop ibv s = Some r \<Longrightarrow> \<exists>t. fst (ibv t 1) \<noteq> 0"
proof (erule poll_loop.raw_induct [rotated])
  fix loop and ibv :: "'s \<Rightarrow> int \<Rightarrow> int \<times> ibv_wc list \<times> 's" and s r
  assume IH: "\<And>ibv s y. loop ibv s = Some y \<Longrightarrow> \<exists>t. fst (ibv t 1) \<noteq> 0"
    and body: "(case poll ibv 1 s of (Inl e, s') \<Rightarrow> Some (Inl e, s')
      | (Inr (n, wcs), s') \<Rightarrow> if 0 < n then Some (Inr wcs, s') else loop ibv s') = Some r"
  obtain n out s' where call: "ibv s 1 = (n, out, s')" by (metis prod_cases3)
  show "\<exists>t. fst (ibv t 1) \<noteq> 0"
  proof (cases "n = 0")
    case True
    with body call have "loop ibv s' = Some r" by (simp add: poll_def)
    then show ?thesis by (rule IH)
  qed (use call in \<open>auto intro: exI [of _ s]\<close>)
qed

subsection \<open>Properties\<close>

text \<open>
  C39: the polling loop of \<^verbatim>\<open>wait_completion\<close> returns at the first poll that finds something, after any
  number of polls that find nothing: with the completion, or with an error when polling
  fails. It has no timeout: as long as polling finds nothing it does not return.
\<close>

theorem poll_loop_returns:
  "(polls_empty ibv_poll_cq k s t \<longrightarrow> ibv_poll_cq t 1 = (n, out, t') \<longrightarrow> n \<noteq> 0 \<longrightarrow>
     poll_loop ibv_poll_cq s =
       Some (if n < 0 then Inl (RuntimeError ''ibv_poll_cq failed, rc='' [n]) else Inr (take (nat n) out), t')) \<and>
   ((\<forall>t. fst (ibv_poll_cq t 1) = 0) \<longrightarrow> poll_loop ibv_poll_cq s = None)"
proof (intro conjI impI)
  assume "polls_empty ibv_poll_cq k s t" "ibv_poll_cq t 1 = (n, out, t')" "n \<noteq> 0"
  then show "poll_loop ibv_poll_cq s =
      Some (if n < 0 then Inl (RuntimeError ''ibv_poll_cq failed, rc='' [n]) else Inr (take (nat n) out), t')"
    using poll_loop_skip [of ibv_poll_cq k s t] by (simp add: poll_loop.simps [of _ t] poll_def)
next
  assume "\<forall>t. fst (ibv_poll_cq t 1) = 0"
  then show "poll_loop ibv_poll_cq s = None" using poll_loop_waits [of ibv_poll_cq s]
    by (cases "poll_loop ibv_poll_cq s") auto
qed

text \<open>A queue that delivers one completion after three empty polls.\<close>

theorem poll_loop_returns_witness:
  "poll_loop (\<lambda>s _. if s < (3::nat) then (0, [], s + 1) else (1, [\<lparr>wc_wr_id = 7, wc_status = 0, wc_byte_len = 4, wc_qp = 1\<rparr>], s)) 0 =
     Some (Inr [\<lparr>wc_wr_id = 7, wc_status = 0, wc_byte_len = 4, wc_qp = 1\<rparr>], 3)"
proof -
  let ?ibv = "\<lambda>s (_::int). if s < (3::nat) then (0, [], s + 1) else (1, [\<lparr>wc_wr_id = 7, wc_status = 0, wc_byte_len = 4, wc_qp = 1\<rparr>], s)"
  have "polls_empty ?ibv 3 0 3" by (simp add: numeral_3_eq_3)
  with poll_loop_returns [of ?ibv 3 0 3 1] show ?thesis by simp
qed

end
