(* ===== verification/Confluence.thy ===== *)
theory Confluence
  imports Prelude
begin

text \<open>
  Schedules of a labelled transition system given by a partial step function,
  and the interface of a system whose distinct enabled steps commute
  (\<open>diamond_system\<close>). In such a system one completed schedule determines them
  all: every schedule is bounded by it and can be continued to the same final
  state. The fabric of communicating ranks is an instance (theory \<open>Fabric\<close>).
\<close>

fun run :: "('l \<Rightarrow> 's \<Rightarrow> 's option) \<Rightarrow> 'l list \<Rightarrow> 's \<Rightarrow> 's option" where
  "run exec [] s = Some s"
| "run exec (l # ls) s = (case exec l s of None \<Rightarrow> None | Some t \<Rightarrow> run exec ls t)"

definition stuck :: "('l \<Rightarrow> 's \<Rightarrow> 's option) \<Rightarrow> 's \<Rightarrow> bool" where
  "stuck exec s \<longleftrightarrow> (\<forall>l. exec l s = None)"

text \<open>
  Every schedule from \<open>s\<close> ends well: there is a number \<open>n\<close> such that no schedule is
  longer than \<open>n\<close>, and every schedule can be continued to one of exactly \<open>n\<close> steps
  that ends in a state where no step is enabled and \<open>Q\<close> holds. So no schedule
  deadlocks early, runs forever, or ends outside \<open>Q\<close>.
\<close>

definition always_ends :: "('l \<Rightarrow> 's \<Rightarrow> 's option) \<Rightarrow> 's \<Rightarrow> ('s \<Rightarrow> bool) \<Rightarrow> bool" where
  "always_ends exec s Q \<longleftrightarrow>
     (\<exists>n. \<forall>ls t. run exec ls s = Some t \<longrightarrow>
        (\<exists>ms f. run exec ms t = Some f \<and> stuck exec f \<and> Q f \<and> length ls + length ms = n))"

lemma always_ends_mono:
  "always_ends exec s Q \<Longrightarrow> (\<And>f. Q f \<Longrightarrow> Q' f) \<Longrightarrow> always_ends exec s Q'"
  unfolding always_ends_def by meson

lemma always_ends_stuck:
  "always_ends exec s Q \<Longrightarrow> run exec ls s = Some t \<Longrightarrow> stuck exec t \<Longrightarrow> Q t"
  unfolding always_ends_def stuck_def
  by (metis list.exhaust option.distinct(1) option.inject option.simps(4) run.simps)

lemma always_ends_exists: "always_ends exec s Q \<Longrightarrow> \<exists>ls f. run exec ls s = Some f \<and> stuck exec f \<and> Q f"
  unfolding always_ends_def by (metis run.simps(1))

lemma run_append:
  "run exec (ls @ ms) s = (case run exec ls s of None \<Rightarrow> None | Some t \<Rightarrow> run exec ms t)"
  by (induction ls arbitrary: s) (auto split: option.splits)

lemma run_appendI:
  "run exec ls s = Some t \<Longrightarrow> run exec ms t = Some u \<Longrightarrow> run exec (ls @ ms) s = Some u"
  by (simp add: run_append)

locale diamond_system =
  fixes exec :: "'l \<Rightarrow> 's \<Rightarrow> 's option"
    and inv :: "'s \<Rightarrow> bool"
  assumes inv_step: "inv s \<Longrightarrow> exec l s = Some t \<Longrightarrow> inv t"
    and diamond: "inv s \<Longrightarrow> exec a s = Some t \<Longrightarrow> exec b s = Some u \<Longrightarrow> a \<noteq> b \<Longrightarrow>
      \<exists>v. exec b t = Some v \<and> exec a u = Some v"
begin

lemma inv_run: "inv s \<Longrightarrow> run exec ls s = Some t \<Longrightarrow> inv t"
proof (induction ls arbitrary: s)
  case Nil
  then show ?case by simp
next
  case (Cons l ls)
  then show ?case by (auto split: option.splits dest: inv_step)
qed

lemma strip:
  assumes "inv s" and "run exec ls s = Some f" and "stuck exec f" and "exec m s = Some t"
  shows "\<exists>ns. run exec ns t = Some f \<and> length ls = Suc (length ns)"
  using assms
proof (induction ls arbitrary: s t)
  case Nil
  then show ?case by (simp add: stuck_def)
next
  case (Cons l ls)
  then obtain s1 where s1: "exec l s = Some s1" and rest: "run exec ls s1 = Some f"
    by (auto split: option.splits)
  show ?case
  proof (cases "l = m")
    case True
    with s1 rest Cons.prems(4) show ?thesis by auto
  next
    case False
    then obtain v where v: "exec m s1 = Some v" "exec l t = Some v"
      using diamond [OF Cons.prems(1) s1 Cons.prems(4)] by blast
    have "inv s1" using Cons.prems(1) s1 by (rule inv_step)
    then obtain ns where "run exec ns v = Some f" "length ls = Suc (length ns)"
      using Cons.IH [OF _ rest Cons.prems(3) v(1)] by blast
    with v(2) show ?thesis by (intro exI [of _ "l # ns"]) simp
  qed
qed

lemma schedule_independent:
  assumes "inv s" and "run exec ls s = Some f" and "stuck exec f" and "run exec ms s = Some t"
  shows "\<exists>ns. run exec ns t = Some f \<and> length ms + length ns = length ls"
  using assms
proof (induction ms arbitrary: s ls)
  case Nil
  then show ?case by auto
next
  case (Cons m ms)
  then obtain s1 where s1: "exec m s = Some s1" and rest: "run exec ms s1 = Some t"
    by (auto split: option.splits)
  obtain ks where ks: "run exec ks s1 = Some f" "length ls = Suc (length ks)"
    using strip [OF Cons.prems(1-3) s1] by blast
  obtain ns where "run exec ns t = Some f" "length ms + length ns = length ks"
    using Cons.IH [OF inv_step [OF Cons.prems(1) s1] ks(1) Cons.prems(3) rest] by blast
  with ks(2) show ?case by auto
qed

lemma one_schedule_suffices:
  assumes "inv s" and "run exec ls s = Some f" and "stuck exec f" and "Q f"
  shows "always_ends exec s Q"
  unfolding always_ends_def
  using schedule_independent [OF assms(1-3)] assms(3,4) by blast

end

text \<open>
  A system seen through a function: every step of \<open>exec\<close> is the same step of \<open>exec'\<close> after abstraction, and no step is lost. What all
  schedules of the abstract system do, all schedules of the concrete one do.
\<close>

locale abstraction =
  fixes exec :: "'l \<Rightarrow> 's \<Rightarrow> 's option"
    and exec' :: "'l \<Rightarrow> 'a \<Rightarrow> 'a option"
    and h :: "'s \<Rightarrow> 'a"
  assumes exec_abs: "exec' l (h s) = map_option h (exec l s)"
begin

lemma run_abs: "run exec' ls (h s) = map_option h (run exec ls s)"
  by (induction ls arbitrary: s) (auto simp: exec_abs split: option.splits)

lemma stuck_abs: "stuck exec' (h s) \<longleftrightarrow> stuck exec s"
  by (simp add: stuck_def exec_abs)

lemma always_ends_abs:
  assumes "always_ends exec' (h s) Q"
  shows "always_ends exec s (\<lambda>f. Q (h f))"
proof -
  obtain n where n: "\<And>ls t. run exec' ls (h s) = Some t \<Longrightarrow>
      \<exists>ms f. run exec' ms t = Some f \<and> stuck exec' f \<and> Q f \<and> length ls + length ms = n"
    using assms unfolding always_ends_def by blast
  have "\<exists>ms f. run exec ms t = Some f \<and> stuck exec f \<and> Q (h f) \<and> length ls + length ms = n"
    if t: "run exec ls s = Some t" for ls t
  proof -
    obtain ms g where g: "run exec' ms (h t) = Some g" "stuck exec' g" "Q g" "length ls + length ms = n"
      using n [of ls "h t"] t by (auto simp: run_abs)
    from g(1) obtain f where "run exec ms t = Some f" "g = h f" by (auto simp: run_abs)
    with g(2-4) show ?thesis by (auto simp: stuck_abs)
  qed
  then show ?thesis unfolding always_ends_def by blast
qed

end

end
