(* ===== verification/Fabric.thy ===== *)
theory Fabric
  imports Transport Confluence
begin

text \<open>
  Many ranks over one RDMA fabric. The RDMA library and the network are not
  part of the repository: they are a parameter, a record \<open>'n fabric\<close> of the
  calls the ranks make and of the moves the hardware makes on its own, over a
  state of any type \<open>'n\<close>. What the code relies on is the reliable-connection
  (RC) contract documented in \<^verbatim>\<open>queue_pair.hpp\<close>, \<^verbatim>\<open>transport.hpp\<close> and
  \<^verbatim>\<open>completion_queue.hpp\<close>; it is the locale \<open>rc_contract\<close>, which says that the
  fabric behaves like the reference queues \<open>rc_fabric\<close> under an abstraction
  function. The theorems about collectives take \<open>rc_contract\<close> as a hypothesis.

  The semantics reads and writes the posted buffers at the moment the hardware
  moves a message, so a rank that touches a buffer it has handed to the
  hardware races. The predicate \<open>disc\<close> on programs excludes this; for
  disciplined ranks the order of steps does not matter
  (\<open>diamond_system\<close> of theory \<open>Confluence\<close>).
\<close>

subsection \<open>The fabric as a parameter\<close>

record 'n fabric =
  fab_post_send :: "nat \<Rightarrow> nat \<Rightarrow> ibv_send_wr \<Rightarrow> 'n \<Rightarrow> int \<times> 'n"
  fab_post_recv :: "nat \<Rightarrow> nat \<Rightarrow> ibv_recv_wr \<Rightarrow> 'n \<Rightarrow> int \<times> 'n"
  fab_poll_cq :: "nat \<Rightarrow> cq_id \<Rightarrow> 'n \<Rightarrow> int \<times> ibv_wc \<times> 'n"
  fab_move :: "nat \<Rightarrow> nat \<Rightarrow> (nat \<Rightarrow> mem) \<Rightarrow> 'n \<Rightarrow> ((nat \<Rightarrow> mem) \<times> 'n) option"

text \<open>
  The state of a job: what each rank has left to do, each rank's memory, and the
  fabric. A step is a rank taking its next step (\<open>Run r\<close>) or the hardware moving
  the oldest message from \<open>p\<close> to \<open>q\<close> (\<open>Nic p q\<close>).
\<close>

record 'n job =
  procs :: "nat \<Rightarrow> rprog"
  mems :: "nat \<Rightarrow> mem"
  net :: 'n

datatype action = Run nat | Nic nat nat

fun exec :: "'n fabric \<Rightarrow> action \<Rightarrow> 'n job \<Rightarrow> 'n job option" where
  "exec F (Run r) w =
     (case procs w r of
        Return \<Rightarrow> None
      | Throw e \<Rightarrow> None
      | IbvPostSend q wr k \<Rightarrow>
          (case fab_post_send F r q wr (net w) of (rc, n) \<Rightarrow>
             Some (w\<lparr>procs := (procs w)(r := k rc), net := n\<rparr>))
      | IbvPostRecv q wr k \<Rightarrow>
          (case fab_post_recv F r q wr (net w) of (rc, n) \<Rightarrow>
             Some (w\<lparr>procs := (procs w)(r := k rc), net := n\<rparr>))
      | AwaitCq cq k \<Rightarrow>
          (case fab_poll_cq F r cq (net w) of (c, wc, n) \<Rightarrow>
             if c = 0 then None
             else Some (w\<lparr>procs := (procs w)(r := k c wc), net := n\<rparr>))
      | Compute f p \<Rightarrow>
          (case f (mems w r) of
             Inl e \<Rightarrow> Some (w\<lparr>procs := (procs w)(r := Throw e)\<rparr>)
           | Inr m \<Rightarrow> Some (w\<lparr>procs := (procs w)(r := p), mems := (mems w)(r := m)\<rparr>)))"
| "exec F (Nic p q) w =
     (case fab_move F p q (mems w) (net w) of
        None \<Rightarrow> None
      | Some (ms, n) \<Rightarrow> Some (w\<lparr>mems := ms, net := n\<rparr>))"

subsection \<open>The reference queues of the RC contract\<close>

text \<open>
  One endpoint per rank: posted sends and receives in order per peer, the two
  completion queues, and the registered memory regions by local key.
\<close>

record endpoint =
  sq :: "nat \<Rightarrow> ibv_send_wr list"
  rq :: "nat \<Rightarrow> ibv_recv_wr list"
  scq :: "ibv_wc list"
  rcq :: "ibv_wc list"
  regs :: "nat \<rightharpoonup> nat \<times> nat"

text \<open>The queue depth every \<^verbatim>\<open>QueuePair\<close> is created with, and \<^verbatim>\<open>ENOMEM\<close>.\<close>

definition max_wr :: nat where "max_wr = 64"
definition ENOMEM :: int where "ENOMEM = 12"

definition ep_post_send :: "nat \<Rightarrow> ibv_send_wr \<Rightarrow> endpoint \<Rightarrow> int \<times> endpoint" where
  "ep_post_send q wr e =
     (if max_wr \<le> length (sq e q) then (ENOMEM, e)
      else (0, e\<lparr>sq := (sq e)(q := sq e q @ [wr])\<rparr>))"

definition ep_post_recv :: "nat \<Rightarrow> ibv_recv_wr \<Rightarrow> endpoint \<Rightarrow> int \<times> endpoint" where
  "ep_post_recv q wr e =
     (if max_wr \<le> length (rq e q) then (ENOMEM, e)
      else (0, e\<lparr>rq := (rq e)(q := rq e q @ [wr])\<rparr>))"

definition no_wc :: ibv_wc where
  "no_wc = \<lparr>wc_wr_id = 0, wc_status = 0, wc_byte_len = 0, wc_qp = 0\<rparr>"

definition ep_poll :: "cq_id \<Rightarrow> endpoint \<Rightarrow> int \<times> ibv_wc \<times> endpoint" where
  "ep_poll cq e =
     (case cq of
        SendCq \<Rightarrow> (case scq e of [] \<Rightarrow> (0, no_wc, e) | c # cs \<Rightarrow> (1, c, e\<lparr>scq := cs\<rparr>))
      | RecvCq \<Rightarrow> (case rcq e of [] \<Rightarrow> (0, no_wc, e) | c # cs \<Rightarrow> (1, c, e\<lparr>rcq := cs\<rparr>)))"

definition sge_ok :: "endpoint \<Rightarrow> ibv_sge \<Rightarrow> bool" where
  "sge_ok e g = (case regs e (sge_lkey g) of
     None \<Rightarrow> False
   | Some (a, l) \<Rightarrow> a \<le> sge_addr g \<and> sge_addr g + sge_length g \<le> a + l)"

text \<open>
  How a send meets the receive it is matched with: the status the sender gets,
  and the status the receiver gets (\<open>None\<close>: the receive stays posted). A message
  larger than the posted buffer is refused, never written past it.
\<close>

definition xfer_status :: "endpoint \<Rightarrow> endpoint \<Rightarrow> ibv_sge \<Rightarrow> ibv_sge \<Rightarrow> int \<times> int option" where
  "xfer_status src dst s r =
     (if \<not> sge_ok src s then (IBV_WC_LOC_PROT_ERR, None)
      else if sge_length r < sge_length s then (IBV_WC_REM_INV_REQ_ERR, Some IBV_WC_LOC_LEN_ERR)
      else if \<not> sge_ok dst r then (IBV_WC_REM_OP_ERR, Some IBV_WC_LOC_PROT_ERR)
      else (IBV_WC_SUCCESS, Some IBV_WC_SUCCESS))"

definition send_wc :: "nat \<Rightarrow> ibv_send_wr \<Rightarrow> int \<Rightarrow> ibv_wc list" where
  "send_wc q s st =
     (if swr_signaled s \<or> st \<noteq> IBV_WC_SUCCESS
      then [\<lparr>wc_wr_id = swr_id s, wc_status = st, wc_byte_len = 0, wc_qp = q\<rparr>] else [])"

definition recv_wc :: "nat \<Rightarrow> ibv_recv_wr \<Rightarrow> ibv_send_wr \<Rightarrow> int \<Rightarrow> ibv_wc" where
  "recv_wc p r s st =
     \<lparr>wc_wr_id = rwr_id r, wc_status = st, wc_byte_len = sge_length (swr_sge s), wc_qp = p\<rparr>"

definition sender_done :: "nat \<Rightarrow> ibv_send_wr \<Rightarrow> int \<Rightarrow> endpoint \<Rightarrow> endpoint" where
  "sender_done q s st e = e\<lparr>sq := (sq e)(q := tl (sq e q)), scq := scq e @ send_wc q s st\<rparr>"

definition receiver_done ::
    "nat \<Rightarrow> ibv_recv_wr \<Rightarrow> ibv_send_wr \<Rightarrow> int option \<Rightarrow> endpoint \<Rightarrow> endpoint" where
  "receiver_done p r s st e =
     (case st of None \<Rightarrow> e
      | Some c \<Rightarrow> e\<lparr>rq := (rq e)(p := tl (rq e p)), rcq := rcq e @ [recv_wc p r s c]\<rparr>)"

definition deliver :: "ibv_sge \<Rightarrow> ibv_sge \<Rightarrow> mem \<Rightarrow> mem \<Rightarrow> mem" where
  "deliver s r src dst = mem_write dst (sge_addr r) (mem_read src (sge_addr s) (sge_length s))"

definition rc_move ::
    "nat \<Rightarrow> nat \<Rightarrow> (nat \<Rightarrow> mem) \<Rightarrow> (nat \<Rightarrow> endpoint) \<Rightarrow>
      ((nat \<Rightarrow> mem) \<times> (nat \<Rightarrow> endpoint)) option" where
  "rc_move p q ms n =
     (case (sq (n p) q, rq (n q) p) of
        (s # _, r # _) \<Rightarrow>
          (case xfer_status (n p) (n q) (swr_sge s) (rwr_sge r) of (st, rt) \<Rightarrow>
             Some (if rt = Some IBV_WC_SUCCESS
                   then ms(q := deliver (swr_sge s) (rwr_sge r) (ms p) (ms q)) else ms,
                   \<lambda>x. (if x = q then receiver_done p r s rt else id)
                        ((if x = p then sender_done q s st else id) (n x))))
      | _ \<Rightarrow> None)"

definition rc_fabric :: "(nat \<Rightarrow> endpoint) fabric" where
  "rc_fabric =
     \<lparr>fab_post_send = (\<lambda>r q wr n. case ep_post_send q wr (n r) of (rc, e) \<Rightarrow> (rc, n(r := e))),
      fab_post_recv = (\<lambda>r q wr n. case ep_post_recv q wr (n r) of (rc, e) \<Rightarrow> (rc, n(r := e))),
      fab_poll_cq = (\<lambda>r cq n. case ep_poll cq (n r) of (c, wc, e) \<Rightarrow> (c, wc, n(r := e))),
      fab_move = rc_move\<rparr>"

text \<open>
  The contract: seen through \<open>\<alpha>\<close>, every call returns what the reference queues
  return and every hardware move is a move of the reference queues.
\<close>

locale rc_contract =
  fixes F :: "'n fabric" and \<alpha> :: "'n \<Rightarrow> nat \<Rightarrow> endpoint"
  assumes post_send_ok:
      "fab_post_send rc_fabric r q swr (\<alpha> n) = map_prod id \<alpha> (fab_post_send F r q swr n)"
    and post_recv_ok:
      "fab_post_recv rc_fabric r q rwr (\<alpha> n) = map_prod id \<alpha> (fab_post_recv F r q rwr n)"
    and poll_ok:
      "fab_poll_cq rc_fabric r cq (\<alpha> n) = map_prod id (map_prod id \<alpha>) (fab_poll_cq F r cq n)"
    and move_ok:
      "fab_move rc_fabric p q ms (\<alpha> n) = map_option (map_prod id \<alpha>) (fab_move F p q ms n)"

definition abs_job :: "('n \<Rightarrow> 'm) \<Rightarrow> 'n job \<Rightarrow> 'm job" where
  "abs_job \<alpha> w = \<lparr>procs = procs w, mems = mems w, net = \<alpha> (net w)\<rparr>"

lemma abs_job_sel [simp]:
  "procs (abs_job \<alpha> w) = procs w"
  "mems (abs_job \<alpha> w) = mems w"
  "net (abs_job \<alpha> w) = \<alpha> (net w)"
  by (simp_all add: abs_job_def)

sublocale rc_contract \<subseteq> abstraction "exec F" "exec rc_fabric" "abs_job \<alpha>"
proof
  show "exec rc_fabric a (abs_job \<alpha> w) = map_option (abs_job \<alpha>) (exec F a w)" for a w
  proof (cases a)
    case (Run r)
    then show ?thesis
      by (auto simp: post_send_ok post_recv_ok poll_ok abs_job_def
          split: rprog.splits prod.splits sum.splits)
  next
    case (Nic p q)
    then show ?thesis
      by (auto simp: move_ok abs_job_def split: option.splits prod.splits)
  qed
qed

context rc_contract
begin

lemmas job_ends_abs = always_ends_abs
lemmas job_run_abs = run_abs

end

interpretation rc_ref: rc_contract rc_fabric id
  by unfold_locales (simp_all add: prod.map_id0 option.map_id)

end
