(* ===== verification/Discipline.thy ===== *)
theory Discipline
  imports Fabric
begin

text \<open>
  Buffer ownership. A rank program is disciplined when it keeps at most one
  send and one receive outstanding, never lets their buffers overlap, touches its
  memory only while nothing is outstanding, and returns only when every request
  has completed. Disciplined ranks cannot race with the hardware, and all
  interleavings of a job of disciplined ranks lead to the same final state.
\<close>

definition sge_disjoint :: "ibv_sge \<Rightarrow> ibv_sge \<Rightarrow> bool" where
  "sge_disjoint g h = disjoint_ranges (sge_addr g) (sge_length g) (sge_addr h) (sge_length h)"

text \<open>\<open>disc p s v\<close>: program \<open>p\<close> is disciplined when send \<open>s\<close> and receive \<open>v\<close> are outstanding.\<close>

primrec disc :: "rprog \<Rightarrow> ibv_send_wr option \<Rightarrow> ibv_recv_wr option \<Rightarrow> bool" where
  "disc Return = (\<lambda>s v. s = None \<and> v = None)"
| "disc (Throw e) = (\<lambda>s v. True)"
| "disc (IbvPostSend q wr k) = (\<lambda>s v.
     s = None \<and> swr_signaled wr \<and>
     (\<forall>rw. v = Some rw \<longrightarrow> sge_disjoint (swr_sge wr) (rwr_sge rw)) \<and>
     (\<forall>rc. disc (k rc) (if rc = 0 then Some wr else None) v))"
| "disc (IbvPostRecv q wr k) = (\<lambda>s v.
     v = None \<and>
     (\<forall>sw. s = Some sw \<longrightarrow> sge_disjoint (swr_sge sw) (rwr_sge wr)) \<and>
     (\<forall>rc. disc (k rc) s (if rc = 0 then Some wr else None)))"
| "disc (AwaitCq cq k) = (\<lambda>s v.
     (case cq of SendCq \<Rightarrow> s \<noteq> None \<and> (\<forall>c wc. disc (k c wc) None v)
               | RecvCq \<Rightarrow> v \<noteq> None \<and> (\<forall>c wc. disc (k c wc) s None)))"
| "disc (Compute f p) = (\<lambda>s v. s = None \<and> v = None \<and> disc p None None)"

text \<open>
  What an endpoint looks like when request \<open>s\<close> is outstanding: still queued for one
  peer, or completed and waiting to be polled.
\<close>

fun send_view :: "endpoint \<Rightarrow> ibv_send_wr option \<Rightarrow> bool" where
  "send_view e None \<longleftrightarrow> (\<forall>q. sq e q = []) \<and> scq e = []"
| "send_view e (Some wr) \<longleftrightarrow>
     (\<exists>q. sq e q = [wr] \<and> (\<forall>q'. q' \<noteq> q \<longrightarrow> sq e q' = []) \<and> scq e = []) \<or>
     (\<forall>q. sq e q = []) \<and> (\<exists>wc. scq e = [wc])"

fun recv_view :: "endpoint \<Rightarrow> ibv_recv_wr option \<Rightarrow> bool" where
  "recv_view e None \<longleftrightarrow> (\<forall>q. rq e q = []) \<and> rcq e = []"
| "recv_view e (Some wr) \<longleftrightarrow>
     (\<exists>q. rq e q = [wr] \<and> (\<forall>q'. q' \<noteq> q \<longrightarrow> rq e q' = []) \<and> rcq e = []) \<or>
     (\<forall>q. rq e q = []) \<and> (\<exists>wc. rcq e = [wc])"

definition rank_ok :: "rprog \<Rightarrow> endpoint \<Rightarrow> bool" where
  "rank_ok p e \<longleftrightarrow>
     (\<exists>s v. disc p s v \<and> send_view e s \<and> recv_view e v \<and>
       (\<forall>sw rw. s = Some sw \<longrightarrow> v = Some rw \<longrightarrow> sge_disjoint (swr_sge sw) (rwr_sge rw)) \<and>
       (\<forall>sw. s = Some sw \<longrightarrow> swr_signaled sw))"

definition disciplined :: "(nat \<Rightarrow> endpoint) job \<Rightarrow> bool" where
  "disciplined w \<longleftrightarrow> (\<forall>r. rank_ok (procs w r) (net w r))"

subsection \<open>One rank's steps\<close>

text \<open>Over the reference queues, a step of a rank touches only that rank's own part of the job.\<close>

type_synonym rank_state = "rprog \<times> mem \<times> endpoint"

fun lstep :: "rank_state \<Rightarrow> rank_state option" where
  "lstep (Return, m, e) = None"
| "lstep (Throw x, m, e) = None"
| "lstep (IbvPostSend q wr k, m, e) = (case ep_post_send q wr e of (rc, e') \<Rightarrow> Some (k rc, m, e'))"
| "lstep (IbvPostRecv q wr k, m, e) = (case ep_post_recv q wr e of (rc, e') \<Rightarrow> Some (k rc, m, e'))"
| "lstep (AwaitCq cq k, m, e) =
     (case ep_poll cq e of (c, wc, e') \<Rightarrow> if c = 0 then None else Some (k c wc, m, e'))"
| "lstep (Compute f p, m, e) =
     (case f m of Inl x \<Rightarrow> Some (Throw x, m, e) | Inr m' \<Rightarrow> Some (p, m', e))"

definition view :: "(nat \<Rightarrow> endpoint) job \<Rightarrow> nat \<Rightarrow> rank_state" where
  "view w r = (procs w r, mems w r, net w r)"

definition upd :: "(nat \<Rightarrow> endpoint) job \<Rightarrow> nat \<Rightarrow> rank_state \<Rightarrow> (nat \<Rightarrow> endpoint) job" where
  "upd w r v = (case v of (p, m, e) \<Rightarrow>
     \<lparr>procs = (procs w)(r := p), mems = (mems w)(r := m), net = (net w)(r := e)\<rparr>)"

lemma view_upd [simp]: "view (upd w r v) x = (if x = r then v else view w x)"
  by (cases v) (simp add: view_def upd_def)

lemma job_eqI: "(\<And>r. view w r = view w' r) \<Longrightarrow> w = (w' :: (nat \<Rightarrow> endpoint) job)"
  by (cases w; cases w') (simp add: view_def fun_eq_iff)

lemma exec_Run: "exec rc_fabric (Run r) w = map_option (upd w r) (lstep (view w r))"
  by (cases "procs w r")
     (auto simp: exec.simps view_def upd_def rc_fabric_def split: prod.splits sum.splits)

declare exec.simps [simp del]

lemma exec_Nic:
  "exec rc_fabric (Nic p q) w =
     map_option (\<lambda>(ms, n). w\<lparr>mems := ms, net := n\<rparr>) (rc_move p q (mems w) (net w))"
  by (simp add: exec.simps rc_fabric_def split: option.splits prod.splits)

lemma rank_okI:
  "disc p s v \<Longrightarrow> send_view e s \<Longrightarrow> recv_view e v \<Longrightarrow>
   (\<And>sw rw. s = Some sw \<Longrightarrow> v = Some rw \<Longrightarrow> sge_disjoint (swr_sge sw) (rwr_sge rw)) \<Longrightarrow>
   (\<And>sw. s = Some sw \<Longrightarrow> swr_signaled sw) \<Longrightarrow> rank_ok p e"
  unfolding rank_ok_def by blast

lemma send_view_frame:
  "send_view e s \<Longrightarrow> sq e' = sq e \<Longrightarrow> scq e' = scq e \<Longrightarrow> send_view e' s"
  by (cases s) simp_all

lemma recv_view_frame:
  "recv_view e v \<Longrightarrow> rq e' = rq e \<Longrightarrow> rcq e' = rcq e \<Longrightarrow> recv_view e' v"
  by (cases v) simp_all

lemma send_view_pending:
  assumes "send_view e t" and "sq e q = s # ss"
  shows "t = Some s \<and> ss = [] \<and> (\<forall>q'. q' \<noteq> q \<longrightarrow> sq e q' = []) \<and> scq e = []"
proof (cases t)
  case (Some wr)
  with assms obtain x where "sq e x = [wr]" "\<forall>q'. q' \<noteq> x \<longrightarrow> sq e q' = []" "scq e = []"
    by auto
  with assms(2) Some show ?thesis by (cases "q = x") auto
qed (use assms in simp)

lemma recv_view_pending:
  assumes "recv_view e v" and "rq e q = r # rs"
  shows "v = Some r \<and> rs = [] \<and> (\<forall>q'. q' \<noteq> q \<longrightarrow> rq e q' = []) \<and> rcq e = []"
proof (cases v)
  case (Some wr)
  with assms obtain x where "rq e x = [wr]" "\<forall>q'. q' \<noteq> x \<longrightarrow> rq e q' = []" "rcq e = []"
    by auto
  with assms(2) Some show ?thesis by (cases "q = x") auto
qed (use assms in simp)

lemma ep_post_send_ok:
  assumes "send_view e None"
  shows "ep_post_send q wr e = (0, e\<lparr>sq := (sq e)(q := [wr])\<rparr>)"
  using assms by (simp add: ep_post_send_def max_wr_def)

lemma ep_post_recv_ok:
  assumes "recv_view e None"
  shows "ep_post_recv q wr e = (0, e\<lparr>rq := (rq e)(q := [wr])\<rparr>)"
  using assms by (simp add: ep_post_recv_def max_wr_def)

lemma send_view_posted:
  "send_view e None \<Longrightarrow> send_view (e\<lparr>sq := (sq e)(q := [wr])\<rparr>) (Some wr)"
  by (auto intro!: exI [of _ q])

lemma recv_view_posted:
  "recv_view e None \<Longrightarrow> recv_view (e\<lparr>rq := (rq e)(q := [wr])\<rparr>) (Some wr)"
  by (auto intro!: exI [of _ q])

lemma ep_poll_send:
  assumes "ep_poll SendCq e = (c, wc, e')" "c \<noteq> 0" "send_view e s"
  shows "c = 1 \<and> scq e = [wc] \<and> (\<forall>q. sq e q = []) \<and> e' = e\<lparr>scq := []\<rparr>"
  using assms by (cases s) (auto simp: ep_poll_def split: list.splits)

lemma ep_poll_recv:
  assumes "ep_poll RecvCq e = (c, wc, e')" "c \<noteq> 0" "recv_view e v"
  shows "c = 1 \<and> rcq e = [wc] \<and> (\<forall>q. rq e q = []) \<and> e' = e\<lparr>rcq := []\<rparr>"
  using assms by (cases v) (auto simp: ep_poll_def split: list.splits)

lemma lstep_rank_ok:
  assumes ok: "rank_ok p e" and step: "lstep (p, m, e) = Some (p', m', e')"
  shows "rank_ok p' e'"
proof -
  obtain s v where d: "disc p s v" "send_view e s" "recv_view e v"
    "\<And>sw rw. s = Some sw \<Longrightarrow> v = Some rw \<Longrightarrow> sge_disjoint (swr_sge sw) (rwr_sge rw)"
    "\<And>sw. s = Some sw \<Longrightarrow> swr_signaled sw"
    using ok unfolding rank_ok_def by blast
  show ?thesis
  proof (cases p)
    case (IbvPostSend q wr k)
    with d(1) have s: "s = None" by simp
    note post = ep_post_send_ok [OF d(2) [unfolded s]]
    from step IbvPostSend have p': "p' = k 0" "e' = e\<lparr>sq := (sq e)(q := [wr])\<rparr>"
      by (simp_all add: post)
    show ?thesis unfolding p'
    proof (rule rank_okI)
      show "disc (k 0) (Some wr) v" using d(1) IbvPostSend by (auto dest: spec [of _ 0])
      show "send_view (e\<lparr>sq := (sq e)(q := [wr])\<rparr>) (Some wr)"
        by (rule send_view_posted) (rule d(2) [unfolded s])
      show "recv_view (e\<lparr>sq := (sq e)(q := [wr])\<rparr>) v"
        by (rule recv_view_frame [OF d(3)]) simp_all
    qed (use d(1) IbvPostSend in simp_all)
  next
    case (IbvPostRecv q wr k)
    with d(1) have v: "v = None" by simp
    note post = ep_post_recv_ok [OF d(3) [unfolded v]]
    from step IbvPostRecv have p': "p' = k 0" "e' = e\<lparr>rq := (rq e)(q := [wr])\<rparr>"
      by (simp_all add: post)
    show ?thesis unfolding p'
    proof (rule rank_okI)
      show "disc (k 0) s (Some wr)" using d(1) IbvPostRecv by (auto dest: spec [of _ 0])
      show "recv_view (e\<lparr>rq := (rq e)(q := [wr])\<rparr>) (Some wr)"
        by (rule recv_view_posted) (rule d(3) [unfolded v])
      show "send_view (e\<lparr>rq := (rq e)(q := [wr])\<rparr>) s"
        by (rule send_view_frame [OF d(2)]) simp_all
    qed (use d IbvPostRecv in simp_all)
  next
    case (AwaitCq cq k)
    then obtain c wc where c: "ep_poll cq e = (c, wc, e')" "c \<noteq> 0" "p' = k c wc"
      using step by (auto split: prod.splits if_splits)
    show ?thesis
    proof (cases cq)
      case SendCq
      with c have e': "e' = e\<lparr>scq := []\<rparr>" "\<forall>q. sq e q = []"
        using ep_poll_send [OF _ c(2) d(2)] by simp_all
      show ?thesis unfolding c(3)
      proof (rule rank_okI)
        show "disc (k c wc) None v" using d(1) AwaitCq SendCq by simp
        show "send_view e' None" using e' by simp
        show "recv_view e' v" by (rule recv_view_frame [OF d(3)]) (simp_all add: e')
      qed simp_all
    next
      case RecvCq
      with c have e': "e' = e\<lparr>rcq := []\<rparr>" "\<forall>q. rq e q = []"
        using ep_poll_recv [OF _ c(2) d(3)] by simp_all
      show ?thesis unfolding c(3)
      proof (rule rank_okI)
        show "disc (k c wc) s None" using d(1) AwaitCq RecvCq by simp
        show "recv_view e' None" using e' by simp
        show "send_view e' s" by (rule send_view_frame [OF d(2)]) (simp_all add: e')
      qed (use d(5) in simp_all)
    qed
  next
    case (Compute f k)
    with d(1) have "s = None" "v = None" "disc k None None" by simp_all
    with Compute step d(2,3) show ?thesis
      by (intro rank_okI [of _ None None]) (auto split: sum.splits)
  qed (use step in simp_all)
qed

end
