(* ===== verification/Diamond.thy ===== *)
theory Diamond
  imports Discipline
begin

text \<open>
  Steps of a job of disciplined ranks commute: two enabled steps can be taken
  in either order with the same result. This interprets the locale
  \<open>diamond_system\<close> for the fabric's reference queues.
\<close>

subsection \<open>Outstanding requests\<close>

lemma rank_ok_sending:
  assumes "rank_ok p e" and "sq e q = s # ss"
  shows "ss = [] \<and> (\<forall>q'. q' \<noteq> q \<longrightarrow> sq e q' = []) \<and> scq e = [] \<and> swr_signaled s \<and>
    (\<exists>v. disc p (Some s) v)"
proof -
  obtain t v where d: "disc p t v" "send_view e t" "\<And>sw. t = Some sw \<Longrightarrow> swr_signaled sw"
    using assms(1) unfolding rank_ok_def by blast
  with send_view_pending [OF d(2) assms(2)] show ?thesis by blast
qed

lemma rank_ok_receiving:
  assumes "rank_ok p e" and "rq e q = r # rs"
  shows "rs = [] \<and> (\<forall>q'. q' \<noteq> q \<longrightarrow> rq e q' = []) \<and> rcq e = [] \<and> (\<exists>s. disc p s (Some r))"
proof -
  obtain s v where d: "disc p s v" "recv_view e v"
    using assms(1) unfolding rank_ok_def by blast
  with recv_view_pending [OF d(2) assms(2)] show ?thesis by blast
qed

lemma rank_ok_both:
  assumes "rank_ok p e" and "sq e q = s # ss" and "rq e q' = r # rs"
  shows "sge_disjoint (swr_sge s) (rwr_sge r) \<and> disc p (Some s) (Some r)"
proof -
  obtain t v where d: "disc p t v" "send_view e t" "recv_view e v"
    "\<And>sw rw. t = Some sw \<Longrightarrow> v = Some rw \<Longrightarrow> sge_disjoint (swr_sge sw) (rwr_sge rw)"
    using assms(1) unfolding rank_ok_def by blast
  with send_view_pending [OF d(2) assms(2)] recv_view_pending [OF d(3) assms(3)]
  show ?thesis by blast
qed

subsection \<open>Completions keep the discipline\<close>

lemma sender_done_sel [simp]:
  "rq (sender_done q s st e) = rq e"
  "rcq (sender_done q s st e) = rcq e"
  "regs (sender_done q s st e) = regs e"
  "sq (sender_done q s st e) = (sq e)(q := tl (sq e q))"
  "scq (sender_done q s st e) = scq e @ send_wc q s st"
  by (simp_all add: sender_done_def)

lemma receiver_done_sel [simp]:
  "sq (receiver_done p r s rt e) = sq e"
  "scq (receiver_done p r s rt e) = scq e"
  "regs (receiver_done p r s rt e) = regs e"
  by (simp_all add: receiver_done_def split: option.splits)

lemma done_commute:
  "receiver_done p r s rt (sender_done q s' st e) = sender_done q s' st (receiver_done p r s rt e)"
  by (simp add: receiver_done_def sender_done_def split: option.splits)

lemma sge_ok_cong: "regs e = regs e' \<Longrightarrow> sge_ok e g = sge_ok e' g"
  by (simp add: sge_ok_def)

lemma xfer_status_cong:
  "regs a = regs a' \<Longrightarrow> regs b = regs b' \<Longrightarrow> xfer_status a b s r = xfer_status a' b' s r"
  by (simp add: xfer_status_def sge_ok_cong [of a a'] sge_ok_cong [of b b'])

lemma sender_done_ok:
  assumes ok: "rank_ok p e" and sq: "sq e q = s # ss"
  shows "rank_ok p (sender_done q s st e)"
proof -
  obtain t v where d: "disc p t v" "send_view e t" "recv_view e v"
    "\<And>sw rw. t = Some sw \<Longrightarrow> v = Some rw \<Longrightarrow> sge_disjoint (swr_sge sw) (rwr_sge rw)"
    "\<And>sw. t = Some sw \<Longrightarrow> swr_signaled sw"
    using ok unfolding rank_ok_def by blast
  note now = rank_ok_sending [OF ok sq]
  have t: "t = Some s" using send_view_pending [OF d(2) sq] by blast
  show ?thesis
  proof (rule rank_okI [OF d(1)])
    show "send_view (sender_done q s st e) t"
      using now sq t by (simp add: send_wc_def)
    show "recv_view (sender_done q s st e) v"
      by (rule recv_view_frame [OF d(3)]) simp_all
  qed (use d(4,5) in blast)+
qed

lemma receiver_done_ok:
  assumes ok: "rank_ok p e" and rq: "rq e x = r # rs"
  shows "rank_ok p (receiver_done x r s rt e)"
proof (cases rt)
  case None
  with ok show ?thesis by (simp add: receiver_done_def)
next
  case (Some c)
  obtain t v where d: "disc p t v" "send_view e t" "recv_view e v"
    "\<And>sw rw. t = Some sw \<Longrightarrow> v = Some rw \<Longrightarrow> sge_disjoint (swr_sge sw) (rwr_sge rw)"
    "\<And>sw. t = Some sw \<Longrightarrow> swr_signaled sw"
    using ok unfolding rank_ok_def by blast
  note now = rank_ok_receiving [OF ok rq]
  have v: "v = Some r" using recv_view_pending [OF d(3) rq] by blast
  show ?thesis
  proof (rule rank_okI [OF d(1)])
    show "recv_view (receiver_done x r s rt e) v"
      using now rq v Some by (simp add: receiver_done_def)
    show "send_view (receiver_done x r s rt e) t"
      by (rule send_view_frame [OF d(2)]) simp_all
  qed (use d(4,5) in blast)+
qed

subsection \<open>A hardware move, written out\<close>

definition nic_job :: "nat \<Rightarrow> nat \<Rightarrow> ibv_send_wr \<Rightarrow> ibv_recv_wr \<Rightarrow> int \<Rightarrow> int option \<Rightarrow>
    (nat \<Rightarrow> endpoint) job \<Rightarrow> (nat \<Rightarrow> endpoint) job" where
  "nic_job p q s r st rt w =
     w\<lparr>mems := (if rt = Some IBV_WC_SUCCESS
                 then (mems w)(q := deliver (swr_sge s) (rwr_sge r) (mems w p) (mems w q))
                 else mems w),
       net := (\<lambda>x. (if x = q then receiver_done p r s rt else id)
                   ((if x = p then sender_done q s st else id) (net w x)))\<rparr>"

lemma exec_Nic_eq_Some:
  "exec rc_fabric (Nic p q) w = Some w' \<longleftrightarrow>
     (\<exists>s ss r rs st rt. sq (net w p) q = s # ss \<and> rq (net w q) p = r # rs \<and>
        xfer_status (net w p) (net w q) (swr_sge s) (rwr_sge r) = (st, rt) \<and>
        w' = nic_job p q s r st rt w)"
  by (auto simp: exec_Nic rc_move_def nic_job_def split: list.splits prod.splits)

lemma nic_disciplined:
  assumes "disciplined w" and "sq (net w p) q = s # ss" and "rq (net w q) p = r # rs"
  shows "disciplined (nic_job p q s r st rt w)"
proof -
  have ok: "rank_ok (procs w x) (net w x)" for x
    using assms(1) by (simp add: disciplined_def)
  have "rank_ok (procs w p) (sender_done q s st (net w p))"
    by (rule sender_done_ok [OF ok assms(2)])
  moreover have "rank_ok (procs w q) (receiver_done p r s rt (net w q))"
    by (rule receiver_done_ok [OF ok assms(3)])
  moreover have "rank_ok (procs w p) (receiver_done p r s rt (sender_done q s st (net w p)))"
    if "p = q"
    by (rule receiver_done_ok [where rs = rs, OF sender_done_ok [OF ok assms(2)]])
       (use that assms(3) in simp)
  ultimately show ?thesis
    using ok by (auto simp: disciplined_def nic_job_def)
qed

lemma exec_disciplined:
  assumes "disciplined w" and "exec rc_fabric a w = Some w'"
  shows "disciplined w'"
proof (cases a)
  case (Run x)
  with assms(2) obtain v where v: "lstep (view w x) = Some v" "w' = upd w x v"
    by (auto simp: exec_Run)
  obtain p m e where "v = (p, m, e)" by (cases v)
  with v assms(1) show ?thesis
    by (auto simp: disciplined_def upd_def view_def intro: lstep_rank_ok)
next
  case (Nic p q)
  with assms show ?thesis
    by (auto simp: exec_Nic_eq_Some intro: nic_disciplined)
qed

subsection \<open>Commutation\<close>

text \<open>A step of a rank whose send is still queued does not see the send complete.\<close>

lemma lstep_while_sending:
  assumes ok: "rank_ok p e" and sq: "sq e q = s # ss" and step: "lstep (p, m, e) = Some (p', m', e')"
  shows "m' = m \<and> sq e' = sq e \<and> regs e' = regs e \<and>
    lstep (p, m, sender_done q s st e) = Some (p', m', sender_done q s st e')"
proof -
  note now = rank_ok_sending [OF ok sq]
  then obtain v where d: "disc p (Some s) v" by blast
  show ?thesis
  proof (cases p)
    case (IbvPostRecv q' wr k)
    with step show ?thesis
      by (auto simp: ep_post_recv_def sender_done_def split: if_splits)
  next
    case (AwaitCq cq k)
    with step now show ?thesis
      by (cases cq) (auto simp: ep_poll_def sender_done_def split: list.splits if_splits)
  qed (use d step in auto)
qed

text \<open>A step of a rank whose receive is still queued does not see it complete.\<close>

lemma lstep_while_receiving:
  assumes ok: "rank_ok p e" and rq: "rq e x = r # rs" and step: "lstep (p, m, e) = Some (p', m', e')"
  shows "m' = m \<and> rq e' = rq e \<and> regs e' = regs e \<and>
    lstep (p, m2, receiver_done x r s rt e) = Some (p', m2, receiver_done x r s rt e')"
proof -
  note now = rank_ok_receiving [OF ok rq]
  then obtain t where d: "disc p t (Some r)" by blast
  show ?thesis
  proof (cases p)
    case (IbvPostSend q' wr k)
    with step show ?thesis
      by (auto simp: ep_post_send_def receiver_done_def split: if_splits option.splits)
  next
    case (AwaitCq cq k)
    with step now show ?thesis
      by (cases cq) (auto simp: ep_poll_def receiver_done_def split: list.splits if_splits option.splits)
  qed (use d step in auto)
qed

lemma lstep_while_both:
  assumes ok: "rank_ok p e" and "sq e q = s # ss" and "rq e x = r # rs"
  shows "lstep (p, m, e) = None"
proof -
  have d: "disc p (Some s) (Some r)" using rank_ok_both [OF assms] by blast
  have "scq e = []" "rcq e = []"
    using rank_ok_sending [OF ok assms(2)] rank_ok_receiving [OF ok assms(3)] by auto
  with d show ?thesis
    by (cases p) (auto simp: ep_poll_def split: cq_id.splits)
qed

text \<open>Two moves write different ranks, and neither writes what the other reads.\<close>

lemma deliver_disjoint:
  assumes "sge_disjoint s' r" and "sge_length s \<le> sge_length r"
  shows "mem_read (deliver s r src dst) (sge_addr s') (sge_length s') =
         mem_read dst (sge_addr s') (sge_length s')"
proof -
  have "disjoint_ranges (sge_addr s') (sge_length s') (sge_addr r) (sge_length s)"
    by (rule disjoint_ranges_sub [OF assms(1) [unfolded sge_disjoint_def]]) (use assms(2) in simp_all)
  then show ?thesis by (simp add: deliver_def mem_read_write_disjoint)
qed

lemma xfer_status_fits:
  "xfer_status a b s r = (st, Some IBV_WC_SUCCESS) \<Longrightarrow> sge_length s \<le> sge_length r"
  by (simp add: xfer_status_def split: if_splits)

lemma run_run_commute:
  assumes "exec rc_fabric (Run a) w = Some w1" "exec rc_fabric (Run b) w = Some w2" "a \<noteq> b"
  shows "\<exists>v. exec rc_fabric (Run b) w1 = Some v \<and> exec rc_fabric (Run a) w2 = Some v"
proof -
  obtain va vb where v: "lstep (view w a) = Some va" "w1 = upd w a va"
      "lstep (view w b) = Some vb" "w2 = upd w b vb"
    using assms by (auto simp: exec_Run)
  have "upd (upd w a va) b vb = upd (upd w b vb) a va"
    by (rule job_eqI) (use assms(3) in simp)
  with v assms(3) show ?thesis by (simp add: exec_Run)
qed

lemma view_nic_job:
  "view (nic_job p q s r st rt w) x =
     (procs w x,
      if x = q \<and> rt = Some IBV_WC_SUCCESS
      then deliver (swr_sge s) (rwr_sge r) (mems w p) (mems w q) else mems w x,
      (if x = q then receiver_done p r s rt else id)
        ((if x = p then sender_done q s st else id) (net w x)))"
  by (simp add: view_def nic_job_def)

lemma run_nic_commute:
  assumes inv: "disciplined w" and run: "exec rc_fabric (Run a) w = Some w1"
    and nic: "exec rc_fabric (Nic p q) w = Some w2"
  shows "\<exists>v. exec rc_fabric (Nic p q) w1 = Some v \<and> exec rc_fabric (Run a) w2 = Some v"
proof -
  obtain s ss r rs st rt where m: "sq (net w p) q = s # ss" "rq (net w q) p = r # rs"
      "xfer_status (net w p) (net w q) (swr_sge s) (rwr_sge r) = (st, rt)"
      "w2 = nic_job p q s r st rt w"
    using nic by (auto simp: exec_Nic_eq_Some)
  obtain pr me en where l: "lstep (view w a) = Some (pr, me, en)" and w1: "w1 = upd w a (pr, me, en)"
    using run by (auto simp: exec_Run)
  have ok: "rank_ok (procs w x) (net w x)" for x using inv by (simp add: disciplined_def)
  have ends: "\<not> (a = p \<and> a = q)"
    using l lstep_while_both [OF ok m(1)] m(2) by (auto simp: view_def)
  have send: "me = mems w p \<and> sq en = sq (net w p) \<and> regs en = regs (net w p) \<and>
      lstep (procs w p, mems w p, sender_done q s st (net w p)) = Some (pr, me, sender_done q s st en)"
    if "a = p"
    using lstep_while_sending [OF ok m(1) l [unfolded that view_def]] by blast
  have recv: "me = mems w q \<and> rq en = rq (net w q) \<and> regs en = regs (net w q) \<and>
      lstep (procs w q, m2, receiver_done p r s rt (net w q)) = Some (pr, m2, receiver_done p r s rt en)"
    if "a = q" for m2
    using lstep_while_receiving [OF ok m(2) l [unfolded that view_def]] by blast
  have nets: "sq (net w1 p) q = s # ss \<and> rq (net w1 q) p = r # rs \<and>
      xfer_status (net w1 p) (net w1 q) (swr_sge s) (rwr_sge r) = (st, rt)"
    using send recv m ends
    by (auto simp: w1 upd_def xfer_status_cong [of en "net w p"] xfer_status_cong [of _ _ en "net w q"])
  then have n1: "exec rc_fabric (Nic p q) w1 = Some (nic_job p q s r st rt w1)"
    by (auto simp: exec_Nic_eq_Some)
  obtain v where v: "lstep (view w2 a) = Some v"
      "\<And>x. view (nic_job p q s r st rt w1) x = (if x = a then v else view w2 x)"
  proof (cases "a = p \<or> a = q")
    case False
    have "lstep (view w2 a) = Some (pr, me, en)"
      using False l by (simp add: m(4) view_nic_job) (simp add: view_def)
    then show ?thesis
      by (rule that) (use False in \<open>auto simp: w1 m(4) nic_job_def upd_def view_def\<close>)
  next
    case True
    show ?thesis
    proof (cases "a = p")
      case True
      with send ends have "lstep (view w2 a) = Some (pr, me, sender_done q s st en)"
        by (simp add: m(4) view_nic_job)
      then show ?thesis
        by (rule that) (use True ends send in \<open>auto simp: w1 m(4) nic_job_def upd_def view_def\<close>)
    next
      case False
      with True have a: "a = q" by simp
      let ?m = "if rt = Some IBV_WC_SUCCESS
          then deliver (swr_sge s) (rwr_sge r) (mems w p) (mems w q) else mems w q"
      have "lstep (view w2 a) = Some (pr, ?m, receiver_done p r s rt en)"
        using recv [OF a, of ?m] False a by (simp add: m(4) view_nic_job)
      then show ?thesis
        by (rule that) (use False a recv [OF a] in \<open>auto simp: w1 m(4) nic_job_def upd_def view_def\<close>)
    qed
  qed
  have "upd w2 a v = nic_job p q s r st rt w1"
    by (rule job_eqI) (simp add: v(2))
  with n1 v(1) show ?thesis by (simp add: exec_Run)
qed

lemma deliver_cong:
  "mem_read src (sge_addr s) (sge_length s) = mem_read src' (sge_addr s) (sge_length s) \<Longrightarrow>
   deliver s r src dst = deliver s r src' dst"
  by (simp add: deliver_def)

lemma nic_nic_commute:
  assumes inv: "disciplined w"
    and n1: "exec rc_fabric (Nic p q) w = Some w1" and n2: "exec rc_fabric (Nic p' q') w = Some w2"
    and ne: "Nic p q \<noteq> Nic p' q'"
  shows "\<exists>v. exec rc_fabric (Nic p' q') w1 = Some v \<and> exec rc_fabric (Nic p q) w2 = Some v"
proof -
  obtain s ss r rs st rt where m: "sq (net w p) q = s # ss" "rq (net w q) p = r # rs"
      "xfer_status (net w p) (net w q) (swr_sge s) (rwr_sge r) = (st, rt)"
      "w1 = nic_job p q s r st rt w"
    using n1 by (auto simp: exec_Nic_eq_Some)
  obtain s' ss' r' rs' st' rt' where m': "sq (net w p') q' = s' # ss'" "rq (net w q') p' = r' # rs'"
      "xfer_status (net w p') (net w q') (swr_sge s') (rwr_sge r') = (st', rt')"
      "w2 = nic_job p' q' s' r' st' rt' w"
    using n2 by (auto simp: exec_Nic_eq_Some)
  have ok: "rank_ok (procs w x) (net w x)" for x using inv by (simp add: disciplined_def)
  have pp: "p \<noteq> p'"
    using ne m(1) m'(1) rank_ok_sending [OF ok m(1)] by (cases "q = q'") auto
  have qq: "q \<noteq> q'"
    using ne m(2) m'(2) rank_ok_receiving [OF ok m(2)] by (cases "p = p'") auto
  have e1: "exec rc_fabric (Nic p' q') w1 = Some (nic_job p' q' s' r' st' rt' w1)"
    unfolding exec_Nic_eq_Some m(4)
    using m'(1-3) pp qq
    by (auto simp: nic_job_def receiver_done_def sender_done_def split: option.splits
        cong: xfer_status_cong)
  have e2: "exec rc_fabric (Nic p q) w2 = Some (nic_job p q s r st rt w2)"
    unfolding exec_Nic_eq_Some m'(4)
    using m(1-3) pp qq
    by (auto simp: nic_job_def receiver_done_def sender_done_def split: option.splits
        cong: xfer_status_cong)
  have read': "mem_read (deliver (swr_sge s) (rwr_sge r) (mems w p) (mems w q))
        (sge_addr (swr_sge s')) (sge_length (swr_sge s')) =
      mem_read (mems w q) (sge_addr (swr_sge s')) (sge_length (swr_sge s'))"
    if "q = p'" "rt = Some IBV_WC_SUCCESS"
    using rank_ok_both [OF ok m'(1)] m(2) that xfer_status_fits m(3)
    by (intro deliver_disjoint) blast+
  have read: "mem_read (deliver (swr_sge s') (rwr_sge r') (mems w p') (mems w q'))
        (sge_addr (swr_sge s)) (sge_length (swr_sge s)) =
      mem_read (mems w q') (sge_addr (swr_sge s)) (sge_length (swr_sge s))"
    if "q' = p" "rt' = Some IBV_WC_SUCCESS"
    using rank_ok_both [OF ok m(1)] m'(2) that xfer_status_fits m'(3)
    by (intro deliver_disjoint) blast+
  have "nic_job p' q' s' r' st' rt' w1 = nic_job p q s r st rt w2"
  proof (rule job_eqI)
    fix x
    show "view (nic_job p' q' s' r' st' rt' w1) x = view (nic_job p q s r st rt w2) x"
      unfolding m(4) m'(4)
      using pp qq
      by (auto simp: view_def nic_job_def done_commute intro!: deliver_cong)
         (use read read' in simp_all)
  qed
  with e1 e2 show ?thesis by simp
qed

interpretation rc: diamond_system "exec rc_fabric" disciplined
proof
  fix w w' a assume "disciplined w" "exec rc_fabric a w = Some w'"
  then show "disciplined w'" by (rule exec_disciplined)
next
  fix w w1 w2 a b
  assume *: "disciplined w" "exec rc_fabric a w = Some w1" "exec rc_fabric b w = Some w2" "a \<noteq> b"
  show "\<exists>v. exec rc_fabric b w1 = Some v \<and> exec rc_fabric a w2 = Some v"
  proof (cases a; cases b)
    fix x y assume "a = Run x" "b = Run y" with * show ?thesis
      using run_run_commute [of x w w1 y w2] by simp
  next
    fix x p q assume "a = Run x" "b = Nic p q" with * show ?thesis
      using run_nic_commute [of w x w1 p q w2] by simp
  next
    fix x p q assume "a = Nic p q" "b = Run x" with * show ?thesis
      using run_nic_commute [of w x w2 p q w1] by auto
  next
    fix p q p' q' assume "a = Nic p q" "b = Nic p' q'" with * show ?thesis
      using nic_nic_commute [of w p q w1 p' q' w2] by simp
  qed
qed

end
