(* ===== verification/Exchange.thy ===== *)
theory Exchange
  imports Diamond
begin

text \<open>
  One communication round, the step every collective is made of: each rank posts
  at most one receive and one send, the hardware moves the matched messages, each
  rank reaps its completions. \<open>exchange_round\<close> gives a schedule for a round and
  the state it ends in; the collectives chain rounds, and the diamond property
  turns the schedule into a statement about all interleavings.
\<close>

subsection \<open>Runs of local steps\<close>

abbreviation lsteps :: "rank_state \<Rightarrow> rank_state \<Rightarrow> bool" where
  "lsteps \<equiv> (\<lambda>a b. lstep a = Some b)\<^sup>*\<^sup>*"

lemma lsteps_Cons: "lstep a = Some b \<Longrightarrow> lsteps b c \<Longrightarrow> lsteps a c"
  by (rule converse_rtranclp_into_rtranclp)

lemma run_lsteps:
  assumes "lsteps (view w r) v"
  shows "\<exists>as. run (exec rc_fabric) as w = Some (upd w r v)"
  using assms
proof (induction rule: rtranclp_induct)
  case base
  have "upd w r (view w r) = w" by (rule job_eqI) simp
  then show ?case by (intro exI [of _ "[]"]) simp
next
  case (step v v')
  then obtain as where as: "run (exec rc_fabric) as w = Some (upd w r v)" by blast
  have "upd (upd w r v) r v' = upd w r v'" by (rule job_eqI) simp
  with step(2) have "run (exec rc_fabric) [Run r] (upd w r v) = Some (upd w r v')"
    by (simp add: exec_Run)
  with as show ?case by (blast intro: run_appendI)
qed

lemma local_phase:
  assumes "\<And>r. r < n \<Longrightarrow> lsteps (view w r) (v r)" and "\<And>r. n \<le> r \<Longrightarrow> v r = view w r"
  shows "\<exists>as w'. run (exec rc_fabric) as w = Some w' \<and> (\<forall>r. view w' r = v r)"
proof -
  have "\<exists>as w'. run (exec rc_fabric) as w = Some w' \<and>
      (\<forall>r. view w' r = (if r < k then v r else view w r))" if "k \<le> n" for k
    using that
  proof (induction k)
    case 0
    show ?case by (intro exI [of _ "[]"]) simp
  next
    case (Suc k)
    then obtain as w1 where w1: "run (exec rc_fabric) as w = Some w1"
        "\<forall>r. view w1 r = (if r < k then v r else view w r)" by auto
    with Suc.prems assms(1) [of k] have "lsteps (view w1 k) (v k)" by simp
    then obtain bs where "run (exec rc_fabric) bs w1 = Some (upd w1 k (v k))"
      using run_lsteps by blast
    with w1 show ?case
      by (intro exI [of _ "as @ bs"] exI [of _ "upd w1 k (v k)"])
         (auto simp: run_append less_Suc_eq)
  qed
  from this [of n] assms(2) show ?thesis by (metis leI order_refl)
qed

subsection \<open>Endpoints within a round\<close>

definition idle :: "endpoint \<Rightarrow> bool" where
  "idle e \<longleftrightarrow> sq e = (\<lambda>_. []) \<and> rq e = (\<lambda>_. []) \<and> scq e = [] \<and> rcq e = []"

text \<open>
  The endpoint of a rank whose send \<open>so\<close> (peer and request) has completed iff
  \<open>sd\<close>, and whose receive \<open>ro\<close> (peer and request), matched with a send of length
  \<open>len\<close>, has completed iff \<open>rd\<close>.
\<close>

definition round_ep :: "endpoint \<Rightarrow> (nat \<times> ibv_send_wr) option \<Rightarrow> bool \<Rightarrow>
    (nat \<times> ibv_recv_wr) option \<Rightarrow> bool \<Rightarrow> nat \<Rightarrow> endpoint" where
  "round_ep e so sd ro rd len =
     e\<lparr>sq := (\<lambda>q. case so of None \<Rightarrow> [] | Some (q', s) \<Rightarrow> if q = q' \<and> \<not> sd then [s] else []),
       rq := (\<lambda>p. case ro of None \<Rightarrow> [] | Some (p', r) \<Rightarrow> if p = p' \<and> \<not> rd then [r] else []),
       scq := (case so of None \<Rightarrow> [] | Some (q, s) \<Rightarrow> if sd then send_wc q s IBV_WC_SUCCESS else []),
       rcq := (case ro of None \<Rightarrow> []
               | Some (p, r) \<Rightarrow>
                   if rd then [\<lparr>wc_wr_id = rwr_id r, wc_status = IBV_WC_SUCCESS,
                                wc_byte_len = len, wc_qp = p\<rparr>] else [])\<rparr>"

lemma round_ep_idle: "idle e \<Longrightarrow> round_ep e None sd None rd len = e"
  by (cases e) (simp add: round_ep_def idle_def)

lemma round_ep_regs [simp]: "regs (round_ep e so sd ro rd len) = regs e"
  by (simp add: round_ep_def)

text \<open>
  The sends \<open>so\<close> and receives \<open>ro\<close> of ranks below \<open>P\<close> match: every send has its
  receive at the peer with a buffer of exactly the message's length, every receive has its
  send, all buffers are registered, and a rank's two buffers do not overlap.
\<close>

definition matched :: "nat \<Rightarrow> (nat \<Rightarrow> endpoint) \<Rightarrow> (nat \<Rightarrow> (nat \<times> ibv_send_wr) option) \<Rightarrow>
    (nat \<Rightarrow> (nat \<times> ibv_recv_wr) option) \<Rightarrow> bool" where
  "matched P E so ro \<longleftrightarrow>
     (\<forall>p q s. so p = Some (q, s) \<longrightarrow> p < P \<and> q < P \<and> swr_signaled s \<and> sge_ok (E p) (swr_sge s) \<and>
        (\<exists>r. ro q = Some (p, r) \<and> sge_length (swr_sge s) = sge_length (rwr_sge r))) \<and>
     (\<forall>p q r. ro q = Some (p, r) \<longrightarrow> q < P \<and> p < P \<and> sge_ok (E q) (rwr_sge r) \<and>
        (\<exists>s. so p = Some (q, s))) \<and>
     (\<forall>x q s p r. so x = Some (q, s) \<longrightarrow> ro x = Some (p, r) \<longrightarrow>
        sge_disjoint (swr_sge s) (rwr_sge r))"

definition sent_sge :: "(nat \<Rightarrow> (nat \<times> ibv_send_wr) option) \<Rightarrow> nat \<Rightarrow> ibv_sge" where
  "sent_sge so p = swr_sge (snd (the (so p)))"

text \<open>A rank's memory once the messages of ranks below \<open>i\<close> have been moved.\<close>

definition round_mem :: "nat \<Rightarrow> (nat \<Rightarrow> (nat \<times> ibv_send_wr) option) \<Rightarrow>
    (nat \<Rightarrow> (nat \<times> ibv_recv_wr) option) \<Rightarrow> (nat \<Rightarrow> mem) \<Rightarrow> nat \<Rightarrow> mem" where
  "round_mem i so ro M x =
     (case ro x of None \<Rightarrow> M x
      | Some (p, r) \<Rightarrow> if p < i then deliver (sent_sge so p) (rwr_sge r) (M p) (M x) else M x)"

definition round_job :: "nat \<Rightarrow> (nat \<Rightarrow> rprog) \<Rightarrow> (nat \<Rightarrow> mem) \<Rightarrow> (nat \<Rightarrow> endpoint) \<Rightarrow>
    (nat \<Rightarrow> (nat \<times> ibv_send_wr) option) \<Rightarrow> (nat \<Rightarrow> (nat \<times> ibv_recv_wr) option) \<Rightarrow>
    (nat \<Rightarrow> endpoint) job" where
  "round_job i pr M E so ro =
     \<lparr>procs = pr, mems = round_mem i so ro M,
      net = (\<lambda>x. round_ep (E x) (so x) (x < i) (ro x)
               (case ro x of None \<Rightarrow> False | Some (p, _) \<Rightarrow> p < i)
               (case ro x of None \<Rightarrow> 0 | Some (_, r) \<Rightarrow> sge_length (rwr_sge r)))\<rparr>"

lemma matched_send:
  assumes "matched P E so ro" and "so p = Some (q, s)"
  obtains r where "p < P" "q < P" "swr_signaled s" "sge_ok (E p) (swr_sge s)"
    "ro q = Some (p, r)" "sge_length (swr_sge s) = sge_length (rwr_sge r)"
    "sge_ok (E q) (rwr_sge r)"
  using assms unfolding matched_def by blast

lemma matched_recv:
  assumes "matched P E so ro" and "ro q = Some (p, r)"
  obtains s where "so p = Some (q, s)" "q < P" "p < P"
    "sge_length (swr_sge s) = sge_length (rwr_sge r)"
proof -
  obtain s where s: "so p = Some (q, s)" "q < P" "p < P"
    using assms unfolding matched_def by blast
  moreover obtain r' where "ro q = Some (p, r')" "sge_length (swr_sge s) = sge_length (rwr_sge r')"
    using matched_send [OF assms(1) s(1)] .
  ultimately show thesis using assms(2) that by simp
qed

subsection \<open>The hardware moves every message of the round\<close>

lemma sender_done_round:
  "sender_done q s IBV_WC_SUCCESS (round_ep e (Some (q, s)) False ro rd len) =
   round_ep e (Some (q, s)) True ro rd len"
  by (simp add: sender_done_def round_ep_def fun_eq_iff)

lemma receiver_done_round:
  "sge_length (swr_sge s) = len \<Longrightarrow>
   receiver_done p r s (Some IBV_WC_SUCCESS) (round_ep e so sd (Some (p, r)) False len) =
   round_ep e so sd (Some (p, r)) True len"
  by (simp add: receiver_done_def round_ep_def recv_wc_def fun_eq_iff)

lemma round_job_step_none:
  assumes "matched P E so ro" and "so i = None"
  shows "round_job i pr M E so ro = round_job (Suc i) pr M E so ro"
proof -
  have "p \<noteq> i" if "ro x = Some (p, r)" for x p r
    using matched_recv [OF assms(1) that] assms(2) by fastforce
  then have p: "p < Suc i \<longleftrightarrow> p < i" if "ro x = Some (p, r)" for x p r
    using that by (auto simp: less_Suc_eq)
  have mem: "round_mem i so ro M x = round_mem (Suc i) so ro M x" for x
    using p [of x] by (auto simp: round_mem_def split: option.splits)
  have net: "round_ep (E x) (so x) (x < i) (ro x)
       (case ro x of None \<Rightarrow> False | Some (p, _) \<Rightarrow> p < i) len =
     round_ep (E x) (so x) (x < Suc i) (ro x)
       (case ro x of None \<Rightarrow> False | Some (p, _) \<Rightarrow> p < Suc i) len" for x len
    using p [of x] assms(2)
    by (cases "x = i") (auto simp: less_Suc_eq round_ep_def split: option.splits)
  show ?thesis by (simp add: round_job_def ext [OF mem] net)
qed

lemma round_job_step_some:
  assumes m: "matched P E so ro" and so: "so i = Some (q, s)"
  shows "exec rc_fabric (Nic i q) (round_job i pr M E so ro) =
         Some (round_job (Suc i) pr M E so ro)"
proof -
  obtain r where r: "swr_signaled s" "sge_ok (E i) (swr_sge s)" "ro q = Some (i, r)"
      "sge_length (swr_sge s) = sge_length (rwr_sge r)" "sge_ok (E q) (rwr_sge r)"
    using matched_send [OF m so] .
  have uniq: "x = q" if "ro x = Some (i, r')" for x r'
    using matched_recv [OF m that] so by fastforce
  let ?w = "round_job i pr M E so ro"
  have sq: "sq (net ?w i) q = [s]" using so by (simp add: round_job_def round_ep_def)
  have rq: "rq (net ?w q) i = [r]" using r(3) by (simp add: round_job_def round_ep_def)
  have st: "xfer_status (net ?w i) (net ?w q) (swr_sge s) (rwr_sge r) =
      (IBV_WC_SUCCESS, Some IBV_WC_SUCCESS)"
    using r(2,4,5) sge_ok_cong [of "net ?w i" "E i"] sge_ok_cong [of "net ?w q" "E q"]
    by (simp add: xfer_status_def round_job_def)
  have rd: "mem_read (round_mem i so ro M i) (sge_addr (swr_sge s)) (sge_length (swr_sge s)) =
      mem_read (M i) (sge_addr (swr_sge s)) (sge_length (swr_sge s))"
  proof (cases "ro i")
    case (Some pr')
    then obtain p r' where ro: "ro i = Some (p, r')" by (cases pr') auto
    obtain s' where s': "so p = Some (i, s')" "sge_length (swr_sge s') = sge_length (rwr_sge r')"
      using matched_recv [OF m ro] .
    have "sge_disjoint (swr_sge s) (rwr_sge r')"
      using m so ro unfolding matched_def by blast
    then show ?thesis
      using s' ro by (simp add: round_mem_def sent_sge_def deliver_disjoint)
  qed (simp add: round_mem_def)
  have "nic_job i q s r IBV_WC_SUCCESS (Some IBV_WC_SUCCESS) ?w = round_job (Suc i) pr M E so ro"
  proof (rule job_eqI)
    fix x
    have memx: "(if x = q then deliver (swr_sge s) (rwr_sge r) (round_mem i so ro M i)
          (round_mem i so ro M q) else round_mem i so ro M x) = round_mem (Suc i) so ro M x"
    proof (cases "x = q")
      case True
      then have "round_mem (Suc i) so ro M x = deliver (swr_sge s) (rwr_sge r) (M i) (M q)"
        "round_mem i so ro M q = M q"
        by (simp_all add: round_mem_def sent_sge_def r(3) so)
      with True show ?thesis by (simp add: deliver_cong [OF rd])
    next
      case False
      with uniq [of x] show ?thesis
        by (auto simp: round_mem_def less_Suc_eq split: option.splits)
    qed
    have older: "(case ro x of None \<Rightarrow> False | Some (p, _) \<Rightarrow> p < Suc i) =
        (case ro x of None \<Rightarrow> False | Some (p, _) \<Rightarrow> p < i)" if "x \<noteq> q"
      using that uniq [of x] by (auto simp: less_Suc_eq split: option.splits)
    have netx: "(if x = q then receiver_done i r s (Some IBV_WC_SUCCESS) else id)
        ((if x = i then sender_done q s IBV_WC_SUCCESS else id) (net ?w x)) =
        net (round_job (Suc i) pr M E so ro) x"
      using r(3,4) so older
      by (cases "x = q"; cases "x = i")
         (simp_all add: round_job_def sender_done_round receiver_done_round less_Suc_eq)
    show "view (nic_job i q s r IBV_WC_SUCCESS (Some IBV_WC_SUCCESS) ?w) x =
        view (round_job (Suc i) pr M E so ro) x"
      using memx netx unfolding view_nic_job
      by (simp add: view_def) (simp add: round_job_def split: if_splits)
  qed
  with sq rq st show ?thesis by (auto simp: exec_Nic_eq_Some)
qed

lemma nic_phase:
  assumes "matched P E so ro"
  shows "\<exists>as. run (exec rc_fabric) as (round_job 0 pr M E so ro) =
    Some (round_job n pr M E so ro)"
proof (induction n)
  case 0
  show ?case by (intro exI [of _ "[]"]) simp
next
  case (Suc n)
  then obtain as where as: "run (exec rc_fabric) as (round_job 0 pr M E so ro) =
      Some (round_job n pr M E so ro)" by blast
  show ?case
  proof (cases "so n")
    case None
    with as round_job_step_none [OF assms None] show ?thesis by metis
  next
    case (Some qs)
    then obtain q s where "so n = Some (q, s)" by (cases qs) auto
    then have "run (exec rc_fabric) [Nic n q] (round_job n pr M E so ro) =
        Some (round_job (Suc n) pr M E so ro)"
      using round_job_step_some [OF assms] by simp
    with as show ?thesis by (blast intro: run_appendI)
  qed
qed

subsection \<open>A whole round\<close>

text \<open>What the posting part and the reaping part of a rank's round start from and end in.\<close>

definition posted :: "endpoint \<Rightarrow> (nat \<times> ibv_send_wr) option \<Rightarrow> (nat \<times> ibv_recv_wr) option \<Rightarrow> endpoint" where
  "posted e so ro = round_ep e so False ro False
     (case ro of None \<Rightarrow> 0 | Some (_, r) \<Rightarrow> sge_length (rwr_sge r))"

definition completed :: "endpoint \<Rightarrow> (nat \<times> ibv_send_wr) option \<Rightarrow> (nat \<times> ibv_recv_wr) option \<Rightarrow> endpoint" where
  "completed e so ro = round_ep e so True ro True
     (case ro of None \<Rightarrow> 0 | Some (_, r) \<Rightarrow> sge_length (rwr_sge r))"

definition received :: "(nat \<Rightarrow> (nat \<times> ibv_send_wr) option) \<Rightarrow>
    (nat \<Rightarrow> (nat \<times> ibv_recv_wr) option) \<Rightarrow> (nat \<Rightarrow> mem) \<Rightarrow> nat \<Rightarrow> mem" where
  "received so ro M x =
     (case ro x of None \<Rightarrow> M x
      | Some (p, r) \<Rightarrow> deliver (sent_sge so p) (rwr_sge r) (M p) (M x))"

lemma exchange_round:
  assumes w: "\<And>x. view w x = (pr x, M x, E x)" and idle: "\<And>x. idle (E x)"
    and m: "matched P E so ro"
    and post: "\<And>x. x < P \<Longrightarrow> lsteps (pr x, M x, E x) (p1 x, M x, posted (E x) (so x) (ro x))"
    and reap: "\<And>x. x < P \<Longrightarrow>
      lsteps (p1 x, received so ro M x, completed (E x) (so x) (ro x)) (p2 x, M2 x, E x)"
    and rest: "\<And>x. P \<le> x \<Longrightarrow> p1 x = pr x \<and> p2 x = pr x \<and> M2 x = M x"
  shows "\<exists>as w'. run (exec rc_fabric) as w = Some w' \<and> (\<forall>x. view w' x = (p2 x, M2 x, E x))"
proof -
  have out: "so x = None \<and> ro x = None" if "P \<le> x" for x
    using m that unfolding matched_def by (metis not_le not_None_eq surj_pair)
  obtain as w1 where w1: "run (exec rc_fabric) as w = Some w1"
      "\<forall>x. view w1 x = (p1 x, M x, posted (E x) (so x) (ro x))"
    using local_phase [of P w "\<lambda>x. (p1 x, M x, posted (E x) (so x) (ro x))"] w post rest out idle
    by (auto simp: posted_def round_ep_idle)
  have j0: "w1 = round_job 0 p1 M E so ro"
  proof (rule job_eqI)
    fix x
    have "(case ro x of None \<Rightarrow> False | Some (p, _) \<Rightarrow> p < 0) = False" by (auto split: option.splits)
    with w1(2) show "view w1 x = view (round_job 0 p1 M E so ro) x"
      by (simp add: view_def round_job_def posted_def round_mem_def split: option.splits)
  qed
  obtain bs where bs: "run (exec rc_fabric) bs w1 = Some (round_job P p1 M E so ro)"
    using nic_phase [OF m, of p1 M P] unfolding j0 by blast
  have vw: "view (round_job P p1 M E so ro) x =
      (p1 x, received so ro M x, completed (E x) (so x) (ro x))" for x
  proof -
    have lt: "p < P" if "ro x = Some (p, r)" for p r using matched_recv [OF m that] by blast
    have mem: "round_mem P so ro M x = received so ro M x"
      using lt by (auto simp: round_mem_def received_def split: option.splits)
    have net: "round_ep (E x) (so x) (x < P) (ro x)
        (case ro x of None \<Rightarrow> False | Some (p, _) \<Rightarrow> p < P) len = round_ep (E x) (so x) True (ro x) True len"
      for len
      using lt out [of x] by (cases "ro x"; cases "x < P") (auto simp: round_ep_def)
    show ?thesis by (simp add: view_def round_job_def completed_def mem net)
  qed
  obtain cs w2 where "run (exec rc_fabric) cs (round_job P p1 M E so ro) = Some w2"
      "\<forall>x. view w2 x = (p2 x, M2 x, E x)"
    using local_phase [of P "round_job P p1 M E so ro" "\<lambda>x. (p2 x, M2 x, E x)"] vw reap rest out idle
    by (auto simp: completed_def received_def round_ep_idle)
  with w1(1) bs show ?thesis by (meson run_appendI)
qed

end
