(* ===== verification/Float32.thy ===== *)
theory Float32
  imports Prelude
begin

text \<open>
  The arithmetic the element type \<^verbatim>\<open>float\<close> needs in \<^verbatim>\<open>reduce_ops.cc\<close>: IEEE 754
  binary32 values as their 32 bits, \<^verbatim>\<open><\<close> and \<^verbatim>\<open>+\<close> with rounding to nearest, ties
  to even. A finite value is an integer multiple of \<open>2 ^ -149\<close>, so sums are
  exact integers before they are rounded. The NaN a sum returns follows the
  x86-64 rule: the first NaN operand made quiet, or the default NaN for
  \<open>\<infinity> + (- \<infinity>)\<close>.
\<close>

definition f32_sign :: "u32 \<Rightarrow> bool" where
  "f32_sign w = bit w 31"

definition f32_exp :: "u32 \<Rightarrow> nat" where
  "f32_exp w = unat (drop_bit 23 w AND 0xFF)"

definition f32_frac :: "u32 \<Rightarrow> nat" where
  "f32_frac w = unat (w AND 0x7FFFFF)"

definition f32_is_nan :: "u32 \<Rightarrow> bool" where
  "f32_is_nan w \<longleftrightarrow> f32_exp w = 255 \<and> f32_frac w \<noteq> 0"

definition f32_is_inf :: "u32 \<Rightarrow> bool" where
  "f32_is_inf w \<longleftrightarrow> f32_exp w = 255 \<and> f32_frac w = 0"

text \<open>
  The magnitude in units of \<open>2 ^ -149\<close>, and the signed value. For an infinity this
  gives a number above every finite value, which is what the order needs.
\<close>

definition f32_mag :: "u32 \<Rightarrow> nat" where
  "f32_mag w = (if f32_exp w = 0 then f32_frac w else (f32_frac w + 2 ^ 23) * 2 ^ (f32_exp w - 1))"

definition f32_val :: "u32 \<Rightarrow> int" where
  "f32_val w = (if f32_sign w then - int (f32_mag w) else int (f32_mag w))"

definition f32_lt :: "u32 \<Rightarrow> u32 \<Rightarrow> bool" where
  "f32_lt a b \<longleftrightarrow> \<not> f32_is_nan a \<and> \<not> f32_is_nan b \<and> f32_val a < f32_val b"

fun bitlen :: "nat \<Rightarrow> nat" where
  "bitlen n = (if n = 0 then 0 else Suc (bitlen (n div 2)))"

declare bitlen.simps [simp del]

text \<open>
  Rounding a magnitude: the bits of the nearest value, ties to even. The exponent
  field and the fraction are added, so that a carry out of the fraction moves to
  the next exponent; beyond the largest finite value the result is infinity.
\<close>

definition f32_round_mag :: "nat \<Rightarrow> nat" where
  "f32_round_mag m =
     (let k = bitlen m - 24; q = m div 2 ^ k; r = m mod 2 ^ k;
          up = (k > 0 \<and> (2 ^ (k - 1) < r \<or> r = 2 ^ (k - 1) \<and> odd q))
      in min (k * 2 ^ 23 + q + (if up then 1 else 0)) (255 * 2 ^ 23))"

definition f32_round :: "int \<Rightarrow> u32" where
  "f32_round v = (if v < 0 then 0x80000000 else 0) + of_nat (f32_round_mag (nat \<bar>v\<bar>))"

definition f32_add :: "u32 \<Rightarrow> u32 \<Rightarrow> u32" where
  "f32_add a b =
     (if f32_is_nan a then a OR 0x400000
      else if f32_is_nan b then b OR 0x400000
      else if f32_is_inf a then (if f32_is_inf b \<and> f32_sign a \<noteq> f32_sign b then 0xFFC00000 else a)
      else if f32_is_inf b then b
      else if f32_val a + f32_val b = 0
           then (if f32_sign a \<and> f32_sign b then 0x80000000 else 0)
      else f32_round (f32_val a + f32_val b))"

text \<open>The three fields determine a value.\<close>

lemma f32_eqI:
  assumes "f32_sign a = f32_sign b" "f32_exp a = f32_exp b" "f32_frac a = f32_frac b"
  shows "a = b"
proof (rule bit_word_eqI)
  fix n assume n: "n < LENGTH(32)"
  from assms have e: "drop_bit 23 a AND 0xFF = drop_bit 23 b AND 0xFF" "a AND 0x7FFFFF = b AND 0x7FFFFF" "bit a 31 = bit b 31"
    by (simp_all add: f32_sign_def f32_exp_def f32_frac_def unsigned_word_eqI)
  have m: "bit (0x7FFFFF :: 32 word) n" if "n < 23"
  proof -
    have "(0x7FFFFF :: 32 word) = mask 23" by (simp add: mask_eq_exp_minus_1)
    then show ?thesis using that by (simp only: bit_mask_iff) simp
  qed
  have m8: "bit (0xFF :: 32 word) j" if "j < 8" for j
  proof -
    have "(0xFF :: 32 word) = mask 8" by (simp add: mask_eq_exp_minus_1)
    then show ?thesis using that by (simp only: bit_mask_iff) simp
  qed
  consider "n < 23" | "23 \<le> n" "n < 31" | "n = 31" using n by fastforce
  then show "bit a n = bit b n"
  proof cases
    case 1
    then show ?thesis using arg_cong [OF e(2), of "\<lambda>w. bit w n"] m by (simp add: bit_and_iff)
  next
    case 2
    then show ?thesis using arg_cong [OF e(1), of "\<lambda>w. bit w (n - 23)"] m8 [of "n - 23"]
      by (auto simp: bit_and_iff bit_drop_bit_eq)
  qed (use e(3) in simp)
qed

text \<open>Away from NaN, addition does not depend on the order of its operands.\<close>

lemma f32_add_commute:
  assumes "\<not> f32_is_nan a" "\<not> f32_is_nan b"
  shows "f32_add a b = f32_add b a"
proof (cases "f32_is_inf a \<and> f32_is_inf b \<and> f32_sign a = f32_sign b")
  case True
  then have "a = b" by (auto simp: f32_is_inf_def intro: f32_eqI)
  then show ?thesis by simp
next
  case False
  with assms show ?thesis by (auto simp: f32_add_def add.commute)
qed

text \<open>Evaluation on numerals.\<close>

lemma bitlen_eval: "bitlen 0 = 0" "bitlen (Suc 0) = Suc 0" "bitlen (numeral n) = Suc (bitlen (numeral n div 2))"
  by (simp_all add: bitlen.simps [of "Suc 0"] bitlen.simps [of 0] bitlen.simps [of "numeral n"])

lemmas f32_eval = f32_add_def f32_lt_def f32_is_nan_def f32_is_inf_def f32_val_def f32_mag_def f32_exp_def f32_frac_def f32_sign_def
  f32_round_def f32_round_mag_def Let_def bitlen_eval

end
