(* ===== verification/Reduce_Ops.thy ===== *)
theory Reduce_Ops
  imports Float32
begin

text \<open>
  \<^verbatim>\<open>src/collectives/reduce_ops.cc\<close>: element types, reduction operators and the
  in-place element-wise reduction of one buffer into another. Both element
  types are four bytes wide, stored little-endian (x86-64). Signed overflow in
  an \<^verbatim>\<open>int32_t\<close> sum is undefined behaviour in C++ and is an error value here.
  The enums are closed, so the trailing \<^verbatim>\<open>throw\<close> statements are unreachable.
\<close>

datatype Dtype = Float32 | Int32

datatype ReduceOp = Sum_op | Min_op | Max_op

definition dtype_size :: "Dtype \<Rightarrow> nat" where
  "dtype_size dtype = (case dtype of Float32 \<Rightarrow> 4 | Int32 \<Rightarrow> 4)"

lemma dtype_size_4 [simp]: "dtype_size dt = 4"
  by (cases dt) (simp_all add: dtype_size_def)

subsection \<open>Elements in memory\<close>

definition le_word :: "byte \<Rightarrow> byte \<Rightarrow> byte \<Rightarrow> byte \<Rightarrow> u32" where
  "le_word b0 b1 b2 b3 =
     ucast b0 OR push_bit 8 (ucast b1) OR push_bit 16 (ucast b2) OR push_bit 24 (ucast b3)"

definition load32 :: "mem \<Rightarrow> nat \<Rightarrow> u32" where
  "load32 m a = le_word (m a) (m (a + 1)) (m (a + 2)) (m (a + 3))"

definition byte_at :: "u32 \<Rightarrow> nat \<Rightarrow> byte" where
  "byte_at w k = ucast (drop_bit (8 * k) w)"

definition store32 :: "mem \<Rightarrow> nat \<Rightarrow> u32 \<Rightarrow> mem" where
  "store32 m a v = mem_write m a [byte_at v 0, byte_at v 1, byte_at v 2, byte_at v 3]"

subsection \<open>Element operations\<close>

definition i32_add :: "u32 \<Rightarrow> u32 \<Rightarrow> u32 result" where
  "i32_add a b =
     (if - (2 ^ 31) \<le> sint a + sint b \<and> sint a + sint b < 2 ^ 31 then Inr (a + b)
      else Inl (Undefined ''signed integer overflow''))"

definition i32_lt :: "u32 \<Rightarrow> u32 \<Rightarrow> bool" where
  "i32_lt a b \<longleftrightarrow> sint a < sint b"

text \<open>\<^verbatim>\<open>std::min\<close> and \<^verbatim>\<open>std::max\<close>: the first argument unless the second is strictly better.\<close>

definition std_min :: "('a \<Rightarrow> 'a \<Rightarrow> bool) \<Rightarrow> 'a \<Rightarrow> 'a \<Rightarrow> 'a" where
  "std_min lt a b = (if lt b a then b else a)"

definition std_max :: "('a \<Rightarrow> 'a \<Rightarrow> bool) \<Rightarrow> 'a \<Rightarrow> 'a \<Rightarrow> 'a" where
  "std_max lt a b = (if lt a b then b else a)"

subsection \<open>The reduction\<close>

text \<open>One of the three \<^verbatim>\<open>for\<close> loops of \<^verbatim>\<open>reduce_inplace_typed\<close>; \<open>n\<close> iterations are left.\<close>

fun reduce_loop ::
    "(u32 \<Rightarrow> u32 \<Rightarrow> u32 result) \<Rightarrow> nat \<Rightarrow> nat \<Rightarrow> nat \<Rightarrow> nat \<Rightarrow> mem \<Rightarrow> mem result" where
  "reduce_loop f dst src 0 i m = Inr m"
| "reduce_loop f dst src (Suc n) i m =
     bind_res (f (load32 m (dst + 4 * i)) (load32 m (src + 4 * i)))
       (\<lambda>v. reduce_loop f dst src n (Suc i) (store32 m (dst + 4 * i) v))"

definition reduce_inplace_typed ::
    "(u32 \<Rightarrow> u32 \<Rightarrow> u32 result) \<Rightarrow> (u32 \<Rightarrow> u32 \<Rightarrow> bool) \<Rightarrow>
      nat \<Rightarrow> nat \<Rightarrow> nat \<Rightarrow> ReduceOp \<Rightarrow> mem \<Rightarrow> mem result" where
  "reduce_inplace_typed add lt dst src count op m =
     (case op of
        Sum_op \<Rightarrow> reduce_loop add dst src count 0 m
      | Min_op \<Rightarrow> reduce_loop (\<lambda>a b. Inr (std_min lt a b)) dst src count 0 m
      | Max_op \<Rightarrow> reduce_loop (\<lambda>a b. Inr (std_max lt a b)) dst src count 0 m)"

definition reduce_inplace ::
    "nat \<Rightarrow> nat \<Rightarrow> nat \<Rightarrow> Dtype \<Rightarrow> ReduceOp \<Rightarrow> mem \<Rightarrow> mem result" where
  "reduce_inplace dst src count dtype op m =
     (case dtype of
        Float32 \<Rightarrow> reduce_inplace_typed (\<lambda>a b. Inr (f32_add a b)) f32_lt dst src count op m
      | Int32 \<Rightarrow> reduce_inplace_typed i32_add i32_lt dst src count op m)"

text \<open>The operation applied to one pair of elements (specification).\<close>

definition elem_op :: "Dtype \<Rightarrow> ReduceOp \<Rightarrow> u32 \<Rightarrow> u32 \<Rightarrow> u32 result" where
  "elem_op dt op a b =
     (case (dt, op) of
        (Float32, Sum_op) \<Rightarrow> Inr (f32_add a b)
      | (Float32, Min_op) \<Rightarrow> Inr (std_min f32_lt a b)
      | (Float32, Max_op) \<Rightarrow> Inr (std_max f32_lt a b)
      | (Int32, Sum_op) \<Rightarrow> i32_add a b
      | (Int32, Min_op) \<Rightarrow> Inr (std_min i32_lt a b)
      | (Int32, Max_op) \<Rightarrow> Inr (std_max i32_lt a b))"

lemma reduce_inplace_loop:
  "reduce_inplace dst src count dt op m = reduce_loop (elem_op dt op) dst src count 0 m"
  by (cases dt; cases op) (simp_all add: reduce_inplace_def reduce_inplace_typed_def elem_op_def [abs_def])

subsection \<open>Load and store\<close>

lemma le_word_byte_at: "le_word (byte_at v 0) (byte_at v 1) (byte_at v 2) (byte_at v 3) = v"
proof (rule bit_word_eqI)
  fix n assume "n < LENGTH(32)"
  then consider "n < 8" | "8 \<le> n" "n < 16" | "16 \<le> n" "n < 24" | "24 \<le> n" "n < 32"
    by fastforce
  then show "bit (le_word (byte_at v 0) (byte_at v 1) (byte_at v 2) (byte_at v 3)) n = bit v n"
    by cases (auto simp: le_word_def byte_at_def bit_or_iff bit_push_bit_iff bit_unsigned_iff
        bit_drop_bit_eq)
qed

lemma load32_cong:
  "m a = m' b \<Longrightarrow> m (a + 1) = m' (b + 1) \<Longrightarrow> m (a + 2) = m' (b + 2) \<Longrightarrow> m (a + 3) = m' (b + 3) \<Longrightarrow>
   load32 m a = load32 m' b"
  by (simp add: load32_def)

lemma load32_store32_same [mem_simps]: "load32 (store32 m a v) a = v"
proof -
  have "load32 (store32 m a v) a = le_word (byte_at v 0) (byte_at v 1) (byte_at v 2) (byte_at v 3)"
    unfolding load32_def store32_def by (simp add: mem_write_def)
  then show ?thesis by (simp only: le_word_byte_at)
qed

lemma store32_outside: "x < a \<or> a + 4 \<le> x \<Longrightarrow> store32 m a v x = m x"
  unfolding store32_def by (rule mem_write_outside) auto

lemma load32_store32_other [mem_simps]:
  "a + 4 \<le> b \<or> b + 4 \<le> a \<Longrightarrow> load32 (store32 m a v) b = load32 m b"
  by (rule load32_cong) (auto simp: store32_outside)

text \<open>Copying whole elements copies their values; a copy elsewhere leaves them alone.\<close>

lemma load32_copy [mem_simps]:
  assumes "i < n"
  shows "load32 (mem_write m a (mem_read m' b (4 * n))) (a + 4 * i) = load32 m' (b + 4 * i)"
proof -
  have "mem_write m a (mem_read m' b (4 * n)) (a + 4 * i + j) = m' (b + 4 * i + j)" if "j < 4" for j
    using assms that by (subst mem_write_inside) (simp_all add: ac_simps)
  from this [of 0] this [of 1] this [of 2] this [of 3] show ?thesis
    by (intro load32_cong) simp_all
qed

lemma load32_write_outside [mem_simps]:
  "b + 4 \<le> a \<or> a + length bs \<le> b \<Longrightarrow> load32 (mem_write m a bs) b = load32 m b"
  by (rule load32_cong) (auto simp: mem_write_outside)

lemma load32_frame:
  "(\<And>x. a \<le> x \<Longrightarrow> x < a + 4 \<Longrightarrow> m x = m' x) \<Longrightarrow> load32 m a = load32 m' a"
  by (rule load32_cong) simp_all

subsection \<open>The loop reduces element by element\<close>

lemma reduce_loop_ok:
  assumes "disjoint_ranges dst (4 * (i + n)) src (4 * (i + n))"
    and "\<And>j. i \<le> j \<Longrightarrow> j < i + n \<Longrightarrow>
           f (load32 m (dst + 4 * j)) (load32 m (src + 4 * j)) = Inr (g j)"
  shows "\<exists>m'. reduce_loop f dst src n i m = Inr m' \<and>
     (\<forall>j. i \<le> j \<longrightarrow> j < i + n \<longrightarrow> load32 m' (dst + 4 * j) = g j) \<and>
     (\<forall>x. x < dst + 4 * i \<or> dst + 4 * (i + n) \<le> x \<longrightarrow> m' x = m x)"
  using assms
proof (induction n arbitrary: i m)
  case 0
  then show ?case by simp
next
  case (Suc n)
  let ?m = "store32 m (dst + 4 * i) (g i)"
  have dj: "disjoint_ranges dst (4 * (Suc i + n)) src (4 * (Suc i + n))"
    using Suc.prems(1) by simp
  have other: "f (load32 ?m (dst + 4 * j)) (load32 ?m (src + 4 * j)) = Inr (g j)"
    if j: "Suc i \<le> j" "j < Suc i + n" for j
  proof -
    have "load32 ?m (dst + 4 * j) = load32 m (dst + 4 * j)"
      by (rule load32_store32_other) (use j in simp)
    moreover have "load32 ?m (src + 4 * j) = load32 m (src + 4 * j)"
      by (rule load32_store32_other) (use dj j in \<open>auto simp: disjoint_ranges_def\<close>)
    ultimately show ?thesis using Suc.prems(2) [of j] j by simp
  qed
  obtain m' where m': "reduce_loop f dst src n (Suc i) ?m = Inr m'"
      "\<forall>j. Suc i \<le> j \<longrightarrow> j < Suc i + n \<longrightarrow> load32 m' (dst + 4 * j) = g j"
      "\<forall>x. x < dst + 4 * Suc i \<or> dst + 4 * (Suc i + n) \<le> x \<longrightarrow> m' x = ?m x"
    using Suc.IH [OF dj other] by blast
  have "reduce_loop f dst src (Suc n) i m = Inr m'"
    using m'(1) Suc.prems(2) [of i] by simp
  moreover have "load32 m' (dst + 4 * j) = g j" if "i \<le> j" "j < i + Suc n" for j
  proof (cases "j = i")
    case True
    have "load32 m' (dst + 4 * i) = load32 ?m (dst + 4 * i)"
      by (rule load32_frame) (use m'(3) in simp)
    with True show ?thesis by (simp add: load32_store32_same)
  next
    case False
    with that m'(2) show ?thesis by simp
  qed
  moreover have "m' x = m x" if "x < dst + 4 * i \<or> dst + 4 * (i + Suc n) \<le> x" for x
    using that m'(3) by (auto simp: store32_outside)
  ultimately show ?case by blast
qed

text \<open>What one call of \<^verbatim>\<open>reduce_inplace\<close> does to memory when the operation is defined.\<close>

lemma reduce_inplace_ok:
  assumes "disjoint_ranges dst (4 * n) src (4 * n)"
    and "\<And>j. j < n \<Longrightarrow> elem_op dt op (load32 m (dst + 4 * j)) (load32 m (src + 4 * j)) = Inr (g j)"
  obtains m' where "reduce_inplace dst src n dt op m = Inr m'"
    "\<And>j. j < n \<Longrightarrow> load32 m' (dst + 4 * j) = g j"
    "\<And>x. x < dst \<or> dst + 4 * n \<le> x \<Longrightarrow> m' x = m x"
  using reduce_loop_ok [of dst 0 n src "elem_op dt op" m g] assms
  by (auto simp: reduce_inplace_loop)

subsection \<open>The mathematical reduction of integers\<close>

text \<open>
  What a reduction of \<^verbatim>\<open>int32_t\<close> values over a set of ranks means, and when it is defined:
  a sum must not leave the range of the type however it is bracketed.
\<close>

definition int_reduce :: "ReduceOp \<Rightarrow> nat set \<Rightarrow> (nat \<Rightarrow> int) \<Rightarrow> int" where
  "int_reduce op S x =
     (case op of Sum_op \<Rightarrow> sum x S | Min_op \<Rightarrow> Min (x ` S) | Max_op \<Rightarrow> Max (x ` S))"

definition int_defined :: "ReduceOp \<Rightarrow> nat set \<Rightarrow> (nat \<Rightarrow> int) \<Rightarrow> bool" where
  "int_defined op S x \<longleftrightarrow> (op = Sum_op \<longrightarrow> (\<Sum>q\<in>S. \<bar>x q\<bar>) < 2 ^ 31)"

lemma int_reduce_single [simp]: "int_reduce op {q} x = x q"
  by (cases op) (simp_all add: int_reduce_def)

lemma int_defined_subset:
  "int_defined op S x \<Longrightarrow> T \<subseteq> S \<Longrightarrow> finite S \<Longrightarrow> int_defined op T x"
  unfolding int_defined_def using sum_mono2 [of S T "\<lambda>q. \<bar>x q\<bar>"] by fastforce

lemma sint_add_exact:
  fixes a b :: u32
  assumes "- (2 ^ 31) \<le> sint a + sint b" "sint a + sint b < 2 ^ 31"
  shows "sint (a + b) = sint a + sint b"
  using assms by (simp add: sint_word_ariths signed_take_bit_int_eq_self)

text \<open>Two disjoint groups of ranks combine into their union.\<close>

lemma elem_op_int_union:
  assumes fin: "finite S" "finite T" and ne: "S \<noteq> {}" "T \<noteq> {}" and dj: "S \<inter> T = {}"
    and a: "sint a = int_reduce op S x" and b: "sint b = int_reduce op T x"
    and def: "int_defined op (S \<union> T) x"
  obtains c where "elem_op Int32 op a b = Inr c" "sint c = int_reduce op (S \<union> T) x"
proof (cases op)
  case Sum_op
  have un: "int_reduce op (S \<union> T) x = sint a + sint b"
    using a b fin dj by (simp add: Sum_op int_reduce_def sum.union_disjoint)
  have "\<bar>sint a + sint b\<bar> \<le> (\<Sum>q\<in>S \<union> T. \<bar>x q\<bar>)"
    unfolding un [symmetric] by (simp add: Sum_op int_reduce_def sum_abs)
  with def have "\<bar>sint a + sint b\<bar> < 2 ^ 31" by (simp add: Sum_op int_defined_def)
  then have r: "- (2 ^ 31) \<le> sint a + sint b" "sint a + sint b < 2 ^ 31" by simp_all
  show thesis
    by (rule that [of "a + b"]) (use r un sint_add_exact [OF r] in \<open>simp_all add: Sum_op elem_op_def i32_add_def\<close>)
next
  case Min_op
  have "int_reduce op (S \<union> T) x = min (sint a) (sint b)"
    using a b fin ne by (simp add: Min_op int_reduce_def image_Un Min_Un)
  then show thesis
    by (intro that [of "std_min i32_lt a b"])
       (simp_all add: Min_op elem_op_def std_min_def i32_lt_def min_def)
next
  case Max_op
  have "int_reduce op (S \<union> T) x = max (sint a) (sint b)"
    using a b fin ne by (simp add: Max_op int_reduce_def image_Un Max_Un)
  then show thesis
    by (intro that [of "std_max i32_lt a b"])
       (simp_all add: Max_op elem_op_def std_max_def i32_lt_def max_def)
qed

subsection \<open>Properties\<close>

text \<open>
  Buffers as arrays of elements, and the reduction of one array into another; it stops at
  the first pair whose reduction is undefined.
\<close>

definition array :: "mem \<Rightarrow> nat \<Rightarrow> nat \<Rightarrow> u32 list" where
  "array m a n = map (\<lambda>i. load32 m (a + 4 * i)) [0..<n]"

fun reduce_arrays :: "(u32 \<Rightarrow> u32 \<Rightarrow> u32 result) \<Rightarrow> u32 list \<Rightarrow> u32 list \<Rightarrow> u32 list result" where
  "reduce_arrays f (x # xs) (y # ys) =
     bind_res (f x y) (\<lambda>v. bind_res (reduce_arrays f xs ys) (\<lambda>vs. Inr (v # vs)))"
| "reduce_arrays f _ _ = Inr []"

lemma array_Suc: "array m a (Suc n) = load32 m a # array m (a + 4) n"
proof (rule nth_equalityI)
  fix i assume "i < length (array m a (Suc n))"
  then show "array m a (Suc n) ! i = (load32 m a # array m (a + 4) n) ! i"
    by (cases i) (simp_all add: array_def add.assoc del: upt_Suc)
qed (simp add: array_def)

lemma array_cong: "(\<And>x. a \<le> x \<Longrightarrow> x < a + 4 * n \<Longrightarrow> m x = m' x) \<Longrightarrow> array m a n = array m' a n"
  by (auto simp: array_def intro!: load32_frame)

text \<open>Starting at element \<open>i\<close> is starting at element 0 of the rest.\<close>

lemma reduce_loop_shift: "reduce_loop f dst src n (i + k) m = reduce_loop f (dst + 4 * k) (src + 4 * k) n i m"
proof (induction n arbitrary: i m)
  case (Suc n)
  have "dst + 4 * (i + k) = dst + 4 * k + 4 * i" "src + 4 * (i + k) = src + 4 * k + 4 * i" by simp_all
  then show ?case using Suc.IH [of "Suc i"] by (simp add: add.assoc add.commute add.left_commute)
qed simp

lemma reduce_loop_frame:
  "reduce_loop f dst src n 0 m = Inr m' \<Longrightarrow> x < dst \<or> dst + 4 * n \<le> x \<Longrightarrow> m' x = m x"
proof (induction n arbitrary: dst src m)
  case (Suc n)
  then obtain v where "reduce_loop f (dst + 4) (src + 4) n 0 (store32 m dst v) = Inr m'"
    using reduce_loop_shift [of f dst src n 0 1] by (auto simp: bind_res_eq_Inr)
  from Suc.IH [OF this] Suc.prems(2) show ?case by (auto simp: store32_outside)
qed simp

lemma reduce_loop_arrays:
  "disjoint_ranges dst (4 * n) src (4 * n) \<Longrightarrow>
   bind_res (reduce_loop f dst src n 0 m) (\<lambda>m'. Inr (array m' dst n)) =
   reduce_arrays f (array m dst n) (array m src n)"
proof (induction n arbitrary: dst src m)
  case 0
  then show ?case by (simp add: array_def)
next
  case (Suc n)
  have rest: "reduce_loop f dst src n (Suc 0) m' = reduce_loop f (dst + 4) (src + 4) n 0 m'" for m'
    using reduce_loop_shift [of f dst src n 0 1] by simp
  show ?case
  proof (cases "f (load32 m dst) (load32 m src)")
    case (Inr v)
    let ?m = "store32 m dst v"
    have same: "array ?m (dst + 4) n = array m (dst + 4) n" "array ?m (src + 4) n = array m (src + 4) n"
      using Suc.prems by (auto intro!: array_cong store32_outside simp: disjoint_ranges_def)
    have "disjoint_ranges (dst + 4) (4 * n) (src + 4) (4 * n)"
      using Suc.prems by (auto simp: disjoint_ranges_def)
    from Suc.IH [OF this, of ?m] have IH: "bind_res (reduce_loop f (dst + 4) (src + 4) n 0 ?m) (\<lambda>m'. Inr (array m' (dst + 4) n)) =
        reduce_arrays f (array m (dst + 4) n) (array m (src + 4) n)" unfolding same .
    show ?thesis
    proof (cases "reduce_loop f (dst + 4) (src + 4) n 0 ?m")
      case ok: (Inr m')
      have "load32 m' dst = load32 ?m dst"
        by (rule load32_frame) (use reduce_loop_frame [OF ok] in simp)
      with Inr ok IH show ?thesis by (simp add: array_Suc rest load32_store32_same flip: IH)
    qed (use Inr IH in \<open>simp add: array_Suc rest flip: IH\<close>)
  qed (simp add: array_Suc)
qed

text \<open>
  C21: \<^verbatim>\<open>reduce_inplace\<close> implements the element-by-element reduction of arrays: on buffers that do not
  overlap the destination ends up holding the reduced array, or the call fails with the
  error of the first undefined element, and no byte outside the destination changes.
\<close>

theorem reduce_inplace_refines:
  assumes "disjoint_ranges dst (4 * count) src (4 * count)"
  shows "bind_res (reduce_inplace dst src count dtype op m) (\<lambda>m'. Inr (array m' dst count)) =
      reduce_arrays (elem_op dtype op) (array m dst count) (array m src count) \<and>
    (\<forall>m' x. reduce_inplace dst src count dtype op m = Inr m' \<longrightarrow> x < dst \<or> dst + 4 * count \<le> x \<longrightarrow> m' x = m x)"
  unfolding reduce_inplace_loop
  using reduce_loop_arrays [OF assms] reduce_loop_frame by blast

theorem reduce_inplace_refines_witness:
  "bind_res (reduce_inplace 0 8 2 Int32 Max_op (\<lambda>x. of_nat x)) (\<lambda>m'. Inr (array m' 0 2)) =
     Inr [0x0B0A0908, 0x0F0E0D0C]"
proof -
  have "disjoint_ranges 0 (4 * 2) 8 (4 * 2)" by (simp add: disjoint_ranges_def)
  from reduce_inplace_refines [OF this] have
    "bind_res (reduce_inplace 0 8 2 Int32 Max_op (\<lambda>x. of_nat x)) (\<lambda>m'. Inr (array m' 0 2)) =
       reduce_arrays (elem_op Int32 Max_op) (array (\<lambda>x. of_nat x) 0 2) (array (\<lambda>x. of_nat x) 8 2)"
    by blast
  also have "\<dots> = Inr [0x0B0A0908, 0x0F0E0D0C]" by code_simp
  finally show ?thesis .
qed

end
