(* ===== verification/Chunking.thy ===== *)
theory Chunking
  imports Prelude
begin

text \<open>
  \<^verbatim>\<open>src/collectives/chunking.cc\<close>: splitting a buffer of \<open>total_count\<close> elements
  into \<open>num_chunks\<close> contiguous ranges.
\<close>

record ChunkRange =
  cr_offset :: nat
  cr_count :: nat

text \<open>The loop of \<^verbatim>\<open>compute_chunks\<close>: \<open>n\<close> iterations are left, \<open>i\<close> is the loop counter.\<close>

fun chunk_loop :: "nat \<Rightarrow> nat \<Rightarrow> nat \<Rightarrow> nat \<Rightarrow> nat \<Rightarrow> ChunkRange list" where
  "chunk_loop base remainder 0 i off = []"
| "chunk_loop base remainder (Suc n) i off =
     (let cnt = sz_add base (if i < remainder then 1 else 0)
      in \<lparr>cr_offset = off, cr_count = cnt\<rparr> # chunk_loop base remainder n (Suc i) (sz_add off cnt))"

definition compute_chunks :: "nat \<Rightarrow> nat \<Rightarrow> ChunkRange list result" where
  "compute_chunks total_count num_chunks =
     (if num_chunks = 0 then Inl (InvalidArgument ''compute_chunks: num_chunks must be > 0'')
      else Inr (chunk_loop (total_count div num_chunks) (total_count mod num_chunks)
                  num_chunks 0 0))"

text \<open>The closed form of the split: where chunk \<open>i\<close> starts and how long it is.\<close>

definition chunk_len :: "nat \<Rightarrow> nat \<Rightarrow> nat \<Rightarrow> nat" where
  "chunk_len tot n i = tot div n + (if i < tot mod n then 1 else 0)"

definition chunk_off :: "nat \<Rightarrow> nat \<Rightarrow> nat \<Rightarrow> nat" where
  "chunk_off tot n i = i * (tot div n) + min i (tot mod n)"

subsection \<open>The closed form\<close>

lemma chunk_off_0 [simp]: "chunk_off tot n 0 = 0"
  by (simp add: chunk_off_def)

lemma chunk_off_Suc: "chunk_off tot n (Suc i) = chunk_off tot n i + chunk_len tot n i"
  by (simp add: chunk_off_def chunk_len_def)

lemma chunk_off_all: "0 < n \<Longrightarrow> chunk_off tot n n = tot"
  by (simp add: chunk_off_def min_absorb2 less_imp_le)

lemma chunk_off_mono: "i \<le> j \<Longrightarrow> chunk_off tot n i \<le> chunk_off tot n j"
  by (rule lift_Suc_mono_le [of "chunk_off tot n"]) (auto simp: chunk_off_Suc)

lemma chunk_off_le: "0 < n \<Longrightarrow> i \<le> n \<Longrightarrow> chunk_off tot n i \<le> tot"
  using chunk_off_mono [of i n tot n] by (simp add: chunk_off_all)

lemma chunk_end_le: "i < n \<Longrightarrow> chunk_off tot n i + chunk_len tot n i \<le> tot"
  using chunk_off_le [of n "Suc i" tot] by (simp add: chunk_off_Suc)

lemma chunk_len_le: "i < n \<Longrightarrow> chunk_len tot n i \<le> tot"
  using chunk_end_le [of i n tot] by simp

text \<open>Distinct chunks share no element.\<close>

lemma chunks_disjoint:
  assumes "i \<noteq> j"
  shows "chunk_off tot n i + chunk_len tot n i \<le> chunk_off tot n j \<or>
         chunk_off tot n j + chunk_len tot n j \<le> chunk_off tot n i"
proof (cases "i < j")
  case True
  then show ?thesis
    using chunk_off_mono [of "Suc i" j tot n] by (simp add: chunk_off_Suc)
next
  case False
  with assms show ?thesis
    using chunk_off_mono [of "Suc j" i tot n] by (simp add: chunk_off_Suc)
qed

text \<open>Every element lies in some chunk.\<close>

lemma chunk_exists:
  assumes "k < chunk_off tot n j"
  shows "\<exists>i<j. chunk_off tot n i \<le> k \<and> k < chunk_off tot n i + chunk_len tot n i"
  using assms
proof (induction j)
  case 0
  then show ?case by simp
next
  case (Suc j)
  show ?case
  proof (cases "k < chunk_off tot n j")
    case True
    with Suc.IH show ?thesis by (auto intro: less_SucI)
  next
    case False
    with Suc.prems show ?thesis by (auto simp: chunk_off_Suc intro!: exI [of _ j])
  qed
qed

lemma chunk_cover:
  assumes "k < tot" and "0 < n"
  obtains c where "c < n" "chunk_off tot n c \<le> k" "k < chunk_off tot n c + chunk_len tot n c"
  using chunk_exists [of k tot n n] assms by (auto simp: chunk_off_all)

lemma chunk_unique:
  assumes "chunk_off tot n c \<le> k" "k < chunk_off tot n c + chunk_len tot n c"
    and "chunk_off tot n d \<le> k" "k < chunk_off tot n d + chunk_len tot n d"
  shows "c = d"
  using chunks_disjoint [of c d tot n] assms by linarith

subsection \<open>The loop computes the closed form\<close>

abbreviation chunk_range :: "nat \<Rightarrow> nat \<Rightarrow> nat \<Rightarrow> ChunkRange" where
  "chunk_range tot n i \<equiv> \<lparr>cr_offset = chunk_off tot n i, cr_count = chunk_len tot n i\<rparr>"

lemma chunk_loop_closed:
  assumes "tot < 2 ^ 64" and "i + k \<le> n" and "0 < n"
  shows "chunk_loop (tot div n) (tot mod n) k i (chunk_off tot n i) =
         map (chunk_range tot n) [i..<i + k]"
  using assms(2)
proof (induction k arbitrary: i)
  case 0
  then show ?case by simp
next
  case (Suc k)
  then have "i < n" by simp
  then have fits: "chunk_off tot n i + chunk_len tot n i < 2 ^ 64"
    using chunk_end_le [of i n tot] assms(1) by linarith
  then have "sz_add (tot div n) (if i < tot mod n then 1 else 0) = chunk_len tot n i"
    unfolding chunk_len_def by (intro sz_add_exact) simp
  moreover from fits have "sz_add (chunk_off tot n i) (chunk_len tot n i) = chunk_off tot n (Suc i)"
    by (simp add: sz_add_exact chunk_off_Suc)
  ultimately show ?case
    using Suc.IH [of "Suc i"] Suc.prems by (simp add: Let_def upt_conv_Cons del: upt_Suc)
qed

lemma compute_chunks_closed:
  assumes "0 < n" and "tot < 2 ^ 64"
  shows "compute_chunks tot n = Inr (map (chunk_range tot n) [0..<n])"
  using chunk_loop_closed [OF assms(2), of 0 n n] assms(1)
  by (simp add: compute_chunks_def)

lemma sum_list_chunk_len: "(\<Sum>i\<leftarrow>[0..<j]. chunk_len tot n i) = chunk_off tot n j"
  by (induction j) (simp_all add: chunk_off_Suc)

lemma chunk_len_antimono: "i \<le> j \<Longrightarrow> chunk_len tot n j \<le> chunk_len tot n i"
  by (auto simp: chunk_len_def)

text \<open>The largest chunk, computed as \<^verbatim>\<open>allreduce_ring\<close> does, is the first one.\<close>

lemma chunk_len_0: "0 < n \<Longrightarrow> chunk_len tot n 0 = (tot + n - 1) div n"
proof -
  assume n: "0 < n"
  have "tot + n - 1 = (tot mod n + n - 1) + n * (tot div n)"
    using n by (metis Nat.add_diff_assoc2 add.commute add.left_commute div_mult_mod_eq
        mult.commute One_nat_def Suc_leI trans_le_add2)
  then have "(tot + n - 1) div n = tot div n + (tot mod n + n - 1) div n"
    using n by (metis add.commute div_mult_self1 div_mult_self2 less_not_refl mult.commute)
  moreover have "(tot mod n + n - 1) div n = (if 0 < tot mod n then 1 else 0)"
  proof (cases "tot mod n = 0")
    case True
    with n show ?thesis by simp
  next
    case False
    then have "tot mod n + n - 1 = (tot mod n - 1) + n" by simp
    moreover have "tot mod n - 1 < n"
      using n by (metis less_imp_diff_less mod_less_divisor)
    ultimately show ?thesis using False n by (simp only: div_add_self2) simp
  qed
  ultimately show ?thesis by (simp add: chunk_len_def)
qed

text \<open>The loop \<^verbatim>\<open>allreduce_ring.cc\<close> computes \<^verbatim>\<open>max_chunk_elems\<close> with finds the first chunk.\<close>

lemma chunk_len_max: "0 < P \<Longrightarrow> foldl max 0 (map (chunk_len n P) [0..<P]) = chunk_len n P 0"
proof -
  have "foldl max 0 (map (chunk_len n P) [0..<j]) = (if j = 0 then 0 else chunk_len n P 0)" for j
    by (induction j) (auto simp: max_absorb1 chunk_len_antimono)
  then show "0 < P \<Longrightarrow> ?thesis" by simp
qed

subsection \<open>Properties\<close>

text \<open>
  C35: for every non-zero number of chunks the split is a partition: exactly
  \<open>num_chunks\<close> ranges, each starting where the previous one ends, whose lengths sum to
  \<open>total_count\<close>, and every element index below \<open>total_count\<close> lies in exactly one of
  them. The \<^verbatim>\<open>size_t\<close> arithmetic never wraps.
\<close>

theorem compute_chunks_partition:
  assumes "0 < num_chunks" and "total_count < 2 ^ 64"
  shows "\<exists>cs. compute_chunks total_count num_chunks = Inr cs \<and> length cs = num_chunks \<and>
     sum_list (map cr_count cs) = total_count \<and> cr_offset (cs ! 0) = 0 \<and>
     (\<forall>i. Suc i < num_chunks \<longrightarrow>
        cr_offset (cs ! Suc i) = cr_offset (cs ! i) + cr_count (cs ! i)) \<and>
     (\<forall>k<total_count. \<exists>!i. i < num_chunks \<and> cr_offset (cs ! i) \<le> k \<and>
        k < cr_offset (cs ! i) + cr_count (cs ! i))"
proof -
  let ?cs = "map (chunk_range total_count num_chunks) [0..<num_chunks]"
  have part: "\<exists>!i. i < num_chunks \<and> cr_offset (?cs ! i) \<le> k \<and>
      k < cr_offset (?cs ! i) + cr_count (?cs ! i)" if k: "k < total_count" for k
  proof -
    obtain c where c: "c < num_chunks" "chunk_off total_count num_chunks c \<le> k"
        "k < chunk_off total_count num_chunks c + chunk_len total_count num_chunks c"
      using chunk_cover [OF k assms(1)] .
    show ?thesis
      by (rule ex1I [of _ c]) (use c in \<open>auto intro: chunk_unique\<close>)
  qed
  have "sum_list (map cr_count ?cs) = total_count"
    using assms(1) by (simp add: o_def sum_list_chunk_len chunk_off_all)
  with part show ?thesis
    using assms by (simp add: compute_chunks_closed chunk_off_Suc)
qed

theorem compute_chunks_partition_witness:
  "\<exists>cs. compute_chunks 10 3 = Inr cs \<and> length cs = 3 \<and> sum_list (map cr_count cs) = 10"
  using compute_chunks_partition [of 3 10] by auto

text \<open>
  C36: the split is balanced: the first \<open>total_count mod num_chunks\<close> chunks have one
  element more than the others, so lengths differ by at most one, and the longest chunk,
  the one \<^verbatim>\<open>allreduce_ring\<close> sizes its scratch buffer by, has
  \<open>\<lceil>total_count / num_chunks\<rceil>\<close> elements.
\<close>

theorem compute_chunks_balanced:
  assumes "0 < num_chunks" and "total_count < 2 ^ 64"
  shows "\<exists>cs. compute_chunks total_count num_chunks = Inr cs \<and>
     (\<forall>i<num_chunks. cr_count (cs ! i) =
        total_count div num_chunks + (if i < total_count mod num_chunks then 1 else 0)) \<and>
     foldl max 0 (map cr_count cs) = (total_count + num_chunks - 1) div num_chunks"
proof -
  have "foldl max 0 (map (chunk_len total_count num_chunks) [0..<num_chunks]) =
      (total_count + num_chunks - 1) div num_chunks"
    using assms(1) by (simp add: chunk_len_max chunk_len_0)
  then have "foldl max 0 (map cr_count (map (chunk_range total_count num_chunks) [0..<num_chunks])) =
      (total_count + num_chunks - 1) div num_chunks"
    by (simp add: o_def)
  with assms show ?thesis
    by (auto simp: compute_chunks_closed chunk_len_def [of total_count num_chunks i for i])
qed

theorem compute_chunks_balanced_witness:
  "\<exists>cs. compute_chunks 97 8 = Inr cs \<and> foldl max 0 (map cr_count cs) = 13"
  using compute_chunks_balanced [of 8 97] by auto

end
