(* ===== verification/Mesh.thy ===== *)
theory Mesh
  imports Exchange Reduce_Ops Chunking
begin

text \<open>
  What the collectives share: a rank's view of the mesh, the requests the
  transport calls produce, the local steps that post and reap them, registered
  buffers, and the arithmetic of ring positions.
\<close>

subsection \<open>Connected ranks and registered buffers\<close>

text \<open>The communicator of rank \<open>r\<close> in a job of \<open>P\<close> ranks, connected to every other rank.\<close>

definition connected :: "nat \<Rightarrow> nat \<Rightarrow> communicator \<Rightarrow> bool" where
  "connected P r comm \<longleftrightarrow> comm_rank comm = int r \<and> comm_size comm = int P \<and>
     (\<forall>p<P. p \<noteq> r \<longrightarrow> comm_qps comm (int p) = Some p)"

lemma connectedD:
  assumes "connected P r comm"
  shows "comm_rank comm = int r" "comm_size comm = int P"
    "p < P \<Longrightarrow> p \<noteq> r \<Longrightarrow> with_qp comm (int p) k = k p"
  using assms by (simp_all add: connected_def with_qp_def comm_qp_def)

definition registered :: "endpoint \<Rightarrow> MemoryRegion \<Rightarrow> bool" where
  "registered e mr \<longleftrightarrow> regs e (mr_lkey mr) = Some (mr_addr mr, mr_length mr)"

definition wr_sge :: "MemoryRegion \<Rightarrow> nat \<Rightarrow> nat \<Rightarrow> ibv_sge" where
  "wr_sge mr a len = \<lparr>sge_addr = a, sge_length = to_u32 len, sge_lkey = mr_lkey mr\<rparr>"

definition send_req :: "MemoryRegion \<Rightarrow> nat \<Rightarrow> nat \<Rightarrow> ibv_send_wr" where
  "send_req mr a len = \<lparr>swr_id = 0, swr_sge = wr_sge mr a len, swr_signaled = True\<rparr>"

definition recv_req :: "MemoryRegion \<Rightarrow> nat \<Rightarrow> nat \<Rightarrow> ibv_recv_wr" where
  "recv_req mr a len = \<lparr>rwr_id = 0, rwr_sge = wr_sge mr a len\<rparr>"

lemma req_sel [simp]:
  "swr_sge (send_req mr a len) = wr_sge mr a len"
  "swr_signaled (send_req mr a len)"
  "rwr_sge (recv_req mr a len) = wr_sge mr a len"
  "sge_addr (wr_sge mr a len) = a"
  "sge_length (wr_sge mr a len) = to_u32 len"
  by (simp_all add: send_req_def recv_req_def wr_sge_def)

lemma registered_sge_ok:
  "registered e mr \<Longrightarrow> mr_addr mr \<le> a \<Longrightarrow> a + len \<le> mr_addr mr + mr_length mr \<Longrightarrow>
   sge_ok e (wr_sge mr a len)"
  using to_u32_le [of len] by (simp add: registered_def sge_ok_def wr_sge_def)

lemma post_send_req:
  "post_send qp mr a len 0 True k =
   IbvPostSend qp (send_req mr a len) (\<lambda>rc. or_throw (check_rc rc ''ibv_post_send'') (\<lambda>_. k))"
  by (simp add: post_send_def send_req_def wr_sge_def)

lemma post_recv_req:
  "post_recv qp mr a len 0 k =
   IbvPostRecv qp (recv_req mr a len) (\<lambda>rc. or_throw (check_rc rc ''ibv_post_recv'') (\<lambda>_. k))"
  by (simp add: post_recv_def recv_req_def wr_sge_def)

subsection \<open>Discipline of the transport calls\<close>

lemma disc_post_send [simp]:
  "disc (post_send qp mr a len 0 True k) s v \<longleftrightarrow>
     s = None \<and> (\<forall>rw. v = Some rw \<longrightarrow> sge_disjoint (wr_sge mr a len) (rwr_sge rw)) \<and>
     disc k (Some (send_req mr a len)) v"
  by (auto simp: post_send_req or_throw_def check_rc_def dest: spec [of _ 0])

lemma disc_post_recv [simp]:
  "disc (post_recv qp mr a len 0 k) s v \<longleftrightarrow>
     v = None \<and> (\<forall>sw. s = Some sw \<longrightarrow> sge_disjoint (swr_sge sw) (wr_sge mr a len)) \<and>
     disc k s (Some (recv_req mr a len))"
  by (auto simp: post_recv_req or_throw_def check_rc_def dest: spec [of _ 0])

lemma disc_wait_send:
  "s \<noteq> None \<Longrightarrow> (\<And>wc. disc (k wc) None v) \<Longrightarrow> disc (wait_completion SendCq k) s v"
  by (simp add: wait_completion_def)

lemma disc_wait_recv:
  "v \<noteq> None \<Longrightarrow> (\<And>wc. disc (k wc) s None) \<Longrightarrow> disc (wait_completion RecvCq k) s v"
  by (simp add: wait_completion_def)

lemma disc_with_qp:
  "(\<And>q. disc (k q) s v) \<Longrightarrow> disc (with_qp comm peer k) s v"
  by (simp add: with_qp_def comm_qp_def or_throw_def split: option.splits sum.splits)

lemma disc_when_do:
  "(b \<Longrightarrow> disc (stmt k) s v) \<Longrightarrow> (\<not> b \<Longrightarrow> disc k s v) \<Longrightarrow> disc (when_do b stmt k) s v"
  by (simp add: when_do_def)

subsection \<open>Posting and reaping in a round\<close>

lemma lstep_post_recv:
  assumes "rq e q = []"
  shows "lstep (post_recv q mr a len 0 k, m, e) =
    Some (k, m, e\<lparr>rq := (rq e)(q := [recv_req mr a len])\<rparr>)"
  using assms by (simp add: post_recv_req ep_post_recv_def max_wr_def)

lemma lstep_post_send:
  assumes "sq e q = []"
  shows "lstep (post_send q mr a len 0 True k, m, e) =
    Some (k, m, e\<lparr>sq := (sq e)(q := [send_req mr a len])\<rparr>)"
  using assms by (simp add: post_send_req ep_post_send_def max_wr_def)

lemma lsteps_post:
  assumes "idle e"
  shows "lsteps
     (when_do rb (post_recv qr rmr ra rl 0) (when_do sb (post_send qs smr sa sl 0 True) k), m, e)
     (k, m, posted e (if sb then Some (qs, send_req smr sa sl) else None)
                     (if rb then Some (qr, recv_req rmr ra rl) else None))"
proof -
  let ?e1 = "if rb then e\<lparr>rq := (rq e)(qr := [recv_req rmr ra rl])\<rparr> else e"
  let ?e2 = "if sb then ?e1\<lparr>sq := (sq ?e1)(qs := [send_req smr sa sl])\<rparr> else ?e1"
  have i: "sq e = (\<lambda>_. [])" "rq e = (\<lambda>_. [])" "scq e = []" "rcq e = []"
    using assms by (simp_all add: idle_def)
  have s1: "lsteps (when_do rb (post_recv qr rmr ra rl 0) k', m, e) (k', m, ?e1)" for k'
    by (cases rb) (auto simp: lstep_post_recv i intro: r_into_rtranclp)
  have s2: "lsteps (when_do sb (post_send qs smr sa sl 0 True) k, m, ?e1) (k, m, ?e2)"
    by (cases sb) (auto simp: lstep_post_send i intro: r_into_rtranclp)
  have e2: "?e2 = posted e (if sb then Some (qs, send_req smr sa sl) else None)
                     (if rb then Some (qr, recv_req rmr ra rl) else None)"
    using i by (cases e) (simp add: posted_def round_ep_def fun_eq_iff)
  show ?thesis unfolding e2 [symmetric] by (rule rtranclp_trans [OF s1 s2])
qed

definition good_wc :: "nat \<Rightarrow> nat \<Rightarrow> ibv_wc" where
  "good_wc p len = \<lparr>wc_wr_id = 0, wc_status = IBV_WC_SUCCESS, wc_byte_len = len, wc_qp = p\<rparr>"

lemma good_wc_sel [simp]:
  "wc_status (good_wc p len) = IBV_WC_SUCCESS" "wc_byte_len (good_wc p len) = len"
  by (simp_all add: good_wc_def)

lemma lstep_wait:
  "scq e = wc # cs \<Longrightarrow> wc_status wc = IBV_WC_SUCCESS \<Longrightarrow>
     lstep (wait_completion SendCq k, m, e) = Some (k wc, m, e\<lparr>scq := cs\<rparr>)"
  "rcq e = wc # cs \<Longrightarrow> wc_status wc = IBV_WC_SUCCESS \<Longrightarrow>
     lstep (wait_completion RecvCq k, m, e) = Some (k wc, m, e\<lparr>rcq := cs\<rparr>)"
  by (simp_all add: wait_completion_def ep_poll_def)

lemma cq_update_same: "scq e = cs \<Longrightarrow> e\<lparr>scq := cs\<rparr> = e" "rcq e = cs \<Longrightarrow> e\<lparr>rcq := cs\<rparr> = e"
  by (cases e; simp)+

lemma lsteps_reap:
  assumes "idle e"
  shows "lsteps
     (when_do sb (\<lambda>k. wait_completion SendCq (\<lambda>_. k))
       (when_do rb (\<lambda>k. wait_completion RecvCq (\<lambda>wc. C wc k)) k), m,
      completed e (if sb then Some (qs, send_req smr sa sl) else None)
                  (if rb then Some (qr, recv_req rmr ra rl) else None))
     (if rb then C (good_wc qr (to_u32 rl)) k else k, m, e)"
proof -
  let ?so = "if sb then Some (qs, send_req smr sa sl) else None"
  let ?ro = "if rb then Some (qr, recv_req rmr ra rl) else None"
  let ?e0 = "completed e ?so ?ro"
  let ?e1 = "?e0\<lparr>scq := []\<rparr>"
  have i: "sq e = (\<lambda>_. [])" "rq e = (\<lambda>_. [])" "scq e = []" "rcq e = []"
    using assms by (simp_all add: idle_def)
  have s0: "scq ?e0 = (if sb then [good_wc qs 0] else [])"
    "rcq ?e0 = (if rb then [good_wc qr (to_u32 rl)] else [])"
    by (simp_all add: completed_def round_ep_def send_wc_def good_wc_def send_req_def recv_req_def
        wr_sge_def)
  have e2: "?e1\<lparr>rcq := []\<rparr> = e"
    using i by (cases e) (simp add: completed_def round_ep_def fun_eq_iff)
  have "lsteps (when_do sb (\<lambda>k. wait_completion SendCq (\<lambda>_. k)) k', m, ?e0) (k', m, ?e1)" for k'
    using s0 by (cases sb) (auto simp: lstep_wait cq_update_same intro: r_into_rtranclp)
  moreover have "lsteps (when_do rb (\<lambda>k. wait_completion RecvCq (\<lambda>wc. C wc k)) k, m, ?e1)
      (if rb then C (good_wc qr (to_u32 rl)) k else k, m, ?e1\<lparr>rcq := []\<rparr>)"
    using s0 by (cases rb) (auto simp: lstep_wait cq_update_same intro: r_into_rtranclp)
  ultimately show ?thesis unfolding e2 by (rule rtranclp_trans)
qed

subsection \<open>Ring positions\<close>

text \<open>\<open>behind P r d\<close> is the rank \<open>d\<close> places behind \<open>r\<close>; \<open>dist P r c\<close> how far \<open>r\<close> is ahead of \<open>c\<close>.\<close>

definition behind :: "nat \<Rightarrow> nat \<Rightarrow> nat \<Rightarrow> nat" where
  "behind P r d = (r + P - d) mod P"

definition dist :: "nat \<Rightarrow> nat \<Rightarrow> nat \<Rightarrow> nat" where
  "dist P r c = (r + P - c) mod P"

lemma behind_less [simp]: "0 < P \<Longrightarrow> behind P r d < P"
  by (simp add: behind_def)

lemma dist_less [simp]: "0 < P \<Longrightarrow> dist P r c < P"
  by (simp add: dist_def)

lemma dist_le: "0 < P \<Longrightarrow> dist P r c \<le> P - 1"
  using dist_less [of P r c] by linarith

lemma behind_ahead: "r < P \<Longrightarrow> d \<le> P \<Longrightarrow> (behind P r d + d) mod P = r"
proof -
  assume "r < P" "d \<le> P"
  then have "(behind P r d + d) mod P = (r + P - d + d) mod P"
    unfolding behind_def by (rule_tac mod_add_left_eq)
  with \<open>r < P\<close> \<open>d \<le> P\<close> show ?thesis by simp
qed

lemma dist_iff: "r < P \<Longrightarrow> c < P \<Longrightarrow> d < P \<Longrightarrow> dist P r c = d \<longleftrightarrow> r = (c + d) mod P"
proof -
  assume b: "r < P" "c < P" "d < P"
  have e: "(c + dist P r c) mod P = r"
  proof -
    have "(c + dist P r c) mod P = (c + (r + P - c)) mod P"
      unfolding dist_def by (rule mod_add_right_eq)
    with b show ?thesis by simp
  qed
  have inj: "x = y" if "(c + x) mod P = (c + y) mod P" "x < P" "y < P" for x y
  proof -
    have "(c + x) mod P = (if c + x < P then c + x else c + x - P)" if "x < P" for x
      using that b(2) by (simp add: mod_if)
    with that show ?thesis by (auto split: if_splits)
  qed
  show ?thesis
    using e inj [of "dist P r c" d] b dist_less [of P r c] by auto
qed

lemma dist_behind: "r < P \<Longrightarrow> d < P \<Longrightarrow> dist P r (behind P r d) = d"
  by (subst dist_iff) (simp_all add: behind_ahead)

lemma behind_dist: "r < P \<Longrightarrow> c < P \<Longrightarrow> behind P r (dist P r c) = c"
  by (cases "c \<le> r") (auto simp: behind_def dist_def mod_if)

lemma dist_self [simp]: "r < P \<Longrightarrow> dist P r r = 0"
  by (simp add: dist_def)

lemma behind_behind:
  assumes "a + b \<le> P" "r < P"
  shows "behind P (behind P r a) b = behind P r (a + b)"
proof -
  have "behind P (behind P r a) b = (behind P r a + (P - b)) mod P"
    using assms by (simp add: behind_def)
  also have "\<dots> = (r + P - a + (P - b)) mod P"
    unfolding behind_def by (rule mod_add_left_eq)
  also have "r + P - a + (P - b) = (r + P - (a + b)) + P" using assms by simp
  finally show ?thesis by (simp add: behind_def)
qed

lemma dist_prev: "r < P \<Longrightarrow> d < P \<Longrightarrow> 0 < d \<Longrightarrow> dist P (behind P r 1) (behind P r d) = d - 1"
proof -
  assume a: "r < P" "d < P" "0 < d"
  then have "behind P (behind P r 1) (d - 1) = behind P r d" by (subst behind_behind) auto
  with a dist_behind [of "behind P r 1" P "d - 1"] show ?thesis by simp
qed

lemma behind_neq: "r < P \<Longrightarrow> 2 \<le> P \<Longrightarrow> behind P r 1 \<noteq> r"
  using dist_behind [of r P 1] dist_self [of r P] by fastforce

lemma behind_inj: "r < P \<Longrightarrow> q < P \<Longrightarrow> d \<le> P \<Longrightarrow> behind P r d = behind P q d \<longleftrightarrow> r = q"
  by (metis behind_ahead)

lemma next_behind: "r < P \<Longrightarrow> behind P ((r + 1) mod P) 1 = r"
proof -
  assume r: "r < P"
  have "behind P ((r + 1) mod P) 1 = ((r + 1) mod P + (P - 1)) mod P" using r by (simp add: behind_def)
  also have "\<dots> = (r + 1 + (P - 1)) mod P" by (rule mod_add_left_eq)
  finally show ?thesis using r by simp
qed

lemma behind_next: "r < P \<Longrightarrow> (behind P r 1 + 1) mod P = r"
  using behind_ahead [of r P 1] by simp

text \<open>The index expressions of the ring algorithms.\<close>

lemma mod_p_behind:
  assumes "0 < P" "d \<le> P"
  shows "mod_p (int P) (int r - int d) = int (behind P r d)"
proof -
  have "int (behind P r d) = (int (r + P - d)) mod int P"
    unfolding behind_def by (rule of_nat_mod)
  also have "int (r + P - d) = int r - int d + int P" using assms(2) by simp
  finally show ?thesis using assms(1) by (simp add: mod_p_eq_mod)
qed

lemma mod_p_next: "0 < P \<Longrightarrow> mod_p (int P) (int r + 1) = int ((r + 1) mod P)"
  by (simp add: mod_p_eq_mod of_nat_mod ac_simps)

lemma mod_behind: "d \<le> P \<Longrightarrow> behind P (r mod P) d = behind P r d"
  by (simp add: behind_def mod_add_left_eq flip: Nat.add_diff_assoc)

lemma next_behind_Suc: "r < P \<Longrightarrow> d < P \<Longrightarrow> behind P ((r + 1) mod P) (Suc d) = behind P r d"
  using behind_behind [of 1 d P "(r + 1) mod P"] by (simp add: next_behind [simplified])

lemma ring_peers:
  assumes "connected P r comm" "r < P" "2 \<le> P"
  shows "mod_p (int P) (int r - 1) = int (behind P r 1)"
    "mod_p (int P) (int r + 1) = int ((r + 1) mod P)"
    "with_qp comm (int (behind P r 1)) f = f (behind P r 1)"
    "with_qp comm (int ((r + 1) mod P)) f = f ((r + 1) mod P)"
proof -
  show "mod_p (int P) (int r - 1) = int (behind P r 1)"
    "mod_p (int P) (int r + 1) = int ((r + 1) mod P)"
    using mod_p_behind [of P 1 r] mod_p_next [of P r] assms(3) by simp_all
  have "behind P r 1 \<noteq> r" "(r + 1) mod P \<noteq> r"
    using behind_neq [OF assms(2,3)] next_behind [OF assms(2)] by metis+
  then show "with_qp comm (int (behind P r 1)) f = f (behind P r 1)"
    "with_qp comm (int ((r + 1) mod P)) f = f ((r + 1) mod P)"
    using connectedD(3) [OF assms(1)] assms(3) by simp_all
qed

subsection \<open>All ranks at one point of the code\<close>

definition stage :: "(nat \<Rightarrow> endpoint) job \<Rightarrow> (nat \<Rightarrow> rprog) \<Rightarrow> (nat \<Rightarrow> mem) \<Rightarrow> (nat \<Rightarrow> endpoint) \<Rightarrow> bool" where
  "stage w pr M E \<longleftrightarrow> (\<forall>x. view w x = (pr x, M x, E x))"

text \<open>A job of \<open>P\<close> ranks, rank \<open>r\<close> running \<open>p r\<close>.\<close>

definition ranks :: "nat \<Rightarrow> (nat \<Rightarrow> rprog) \<Rightarrow> nat \<Rightarrow> rprog" where
  "ranks P p r = (if r < P then p r else Return)"

lemma ranks_simps [simp]: "r < P \<Longrightarrow> ranks P p r = p r" "P \<le> r \<Longrightarrow> ranks P p r = Return"
  by (simp_all add: ranks_def)

lemma ranks_cong: "(\<And>r. r < P \<Longrightarrow> p r = p' r) \<Longrightarrow> ranks P p = ranks P p'"
  by (auto simp: ranks_def fun_eq_iff)

text \<open>Rounds chain into loops.\<close>

lemma stage_loop:
  assumes step: "\<And>s w M. s < N \<Longrightarrow> stage w (ranks P (prog s)) M E \<Longrightarrow> J s M \<Longrightarrow>
      \<exists>as w' M'. run (exec rc_fabric) as w = Some w' \<and> stage w' (ranks P (prog (Suc s))) M' E \<and> J (Suc s) M'"
    and init: "stage w (ranks P (prog 0)) M E" "J 0 M"
  shows "\<exists>as w' M'. run (exec rc_fabric) as w = Some w' \<and> stage w' (ranks P (prog N)) M' E \<and> J N M'"
proof -
  have "\<exists>as w' M'. run (exec rc_fabric) as w = Some w' \<and> stage w' (ranks P (prog s)) M' E \<and> J s M'"
    if "s \<le> N" for s
    using that
  proof (induction s)
    case 0
    show ?case using init by (intro exI [of _ "[]"]) auto
  next
    case (Suc s)
    then obtain as w1 M1 where 1: "run (exec rc_fabric) as w = Some w1"
        "stage w1 (ranks P (prog s)) M1 E" "J s M1" by auto
    with step [of s w1 M1] Suc.prems show ?case by (meson Suc_le_lessD run_appendI)
  qed
  then show ?thesis by blast
qed

subsection \<open>A send and a receive per rank\<close>

text \<open>
  The body of a step of every ring and exchange collective: post the receive, post the
  send, wait for the send, wait for the receive and go on with \<open>C\<close>; empty messages are
  skipped on both sides.
\<close>

definition sendrecv :: "bool \<Rightarrow> nat \<Rightarrow> MemoryRegion \<Rightarrow> nat \<Rightarrow> nat \<Rightarrow>
    bool \<Rightarrow> nat \<Rightarrow> MemoryRegion \<Rightarrow> nat \<Rightarrow> nat \<Rightarrow> (ibv_wc \<Rightarrow> rprog \<Rightarrow> rprog) \<Rightarrow> rprog \<Rightarrow> rprog" where
  "sendrecv rb src rmr ra rl sb dst smr sa sl C k =
     when_do rb (post_recv src rmr ra rl 0)
     (when_do sb (post_send dst smr sa sl 0 True)
     (when_do sb (\<lambda>k. wait_completion SendCq (\<lambda>_. k))
     (when_do rb (\<lambda>k. wait_completion RecvCq (\<lambda>wc. C wc k)) k)))"

lemma disc_sendrecv:
  assumes "rb \<Longrightarrow> sb \<Longrightarrow> disjoint_ranges sa sl ra rl"
    and "\<And>wc. rb \<Longrightarrow> disc (C wc k) None None" and "disc k None None"
  shows "disc (sendrecv rb src rmr ra rl sb dst smr sa sl C k) None None"
proof -
  have "rb \<Longrightarrow> sb \<Longrightarrow> sge_disjoint (wr_sge smr sa sl) (wr_sge rmr ra rl)"
    using disjoint_ranges_sub [OF assms(1), of sa "to_u32 sl" ra "to_u32 rl"] to_u32_le [of sl] to_u32_le [of rl]
    by (simp add: sge_disjoint_def)
  with assms(2,3) show ?thesis
    unfolding sendrecv_def
    by (cases rb; cases sb) (auto intro!: disc_wait_send disc_wait_recv)
qed

text \<open>
  One such step of all ranks: rank \<open>r\<close> receives from \<open>src r\<close> and sends to \<open>dst r\<close>. Every rank
  ends with the bytes its source had in the send buffer.
\<close>

lemma sendrecv_round:
  assumes w: "stage w (ranks P pr) M E" and idle: "\<And>x. idle (E x)"
    and pr: "\<And>r. r < P \<Longrightarrow> pr r = sendrecv (rb r) (src r) (rmr r) (ra r) (rl r)
      (sb r) (dst r) (smr r) (sa r) (sl r) (C r) (k r)"
    and inv: "\<And>r. r < P \<Longrightarrow> src r < P \<and> dst r < P \<and> dst (src r) = r \<and> src (dst r) = r"
    and fits: "\<And>r. r < P \<Longrightarrow> sb (src r) = rb r \<and> (rb r \<longrightarrow> sl (src r) = rl r \<and> rl r < 2 ^ 32)"
    and sreg: "\<And>r. r < P \<Longrightarrow> sb r \<Longrightarrow> registered (E r) (smr r) \<and> mr_addr (smr r) \<le> sa r \<and>
      sa r + sl r \<le> mr_addr (smr r) + mr_length (smr r)"
    and rreg: "\<And>r. r < P \<Longrightarrow> rb r \<Longrightarrow> registered (E r) (rmr r) \<and> mr_addr (rmr r) \<le> ra r \<and>
      ra r + rl r \<le> mr_addr (rmr r) + mr_length (rmr r)"
    and dj: "\<And>r. r < P \<Longrightarrow> sb r \<Longrightarrow> rb r \<Longrightarrow> disjoint_ranges (sa r) (sl r) (ra r) (rl r)"
    and fin: "\<And>r. r < P \<Longrightarrow> lsteps
      (if rb r then C r (good_wc (src r) (rl r)) (k r) else k r,
       if rb r then mem_write (M r) (ra r) (mem_read (M (src r)) (sa (src r)) (rl r)) else M r, E r)
      (p2 r, M2 r, E r)"
    and rest: "\<And>x. P \<le> x \<Longrightarrow> M2 x = M x"
  shows "\<exists>as w'. run (exec rc_fabric) as w = Some w' \<and> stage w' (ranks P p2) M2 E"
proof -
  let ?so = "\<lambda>r. if r < P \<and> sb r then Some (dst r, send_req (smr r) (sa r) (sl r)) else None"
  let ?ro = "\<lambda>r. if r < P \<and> rb r then Some (src r, recv_req (rmr r) (ra r) (rl r)) else None"
  let ?p1 = "\<lambda>r. if r < P then when_do (sb r) (\<lambda>k. wait_completion SendCq (\<lambda>_. k))
     (when_do (rb r) (\<lambda>k. wait_completion RecvCq (\<lambda>wc. C r wc k)) (k r)) else Return"
  have u: "to_u32 (rl r) = rl r" if "r < P" "rb r" for r
    using fits [OF that(1)] that(2) by (simp add: to_u32_exact)
  have flip: "rb (dst r) = sb r \<and> (sb r \<longrightarrow> rl (dst r) = sl r)" if "r < P" for r
    using fits [of "dst r"] inv [OF that] by auto
  have m: "matched P E ?so ?ro"
    unfolding matched_def
  proof (intro conjI allI impI; (elim conjE)?)
    fix p q s assume "?so p = Some (q, s)"
    then show "p < P" "q < P" "swr_signaled s" "sge_ok (E p) (swr_sge s)"
      "\<exists>r. ?ro q = Some (p, r) \<and> sge_length (swr_sge s) = sge_length (rwr_sge r)"
      using inv [of p] flip [of p] sreg [of p]
      by (auto split: if_splits intro: registered_sge_ok)
  next
    fix p q r assume "?ro q = Some (p, r)"
    then show "q < P" "p < P" "sge_ok (E q) (rwr_sge r)" "\<exists>s. ?so p = Some (q, s)"
      using inv [of q] fits [of q] rreg [of q]
      by (auto split: if_splits intro: registered_sge_ok)
  next
    fix x q s p r assume "?so x = Some (q, s)" "?ro x = Some (p, r)"
    then show "sge_disjoint (swr_sge s) (rwr_sge r)"
      using disjoint_ranges_sub [OF dj [of x], of "sa x" "to_u32 (sl x)" "ra x" "to_u32 (rl x)"]
        to_u32_le [of "sl x"] to_u32_le [of "rl x"]
      by (auto split: if_splits simp: sge_disjoint_def)
  qed
  have w': "view w x = (ranks P pr x, M x, E x)" for x using w by (simp add: stage_def)
  have post: "lsteps (ranks P pr x, M x, E x) (?p1 x, M x, posted (E x) (?so x) (?ro x))" if "x < P" for x
    using lsteps_post [OF idle, of "rb x" "src x" "rmr x" "ra x" "rl x" "sb x" "dst x" "smr x" "sa x" "sl x"]
      that by (simp add: pr sendrecv_def cong: if_cong)
  have rcv: "received ?so ?ro M x =
      (if rb x then mem_write (M x) (ra x) (mem_read (M (src x)) (sa (src x)) (rl x)) else M x)"
    if "x < P" for x
    using that inv [OF that] fits [OF that] u [OF that]
    by (auto simp: received_def sent_sge_def deliver_def)
  have reap: "lsteps (?p1 x, received ?so ?ro M x, completed (E x) (?so x) (?ro x)) (ranks P p2 x, M2 x, E x)"
    if x: "x < P" for x
  proof -
    have "lsteps (?p1 x, received ?so ?ro M x, completed (E x) (?so x) (?ro x))
        (if rb x then C x (good_wc (src x) (to_u32 (rl x))) (k x) else k x, received ?so ?ro M x, E x)"
      using lsteps_reap [OF idle, of "sb x" "rb x" "C x" "k x" "received ?so ?ro M x" x "dst x"
          "smr x" "sa x" "sl x" "src x" "rmr x" "ra x" "rl x"] x
      by (simp cong: if_cong)
    moreover have "lsteps (if rb x then C x (good_wc (src x) (to_u32 (rl x))) (k x) else k x,
        received ?so ?ro M x, E x) (p2 x, M2 x, E x)"
      using fin [OF x] u [OF x] unfolding rcv [OF x] by (cases "rb x") simp_all
    ultimately show ?thesis unfolding ranks_simps(1) [OF x] by (rule rtranclp_trans)
  qed
  show ?thesis
    unfolding stage_def by (rule exchange_round [OF w' idle m post reap]) (use rest in auto)
qed

text \<open>A loop is disciplined when its steps are.\<close>

lemma disc_loop:
  assumes step: "\<And>s. Suc s < P \<Longrightarrow> disc (prog (Suc s)) None None \<Longrightarrow> disc (prog s) None None"
    and fin: "disc (prog (P - 1)) None None"
  shows "disc (prog 0) None None"
proof -
  have "disc (prog (P - 1 - s)) None None" for s
  proof (induction s)
    case (Suc s)
    show ?case
    proof (cases "s < P - 1")
      case True
      then have "Suc (P - 1 - Suc s) = P - 1 - s" "Suc (P - 1 - Suc s) < P" by simp_all
      with step [of "P - 1 - Suc s"] Suc.IH show ?thesis by simp
    qed (use Suc.IH in simp)
  qed (use fin in simp)
  from this [of "P - 1"] show ?thesis by simp
qed

subsection \<open>From one schedule to all of them\<close>

lemma stage_done_stuck:
  assumes "stage w (ranks P (\<lambda>_. Return)) M E" and "\<And>x. idle (E x)"
  shows "stuck (exec rc_fabric) w"
  unfolding stuck_def
proof
  fix l
  have v: "view w x = (Return, M x, E x)" for x
    using assms(1) by (auto simp: stage_def ranks_def)
  show "exec rc_fabric l w = None"
  proof (cases l)
    case (Run r)
    then show ?thesis by (simp add: exec_Run v)
  next
    case (Nic p q)
    have "net w p = E p" using v [of p] by (simp add: view_def)
    with assms(2) [of p] have "sq (net w p) q = []" by (simp add: idle_def)
    with Nic show ?thesis by (simp add: exec_Nic rc_move_def)
  qed
qed

lemma idle_rank_ok:
  assumes "idle e" and "disc p None None"
  shows "rank_ok p e"
  by (rule rank_okI [OF assms(2)]) (use assms(1) in \<open>simp_all add: idle_def\<close>)

text \<open>
  If every rank runs disciplined code over idle queues and some schedule brings all ranks to
  the end in memories that satisfy \<open>Q\<close>, then all schedules do, on every fabric that keeps
  the contract.
\<close>

lemma job_always_ends:
  assumes F: "rc_contract F \<alpha>" and procs: "procs w = ranks P p"
    and idle: "\<And>x. idle (\<alpha> (net w) x)" and disc: "\<And>r. r < P \<Longrightarrow> disc (p r) None None"
    and one: "\<And>u. stage u (ranks P p) (mems w) (\<alpha> (net w)) \<Longrightarrow>
      \<exists>as u' M. run (exec rc_fabric) as u = Some u' \<and>
        stage u' (ranks P (\<lambda>_. Return)) M (\<alpha> (net w)) \<and> Q M"
  shows "always_ends (exec F) w (\<lambda>f. (\<forall>r. procs f r = Return) \<and> Q (mems f))"
proof -
  let ?u = "abs_job \<alpha> w"
  have st: "stage ?u (ranks P p) (mems w) (\<alpha> (net w))"
    by (simp add: stage_def view_def procs)
  obtain as u' M where u': "run (exec rc_fabric) as ?u = Some u'"
      "stage u' (ranks P (\<lambda>_. Return)) M (\<alpha> (net w))" "Q M"
    using one [OF st] by blast
  have dis: "disciplined ?u"
    unfolding disciplined_def
  proof
    fix r
    show "rank_ok (procs ?u r) (net ?u r)"
      by (rule idle_rank_ok) (use idle disc in \<open>auto simp: procs ranks_def\<close>)
  qed
  have eq: "procs u' = (\<lambda>_. Return)" "mems u' = M"
    using u'(2) by (auto simp: stage_def view_def ranks_def)
  have "always_ends (exec rc_fabric) ?u (\<lambda>f. (\<forall>r. procs f r = Return) \<and> Q (mems f))"
    by (rule rc.one_schedule_suffices [OF dis u'(1) stage_done_stuck [OF u'(2) idle]])
       (simp add: eq u'(3))
  from rc_contract.job_ends_abs [OF F this] show ?thesis by simp
qed

text \<open>A computation of every rank on its own memory.\<close>

lemma compute_stage:
  assumes w: "stage w (ranks P (\<lambda>r. Compute (f r) (k r))) M E"
    and f: "\<And>r. r < P \<Longrightarrow> f r (M r) = Inr (M' r)" "\<And>r. P \<le> r \<Longrightarrow> M' r = M r"
  shows "\<exists>as w'. run (exec rc_fabric) as w = Some w' \<and> stage w' (ranks P k) M' E"
proof -
  let ?v = "\<lambda>r. (ranks P k r, M' r, E r)"
  have v: "view w r = (ranks P (\<lambda>r. Compute (f r) (k r)) r, M r, E r)" for r using w by (simp add: stage_def)
  have "lsteps (view w r) (?v r)" if "r < P" for r
    using f(1) [OF that] that unfolding v by (intro r_into_rtranclp) simp
  then obtain as w' where "run (exec rc_fabric) as w = Some w'" "\<forall>r. view w' r = ?v r"
    using local_phase [of P w ?v] f(2) by (auto simp: v)
  then show ?thesis by (auto simp: stage_def)
qed

end
