(* ===== verification/Allreduce_Common.thy ===== *)
theory Allreduce_Common
  imports Mesh
begin

text \<open>
  What the two allreduce algorithms share: their parameters, what the ranks of a job
  have to agree on, the effect of receiving into scratch and reducing into the
  data, and a small concrete job that the witnesses run.
\<close>

text \<open>The parameters of both allreduce functions.\<close>

record allreduce_args =
  ar_comm :: communicator
  ar_data_mr :: MemoryRegion
  ar_data :: nat
  ar_count :: nat
  ar_dtype :: Dtype
  ar_op :: ReduceOp
  ar_scratch_mr :: MemoryRegion
  ar_scratch :: nat
  ar_scratch_capacity :: nat

subsection \<open>What the ranks of a job have to agree on\<close>

text \<open>
  A rank's buffers: \<open>n\<close> elements of data and \<open>need\<close> elements of scratch, registered,
  within the registration, not overlapping.
\<close>

definition buffers_ok :: "nat \<Rightarrow> nat \<Rightarrow> allreduce_args \<Rightarrow> endpoint \<Rightarrow> bool" where
  "buffers_ok n need a e \<longleftrightarrow>
     registered e (ar_data_mr a) \<and> mr_addr (ar_data_mr a) \<le> ar_data a \<and>
     ar_data a + 4 * n \<le> mr_addr (ar_data_mr a) + mr_length (ar_data_mr a) \<and>
     registered e (ar_scratch_mr a) \<and> mr_addr (ar_scratch_mr a) \<le> ar_scratch a \<and>
     ar_scratch a + 4 * ar_scratch_capacity a \<le> mr_addr (ar_scratch_mr a) + mr_length (ar_scratch_mr a) \<and>
     need \<le> ar_scratch_capacity a \<and>
     disjoint_ranges (ar_data a) (4 * n) (ar_scratch a) (4 * ar_scratch_capacity a)"

text \<open>All ranks call with the same count, type and operator; \<open>need\<close> elements fit a work request.\<close>

definition allreduce_ready :: "nat \<Rightarrow> nat \<Rightarrow> Dtype \<Rightarrow> ReduceOp \<Rightarrow> nat \<Rightarrow>
    (nat \<Rightarrow> allreduce_args) \<Rightarrow> (nat \<Rightarrow> endpoint) \<Rightarrow> bool" where
  "allreduce_ready P n dt op need A E \<longleftrightarrow>
     0 < P \<and> P < 2 ^ 31 \<and> 4 * n < 2 ^ 64 \<and> 4 * need < 2 ^ 32 \<and>
     (\<forall>r<P. connected P r (ar_comm (A r)) \<and> ar_count (A r) = n \<and> ar_dtype (A r) = dt \<and>
        ar_op (A r) = op \<and> buffers_ok n need (A r) (E r))"

text \<open>Element \<open>i\<close> of rank \<open>r\<close>'s data.\<close>

definition elem :: "(nat \<Rightarrow> allreduce_args) \<Rightarrow> (nat \<Rightarrow> mem) \<Rightarrow> nat \<Rightarrow> nat \<Rightarrow> u32" where
  "elem A M r i = load32 (M r) (ar_data (A r) + 4 * i)"

text \<open>A rank's memory outside its two buffers.\<close>

definition same_outside :: "allreduce_args \<Rightarrow> mem \<Rightarrow> mem \<Rightarrow> bool" where
  "same_outside a m m' \<longleftrightarrow>
     (\<forall>x. (x < ar_data a \<or> ar_data a + 4 * ar_count a \<le> x) \<longrightarrow>
          (x < ar_scratch a \<or> ar_scratch a + 4 * ar_scratch_capacity a \<le> x) \<longrightarrow> m' x = m x)"

lemma same_outside_refl [simp]: "same_outside a m m"
  by (simp add: same_outside_def)

lemma same_outside_trans: "same_outside a m m' \<Longrightarrow> same_outside a m' m'' \<Longrightarrow> same_outside a m m''"
  by (simp add: same_outside_def)

subsection \<open>Memory effect of one step\<close>

lemma ready_rank:
  assumes "allreduce_ready P n dt op need A E" "r < P"
  shows "connected P r (ar_comm (A r))" "ar_count (A r) = n" "ar_dtype (A r) = dt"
    "ar_op (A r) = op" "buffers_ok n need (A r) (E r)"
  using assms by (simp_all add: allreduce_ready_def)

lemma data_scratch_disjoint:
  "buffers_ok n n a e \<Longrightarrow> disjoint_ranges (ar_data a) (4 * n) (ar_scratch a) (4 * n)"
  unfolding buffers_ok_def
  using disjoint_ranges_sub [of "ar_data a" "4 * n" "ar_scratch a" "4 * ar_scratch_capacity a"
      "ar_data a" "4 * n" "ar_scratch a" "4 * n"] by simp

text \<open>
  A rank receives \<open>len\<close> elements into its scratch buffer and reduces them into chunk \<open>d\<close>:
  the chunk changes, the rest of the data and everything outside the buffers stays.
\<close>

lemma reduce_step_mem:
  assumes b: "buffers_ok n need a e" and cnt: "ar_count a = n"
    and len: "len \<le> need" "off + len \<le> n"
    and op: "\<And>j. j < len \<Longrightarrow> elem_op dt op (load32 m (ar_data a + 4 * (off + j)))
        (load32 m' (sa + 4 * j)) = Inr (g j)"
  obtains m2 where
    "reduce_inplace (ar_data a + 4 * off) (ar_scratch a) len dt op
       (mem_write m (ar_scratch a) (mem_read m' sa (4 * len))) = Inr m2"
    "\<And>j. j < len \<Longrightarrow> load32 m2 (ar_data a + 4 * (off + j)) = g j"
    "\<And>i. i < n \<Longrightarrow> i < off \<or> off + len \<le> i \<Longrightarrow>
       load32 m2 (ar_data a + 4 * i) = load32 m (ar_data a + 4 * i)"
    "same_outside a m m2"
proof -
  let ?m1 = "mem_write m (ar_scratch a) (mem_read m' sa (4 * len))"
  have dj: "disjoint_ranges (ar_data a) (4 * n) (ar_scratch a) (4 * ar_scratch_capacity a)"
    and cap: "need \<le> ar_scratch_capacity a"
    using b by (simp_all add: buffers_ok_def)
  have dj': "disjoint_ranges (ar_data a + 4 * off) (4 * len) (ar_scratch a) (4 * len)"
    by (rule disjoint_ranges_sub [OF dj]) (use len cap in auto)
  have data: "load32 ?m1 (ar_data a + 4 * i) = load32 m (ar_data a + 4 * i)" if "i < n" for i
  proof -
    have "disjoint_ranges (ar_data a + 4 * i) 4 (ar_scratch a) (4 * len)"
      by (rule disjoint_ranges_sub [OF dj]) (use that len cap in auto)
    then show ?thesis
      by (cases "len = 0") (auto simp: disjoint_ranges_def intro: load32_write_outside)
  qed
  have new: "elem_op dt op (load32 ?m1 (ar_data a + 4 * off + 4 * j)) (load32 ?m1 (ar_scratch a + 4 * j))
      = Inr (g j)" if "j < len" for j
  proof -
    have "load32 ?m1 (ar_data a + 4 * off + 4 * j) = load32 m (ar_data a + 4 * (off + j))"
      using data [of "off + j"] that len(2) by (simp add: algebra_simps)
    with op [OF that] that show ?thesis by (simp only: load32_copy)
  qed
  obtain m2 where m2: "reduce_inplace (ar_data a + 4 * off) (ar_scratch a) len dt op ?m1 = Inr m2"
      "\<And>j. j < len \<Longrightarrow> load32 m2 (ar_data a + 4 * off + 4 * j) = g j"
      "\<And>x. x < ar_data a + 4 * off \<or> ar_data a + 4 * off + 4 * len \<le> x \<Longrightarrow> m2 x = ?m1 x"
    by (rule reduce_inplace_ok [OF dj' new]) blast+
  show thesis
  proof (rule that [OF m2(1)])
    show "load32 m2 (ar_data a + 4 * (off + j)) = g j" if "j < len" for j
      using m2(2) [OF that] by (simp add: algebra_simps)
    show "load32 m2 (ar_data a + 4 * i) = load32 m (ar_data a + 4 * i)"
      if "i < n" "i < off \<or> off + len \<le> i" for i
    proof -
      have "load32 m2 (ar_data a + 4 * i) = load32 ?m1 (ar_data a + 4 * i)"
        by (rule load32_frame) (use that(2) in \<open>auto intro!: m2(3)\<close>)
      with data [OF that(1)] show ?thesis by simp
    qed
    show "same_outside a m m2"
      unfolding same_outside_def
    proof (intro allI impI)
      fix x assume x: "x < ar_data a \<or> ar_data a + 4 * ar_count a \<le> x"
        "x < ar_scratch a \<or> ar_scratch a + 4 * ar_scratch_capacity a \<le> x"
      have "m2 x = ?m1 x" by (rule m2(3)) (use x(1) len(2) cnt in auto)
      also have "\<dots> = m x" by (rule mem_write_outside) (use x(2) len cap in auto)
      finally show "m2 x = m x" .
    qed
  qed
qed

subsection \<open>A concrete job\<close>

text \<open>
  \<open>P\<close> ranks with \<open>n\<close> elements of data at address 0 and \<open>n\<close> elements of scratch behind it;
  element \<open>i\<close> of rank \<open>r\<close> is \<open>10 * r + i\<close>.
\<close>

definition sample_args :: "nat \<Rightarrow> nat \<Rightarrow> Dtype \<Rightarrow> ReduceOp \<Rightarrow> nat \<Rightarrow> allreduce_args" where
  "sample_args P n dt op r =
     \<lparr>ar_comm = \<lparr>comm_rank = int r, comm_size = int P, comm_qps = (\<lambda>p. Some (nat p))\<rparr>,
      ar_data_mr = \<lparr>mr_lkey = 1, mr_addr = 0, mr_length = 4 * n\<rparr>, ar_data = 0, ar_count = n,
      ar_dtype = dt, ar_op = op,
      ar_scratch_mr = \<lparr>mr_lkey = 2, mr_addr = 4 * n, mr_length = 4 * n\<rparr>, ar_scratch = 4 * n,
      ar_scratch_capacity = n\<rparr>"

definition sample_ep :: "nat \<Rightarrow> nat \<Rightarrow> endpoint" where
  "sample_ep n r = \<lparr>sq = (\<lambda>_. []), rq = (\<lambda>_. []), scq = [], rcq = [],
     regs = [1 \<mapsto> (0, 4 * n), 2 \<mapsto> (4 * n, 4 * n)]\<rparr>"

definition sample_mem :: "nat \<Rightarrow> mem" where
  "sample_mem r a = (if a mod 4 = 0 then word_of_nat (10 * r + a div 4) else 0)"

definition sample_job :: "nat \<Rightarrow> nat \<Rightarrow> (nat \<Rightarrow> rprog) \<Rightarrow> (nat \<Rightarrow> endpoint) job" where
  "sample_job P n p = \<lparr>procs = ranks P p, mems = sample_mem, net = sample_ep n\<rparr>"

lemma sample_idle: "idle (id (net (sample_job P n p)) r)"
  by (simp add: idle_def sample_ep_def sample_job_def)

lemma sample_ready:
  "0 < P \<Longrightarrow> P < 2 ^ 31 \<Longrightarrow> 4 * n < 2 ^ 32 \<Longrightarrow> need \<le> n \<Longrightarrow>
   allreduce_ready P n dt op need (sample_args P n dt op) (id (net (sample_job P n p)))"
  by (auto simp: allreduce_ready_def connected_def buffers_ok_def registered_def sample_args_def
      sample_ep_def sample_job_def disjoint_ranges_def)

lemma sample_sel [simp]:
  "procs (sample_job P n p) = ranks P p"
  "mems (sample_job P n p) = sample_mem"
  by (simp_all add: sample_job_def)

lemma sample_elem:
  assumes "10 * r + i < 256"
  shows "elem (sample_args P n dt op) sample_mem r i = word_of_nat (10 * r + i)"
proof -
  have b: "sample_mem r (4 * i) = word_of_nat (10 * r + i)" by (simp add: sample_mem_def)
  have b1: "sample_mem r (4 * i + 1) = 0" and b2: "sample_mem r (4 * i + 2) = 0"
    and b3: "sample_mem r (4 * i + 3) = 0"
    by (simp_all add: sample_mem_def mod_Suc numeral_2_eq_2 numeral_3_eq_3)
  have "load32 (sample_mem r) (4 * i) = ucast (word_of_nat (10 * r + i) :: byte)"
    unfolding load32_def le_word_def b b1 b2 b3 by simp
  also have "\<dots> = word_of_nat (10 * r + i)" using assms by (simp only: unsigned_of_nat) (simp add: take_bit_nat_eq_self)
  finally show ?thesis by (simp add: elem_def sample_args_def)
qed

lemma sample_sint:
  "10 * r + i < 256 \<Longrightarrow> sint (elem (sample_args P n dt op) sample_mem r i) = 10 * int r + int i"
  by (simp only: sample_elem signed_of_nat) (simp add: signed_take_bit_int_eq_self)

end
