(* ===== verification/Ring_Gather.thy ===== *)
theory Ring_Gather
  imports Mesh
begin

text \<open>
  Passing blocks around the ring, the pattern shared by the second phase of
  \<^verbatim>\<open>allreduce_ring.cc\<close> and by \<^verbatim>\<open>allgather.cc\<close>: at step \<open>s\<close> a rank forwards the block it
  received one step earlier. The interface \<open>ring_layout\<close> is what the pattern needs from
  the placement of the blocks; chunks and equal segments provide it.
\<close>

text \<open>Where rank \<open>r\<close>'s copy of the buffer lies, and what it registered.\<close>

record gather_buf =
  gb_mr :: MemoryRegion
  gb_base :: nat

definition gather_ok :: "nat \<Rightarrow> gather_buf \<Rightarrow> endpoint \<Rightarrow> bool" where
  "gather_ok n b e \<longleftrightarrow> registered e (gb_mr b) \<and> mr_addr (gb_mr b) \<le> gb_base b \<and>
     gb_base b + 4 * n \<le> mr_addr (gb_mr b) + mr_length (gb_mr b)"

text \<open>
  Step \<open>s\<close> of rank \<open>r\<close>, which starts with block \<open>pos r\<close>: \<open>act c\<close> tells whether block \<open>c\<close> is
  transferred at all, \<open>off\<close> and \<open>len\<close> where it is.
\<close>

definition gather_prog :: "string \<Rightarrow> (nat \<Rightarrow> bool) \<Rightarrow> (nat \<Rightarrow> nat) \<Rightarrow> (nat \<Rightarrow> nat) \<Rightarrow> nat \<Rightarrow> gather_buf \<Rightarrow>
    nat \<Rightarrow> nat \<Rightarrow> nat \<Rightarrow> rprog \<Rightarrow> rprog" where
  "gather_prog msg act off len P b r p s =
     (let c = behind P p s; d = behind P p (Suc s) in
      sendrecv (act d) (behind P r 1) (gb_mr b) (gb_base b + 4 * off d) (4 * len d)
        (act c) ((r + 1) mod P) (gb_mr b) (gb_base b + 4 * off c) (4 * len c)
        (\<lambda>wc k. if wc_byte_len wc \<noteq> 4 * len d
           then Throw (RuntimeError msg [int (4 * len d), int (wc_byte_len wc)]) else k))"

text \<open>The blocks that a rank at position \<open>p\<close> holds after \<open>s\<close> steps have their final value \<open>v\<close>.\<close>

definition block_holds :: "nat \<Rightarrow> (nat \<Rightarrow> nat) \<Rightarrow> (nat \<Rightarrow> nat) \<Rightarrow> gather_buf \<Rightarrow> (nat \<Rightarrow> u32) \<Rightarrow>
    nat \<Rightarrow> nat \<Rightarrow> mem \<Rightarrow> bool" where
  "block_holds P off len b v s p m \<longleftrightarrow> (\<forall>c<P. dist P p c \<le> s \<longrightarrow>
     (\<forall>j<len c. load32 m (gb_base b + 4 * (off c + j)) = v (off c + j)))"

definition outside_buf :: "nat \<Rightarrow> gather_buf \<Rightarrow> mem \<Rightarrow> mem \<Rightarrow> bool" where
  "outside_buf n b m m' \<longleftrightarrow> (\<forall>x. x < gb_base b \<or> gb_base b + 4 * n \<le> x \<longrightarrow> m' x = m x)"

lemma outside_buf_refl [simp]: "outside_buf n b m m"
  by (simp add: outside_buf_def)

lemma outside_buf_trans: "outside_buf n b m m' \<Longrightarrow> outside_buf n b m' m'' \<Longrightarrow> outside_buf n b m m''"
  by (simp add: outside_buf_def)

locale ring_layout =
  fixes P n :: nat and off len :: "nat \<Rightarrow> nat"
  assumes block_end: "c < P \<Longrightarrow> off c + len c \<le> n"
    and block_disjoint: "c \<noteq> d \<Longrightarrow> off c + len c \<le> off d \<or> off d + len d \<le> off c"
begin

lemma holds_step:
  assumes mine: "block_holds P off len b v s p m" and theirs: "block_holds P off len b' v s (behind P p 1) m'"
    and p: "p < P" and s: "Suc s < P" and d: "d = behind P p (Suc s)"
    and m2: "m2 = mem_write m (gb_base b + 4 * off d) (mem_read m' (gb_base b' + 4 * off d) (4 * len d))"
  shows "block_holds P off len b v (Suc s) p m2" "outside_buf n b m m2"
proof -
  have dP: "d < P" using p unfolding d by simp
  have new: "load32 m2 (gb_base b + 4 * (off d + j)) = v (off d + j)" if j: "j < len d" for j
  proof -
    have "dist P (behind P p 1) d \<le> s"
      using dist_prev [of p P "Suc s"] p s unfolding d by simp
    with theirs dP j have "load32 m' (gb_base b' + 4 * (off d + j)) = v (off d + j)"
      unfolding block_holds_def by blast
    with load32_copy [OF j, of m "gb_base b + 4 * off d" m' "gb_base b' + 4 * off d"] show ?thesis
      unfolding m2 by (simp add: algebra_simps)
  qed
  show "block_holds P off len b v (Suc s) p m2"
    unfolding block_holds_def
  proof (intro allI impI)
    fix c j assume c: "c < P" "dist P p c \<le> Suc s" "j < len c"
    show "load32 m2 (gb_base b + 4 * (off c + j)) = v (off c + j)"
    proof (cases "c = d")
      case True
      with c new show ?thesis by simp
    next
      case False
      then have "dist P p c \<noteq> Suc s" using behind_dist [OF p c(1)] d by metis
      with mine c have "load32 m (gb_base b + 4 * (off c + j)) = v (off c + j)"
        unfolding block_holds_def by (metis le_SucE)
      moreover have "load32 m2 (gb_base b + 4 * (off c + j)) = load32 m (gb_base b + 4 * (off c + j))"
        unfolding m2 by (rule load32_write_outside)
          (use block_disjoint [OF False] c(3) in auto)
      ultimately show ?thesis by simp
    qed
  qed
  show "outside_buf n b m m2"
    unfolding outside_buf_def m2
  proof (intro allI impI)
    fix x assume "x < gb_base b \<or> gb_base b + 4 * n \<le> x"
    then show "mem_write m (gb_base b + 4 * off d) (mem_read m' (gb_base b' + 4 * off d) (4 * len d)) x = m x"
      by (intro mem_write_outside) (use block_end [OF dP] in auto)
  qed
qed

lemma gather_disjoint:
  assumes "p < P" "Suc s < P"
  shows "disjoint_ranges (a + 4 * off (behind P p s)) (4 * len (behind P p s))
     (a + 4 * off (behind P p (Suc s))) (4 * len (behind P p (Suc s)))"
proof -
  have "behind P p s \<noteq> behind P p (Suc s)"
    using dist_behind [of p P s] dist_behind [of p P "Suc s"] assms by fastforce
  from block_disjoint [OF this] show ?thesis by (auto simp: disjoint_ranges_def)
qed

lemma disc_gather_prog:
  "p < P \<Longrightarrow> Suc s < P \<Longrightarrow> disc k None None \<Longrightarrow>
   disc (gather_prog msg act off len P b r p s k) None None"
  unfolding gather_prog_def Let_def by (intro disc_sendrecv) (auto intro: gather_disjoint)

lemma gather_round:
  assumes ok: "\<And>r. r < P \<Longrightarrow> gather_ok n (B r) (E r)" and idle: "\<And>x. idle (E x)"
    and act: "\<And>c. c < P \<Longrightarrow> \<not> act c \<Longrightarrow> len c = 0" and len: "\<And>c. c < P \<Longrightarrow> 4 * len c < 2 ^ 32"
    and pos: "\<And>r. r < P \<Longrightarrow> pos r < P \<and> pos (behind P r 1) = behind P (pos r) 1"
    and s: "Suc s < P"
    and w: "stage w (ranks P (\<lambda>r. gather_prog msg act off len P (B r) r (pos r) s (k r))) M E"
    and inv: "\<And>r. r < P \<Longrightarrow> block_holds P off len (B r) v s (pos r) (M r)"
  shows "\<exists>as w' M2. run (exec rc_fabric) as w = Some w' \<and> stage w' (ranks P k) M2 E \<and>
    (\<forall>r<P. block_holds P off len (B r) v (Suc s) (pos r) (M2 r) \<and> outside_buf n (B r) (M r) (M2 r))"
proof -
  let ?q = "\<lambda>r. behind P r 1"
  let ?c = "\<lambda>r. behind P (pos r) s" let ?d = "\<lambda>r. behind P (pos r) (Suc s)"
  let ?R = "\<lambda>r. if r < P then mem_write (M r) (gb_base (B r) + 4 * off (?d r))
      (mem_read (M (?q r)) (gb_base (B (?q r)) + 4 * off (?d r)) (4 * len (?d r))) else M r"
  have P: "0 < P" using s by simp
  have cd: "?c (?q r) = ?d r" if "r < P" for r
    using pos [OF that] behind_behind [of 1 s P "pos r"] s by simp
  have "\<exists>as w'. run (exec rc_fabric) as w = Some w' \<and> stage w' (ranks P k) ?R E"
  proof (rule sendrecv_round [OF w idle])
    fix r assume r: "r < P"
    show "gather_prog msg act off len P (B r) r (pos r) s (k r) =
      sendrecv (act (?d r)) (?q r) (gb_mr (B r)) (gb_base (B r) + 4 * off (?d r)) (4 * len (?d r))
        (act (?c r)) ((r + 1) mod P) (gb_mr (B r)) (gb_base (B r) + 4 * off (?c r)) (4 * len (?c r))
        (\<lambda>wc k. if wc_byte_len wc \<noteq> 4 * len (?d r)
           then Throw (RuntimeError msg [int (4 * len (?d r)), int (wc_byte_len wc)]) else k) (k r)"
      by (simp only: gather_prog_def Let_def)
    show "?q r < P \<and> (r + 1) mod P < P \<and> (?q r + 1) mod P = r \<and> ?q ((r + 1) mod P) = r"
      using P r behind_next [OF r] next_behind [OF r] by simp
    show "act (?c (?q r)) = act (?d r) \<and>
       (act (?d r) \<longrightarrow> 4 * len (?c (?q r)) = 4 * len (?d r) \<and> 4 * len (?d r) < 2 ^ 32)"
      using len [of "?d r"] P unfolding cd [OF r] by simp
    have b: "registered (E r) (gb_mr (B r)) \<and> mr_addr (gb_mr (B r)) \<le> gb_base (B r) + 4 * off c \<and>
      gb_base (B r) + 4 * off c + 4 * len c \<le> mr_addr (gb_mr (B r)) + mr_length (gb_mr (B r))"
      if "c < P" for c
      using ok [OF r] block_end [OF that] by (auto simp: gather_ok_def)
    show "registered (E r) (gb_mr (B r)) \<and> mr_addr (gb_mr (B r)) \<le> gb_base (B r) + 4 * off (?c r) \<and>
      gb_base (B r) + 4 * off (?c r) + 4 * len (?c r) \<le> mr_addr (gb_mr (B r)) + mr_length (gb_mr (B r))"
      using b P by simp
    show "registered (E r) (gb_mr (B r)) \<and> mr_addr (gb_mr (B r)) \<le> gb_base (B r) + 4 * off (?d r) \<and>
      gb_base (B r) + 4 * off (?d r) + 4 * len (?d r) \<le> mr_addr (gb_mr (B r)) + mr_length (gb_mr (B r))"
      using b P by simp
    show "disjoint_ranges (gb_base (B r) + 4 * off (?c r)) (4 * len (?c r))
        (gb_base (B r) + 4 * off (?d r)) (4 * len (?d r))"
      using gather_disjoint pos [OF r] s by simp
    have "len (?d r) = 0" if "\<not> act (?d r)" using act that P by simp
    then show "lsteps
      (if act (?d r) then
         (if wc_byte_len (good_wc (?q r) (4 * len (?d r))) \<noteq> 4 * len (?d r)
          then Throw (RuntimeError msg [int (4 * len (?d r)),
             int (wc_byte_len (good_wc (?q r) (4 * len (?d r))))]) else k r) else k r,
       if act (?d r) then mem_write (M r) (gb_base (B r) + 4 * off (?d r))
         (mem_read (M (?q r)) (gb_base (B (?q r)) + 4 * off (?c (?q r))) (4 * len (?d r))) else M r, E r)
      (k r, ?R r, E r)"
      using r unfolding cd [OF r] by (cases "act (?d r)") simp_all
  qed simp
  then obtain as w' where w': "run (exec rc_fabric) as w = Some w'" "stage w' (ranks P k) ?R E" by blast
  have "block_holds P off len (B r) v (Suc s) (pos r) (?R r) \<and> outside_buf n (B r) (M r) (?R r)" if r: "r < P" for r
    using holds_step [OF inv [OF r] _ _ s refl, of "B (?q r)" "M (?q r)"] inv [of "?q r"] pos [OF r] r P
    by auto
  with w' show ?thesis by blast
qed

text \<open>The whole loop: after \<open>P - 1\<close> steps every rank holds every block.\<close>

lemma gather_loop:
  assumes ok: "\<And>r. r < P \<Longrightarrow> gather_ok n (B r) (E r)" and idle: "\<And>x. idle (E x)"
    and act: "\<And>c. c < P \<Longrightarrow> \<not> act c \<Longrightarrow> len c = 0" and len: "\<And>c. c < P \<Longrightarrow> 4 * len c < 2 ^ 32"
    and pos: "\<And>r. r < P \<Longrightarrow> pos r < P \<and> pos (behind P r 1) = behind P (pos r) 1"
    and prog: "\<And>s r. Suc s < P \<Longrightarrow> r < P \<Longrightarrow>
      prog s r = gather_prog msg act off len P (B r) r (pos r) s (prog (Suc s) r)"
    and w: "stage w (ranks P (prog 0)) M E"
    and inv: "\<And>r. r < P \<Longrightarrow> block_holds P off len (B r) v 0 (pos r) (M r)"
  shows "\<exists>as w' M2. run (exec rc_fabric) as w = Some w' \<and> stage w' (ranks P (prog (P - 1))) M2 E \<and>
    (\<forall>r<P. block_holds P off len (B r) v (P - 1) (pos r) (M2 r) \<and> outside_buf n (B r) (M r) (M2 r))"
proof (rule stage_loop [where prog = prog and M = M and J = "\<lambda>s M'. \<forall>r<P. block_holds P off len (B r) v s (pos r) (M' r) \<and>
    outside_buf n (B r) (M r) (M' r)"])
  show "stage w (ranks P (prog 0)) M E" by (rule w)
  show "\<forall>r<P. block_holds P off len (B r) v 0 (pos r) (M r) \<and> outside_buf n (B r) (M r) (M r)"
    using inv by simp
  fix s w1 M1
  assume s: "s < P - 1" and w1: "stage w1 (ranks P (prog s)) M1 E"
    and J: "\<forall>r<P. block_holds P off len (B r) v s (pos r) (M1 r) \<and> outside_buf n (B r) (M r) (M1 r)"
  have s': "Suc s < P" using s by simp
  have "ranks P (prog s) = ranks P (\<lambda>r. gather_prog msg act off len P (B r) r (pos r) s (prog (Suc s) r))"
    by (rule ranks_cong) (rule prog [OF s'])
  with w1 have w1': "stage w1 (ranks P (\<lambda>r. gather_prog msg act off len P (B r) r (pos r) s (prog (Suc s) r))) M1 E"
    by simp
  obtain as w' M2 where "run (exec rc_fabric) as w1 = Some w'" "stage w' (ranks P (prog (Suc s))) M2 E"
      "\<forall>r<P. block_holds P off len (B r) v (Suc s) (pos r) (M2 r) \<and> outside_buf n (B r) (M1 r) (M2 r)"
    using gather_round [where B = B and act = act and pos = pos and v = v, OF ok idle act len pos s' w1'] J by blast
  with J show "\<exists>as w' M'. run (exec rc_fabric) as w1 = Some w' \<and> stage w' (ranks P (prog (Suc s))) M' E \<and>
      (\<forall>r<P. block_holds P off len (B r) v (Suc s) (pos r) (M' r) \<and> outside_buf n (B r) (M r) (M' r))"
    by (meson outside_buf_trans)
qed

end

interpretation chunk_ring: ring_layout P n "chunk_off n P" "chunk_len n P" for P n
  by unfold_locales (auto intro: chunk_end_le dest: chunks_disjoint)

interpretation segment_ring: ring_layout P "P * m" "\<lambda>c. c * m" "\<lambda>c. m" for P m
proof unfold_locales
  fix c d :: nat
  show "c < P \<Longrightarrow> c * m + m \<le> P * m" using mult_le_mono1 [of "Suc c" P m] by simp
  show "c \<noteq> d \<Longrightarrow> c * m + m \<le> d * m \<or> d * m + m \<le> c * m"
    using mult_le_mono1 [of "Suc c" d m] mult_le_mono1 [of "Suc d" c m] by (cases "c < d") auto
qed

end
