(* ===== verification/Traffic.thy ===== *)
theory Traffic
  imports Mesh
begin

text \<open>
  What a rank puts on the wire: the lengths of the messages its code posts, in order,
  when every call succeeds and every receive is filled completely.
\<close>

text \<open>\<open>l\<close> is the length of the receive posted last, which its completion reports.\<close>

primrec traffic :: "rprog \<Rightarrow> nat \<Rightarrow> nat list" where
  "traffic Return = (\<lambda>l. [])"
| "traffic (Throw e) = (\<lambda>l. [])"
| "traffic (IbvPostSend q wr k) = (\<lambda>l. sge_length (swr_sge wr) # traffic (k 0) l)"
| "traffic (IbvPostRecv q wr k) = (\<lambda>l. traffic (k 0) (sge_length (rwr_sge wr)))"
| "traffic (AwaitCq cq k) = (\<lambda>l. traffic (k 1 (good_wc 0 l)) l)"
| "traffic (Compute f p) = traffic p"

lemma traffic_wait [simp]: "traffic (wait_completion cq k) l = traffic (k (good_wc 0 l)) l"
  by (simp add: wait_completion_def)

lemma traffic_post [simp]:
  "traffic (post_send q mr a len 0 True k) l = to_u32 len # traffic k l"
  "traffic (post_recv q mr a len 0 k) l = traffic k (to_u32 len)"
  by (simp_all add: post_send_req post_recv_req)

lemma traffic_sendrecv:
  "traffic (sendrecv rb src rmr ra rl sb dst smr sa sl C k) l =
   (if sb then [to_u32 sl] else []) @
   (if rb then traffic (C (good_wc 0 (to_u32 rl)) k) (to_u32 rl) else traffic k l)"
  by (simp add: sendrecv_def)

text \<open>The traffic of a loop whose step \<open>s\<close> sends the messages \<open>ms s\<close>.\<close>

lemma traffic_loop:
  assumes step: "\<And>s l. Suc s < P \<Longrightarrow> \<exists>l'. traffic (prog s) l = ms s @ traffic (prog (Suc s)) l'"
    and fin: "\<And>l. traffic (prog (P - 1)) l = rest"
  shows "traffic (prog 0) l = concat (map ms [0..<P - 1]) @ rest"
proof -
  have "\<forall>l. traffic (prog (P - 1 - s)) l = concat (map ms [P - 1 - s..<P - 1]) @ rest" for s
  proof (induction s)
    case (Suc s)
    show ?case
    proof (cases "s < P - 1")
      case True
      then have e: "Suc (P - 1 - Suc s) = P - 1 - s" "Suc (P - 1 - Suc s) < P" by simp_all
      have "traffic (prog (P - 1 - Suc s)) l = ms (P - 1 - Suc s) @ concat (map ms [P - 1 - s..<P - 1]) @ rest" for l
        using step [OF e(2), of l] Suc.IH e(1) by auto
      moreover have "[P - 1 - Suc s..<P - 1] = (P - 1 - Suc s) # [P - 1 - s..<P - 1]"
        using True e(1) by (subst upt_conv_Cons) auto
      ultimately show ?thesis by simp
    qed (use Suc.IH in simp)
  qed (use fin in simp)
  from this [of "P - 1"] show ?thesis by simp
qed

lemma sum_behind:
  assumes "p < P"
  shows "(\<Sum>s<P - 1. g (behind P p s)) + g ((p + 1) mod P) = (\<Sum>c<P. g c :: nat)"
proof -
  have inj: "inj_on (behind P p) {..<P}"
    by (rule inj_onI) (metis assms dist_behind lessThan_iff)
  have img: "behind P p ` {..<P} = {..<P}"
  proof (rule card_subset_eq)
    show "behind P p ` {..<P} \<subseteq> {..<P}" using assms by auto
    show "card (behind P p ` {..<P}) = card {..<P}" by (rule card_image [OF inj])
  qed simp
  have last: "behind P p (P - 1) = (p + 1) mod P"
  proof -
    have "p + P - (P - 1) = p + 1" using assms by simp
    then show ?thesis by (simp only: behind_def)
  qed
  have "(\<Sum>c<P. g c) = (\<Sum>s<P. g (behind P p s))"
    using sum.reindex [OF inj, of g] unfolding img by simp
  also have "\<dots> = (\<Sum>s<Suc (P - 1). g (behind P p s))" using assms by simp
  also have "\<dots> = (\<Sum>s<P - 1. g (behind P p s)) + g ((p + 1) mod P)"
    by (simp only: sum.lessThan_Suc last)
  finally show ?thesis by simp
qed

lemma sum_chunk_len: "0 < P \<Longrightarrow> (\<Sum>c<P. chunk_len n P c) = n"
proof -
  have "(\<Sum>c<j. chunk_len n P c) = chunk_off n P j" for j
    by (induction j) (simp_all add: chunk_off_Suc)
  then show "0 < P \<Longrightarrow> ?thesis" by (simp add: chunk_off_all)
qed

end
