(* ===== verification/Allreduce_Ring.thy ===== *)
theory Allreduce_Ring
  imports Allreduce_Common Ring_Gather Traffic
begin

text \<open>
  \<^verbatim>\<open>src/collectives/allreduce_ring.cc\<close>: the ring allreduce of one rank as a
  resumption, and what a job of \<open>P\<close> ranks running it computes.
\<close>

subsection \<open>The code\<close>

text \<open>The messages of the two size checks; a number takes the place of each \<open>%\<close>.\<close>

abbreviation rs_mismatch :: string where
  "rs_mismatch \<equiv> ''allreduce_ring: reduce-scatter recv size mismatch, expected % got % -- ranks disagree on chunk size''"

abbreviation ag_mismatch :: string where
  "ag_mismatch \<equiv> ''allreduce_ring: allgather recv size mismatch, expected % got % -- ranks disagree on chunk size''"

definition ring_rs_step :: "allreduce_args \<Rightarrow> ChunkRange list \<Rightarrow> nat \<Rightarrow> rprog \<Rightarrow> rprog" where
  "ring_rs_step a chunks step k =
     (let P = comm_size (ar_comm a); R = comm_rank (ar_comm a);
          elem_size = dtype_size (ar_dtype a);
          send_to = mod_p P (R + 1); recv_from = mod_p P (R - 1);
          send_chunk = chunks ! nat (mod_p P (R - int step));
          recv_chunk = chunks ! nat (mod_p P (R - int step - 1))
      in when_do (cr_count recv_chunk > 0) (\<lambda>k.
           with_qp (ar_comm a) recv_from (\<lambda>q.
             post_recv q (ar_scratch_mr a) (ar_scratch a)
               (sz_mul (cr_count recv_chunk) elem_size) 0 k))
        (when_do (cr_count send_chunk > 0) (\<lambda>k.
           with_qp (ar_comm a) send_to (\<lambda>q.
             post_send q (ar_data_mr a) (ar_data a + sz_mul (cr_offset send_chunk) elem_size)
               (sz_mul (cr_count send_chunk) elem_size) 0 True k))
        (when_do (cr_count send_chunk > 0) (\<lambda>k. wait_completion SendCq (\<lambda>_. k))
        (when_do (cr_count recv_chunk > 0) (\<lambda>k. wait_completion RecvCq (\<lambda>wc.
           let expected = sz_mul (cr_count recv_chunk) elem_size
           in if wc_byte_len wc \<noteq> expected
              then Throw (RuntimeError rs_mismatch
                     [int expected, int (wc_byte_len wc)])
              else Compute (reduce_inplace (ar_data a + sz_mul (cr_offset recv_chunk) elem_size)
                      (ar_scratch a) (cr_count recv_chunk) (ar_dtype a) (ar_op a)) k)) k))))"

fun ring_rs_loop :: "allreduce_args \<Rightarrow> ChunkRange list \<Rightarrow> nat \<Rightarrow> nat \<Rightarrow> rprog \<Rightarrow> rprog" where
  "ring_rs_loop a chunks 0 step k = k"
| "ring_rs_loop a chunks (Suc n) step k =
     ring_rs_step a chunks step (ring_rs_loop a chunks n (Suc step) k)"

definition ring_ag_step :: "allreduce_args \<Rightarrow> ChunkRange list \<Rightarrow> nat \<Rightarrow> rprog \<Rightarrow> rprog" where
  "ring_ag_step a chunks step k =
     (let P = comm_size (ar_comm a); R = comm_rank (ar_comm a);
          elem_size = dtype_size (ar_dtype a);
          send_to = mod_p P (R + 1); recv_from = mod_p P (R - 1);
          send_chunk = chunks ! nat (mod_p P (R - int step + 1));
          recv_chunk = chunks ! nat (mod_p P (R - int step))
      in when_do (cr_count recv_chunk > 0) (\<lambda>k.
           with_qp (ar_comm a) recv_from (\<lambda>q.
             post_recv q (ar_data_mr a) (ar_data a + sz_mul (cr_offset recv_chunk) elem_size)
               (sz_mul (cr_count recv_chunk) elem_size) 0 k))
        (when_do (cr_count send_chunk > 0) (\<lambda>k.
           with_qp (ar_comm a) send_to (\<lambda>q.
             post_send q (ar_data_mr a) (ar_data a + sz_mul (cr_offset send_chunk) elem_size)
               (sz_mul (cr_count send_chunk) elem_size) 0 True k))
        (when_do (cr_count send_chunk > 0) (\<lambda>k. wait_completion SendCq (\<lambda>_. k))
        (when_do (cr_count recv_chunk > 0) (\<lambda>k. wait_completion RecvCq (\<lambda>wc.
           let expected = sz_mul (cr_count recv_chunk) elem_size
           in if wc_byte_len wc \<noteq> expected
              then Throw (RuntimeError ag_mismatch
                     [int expected, int (wc_byte_len wc)])
              else k)) k))))"

fun ring_ag_loop :: "allreduce_args \<Rightarrow> ChunkRange list \<Rightarrow> nat \<Rightarrow> nat \<Rightarrow> rprog \<Rightarrow> rprog" where
  "ring_ag_loop a chunks 0 step k = k"
| "ring_ag_loop a chunks (Suc n) step k =
     ring_ag_step a chunks step (ring_ag_loop a chunks n (Suc step) k)"

definition allreduce_ring :: "allreduce_args \<Rightarrow> rprog \<Rightarrow> rprog" where
  "allreduce_ring a k =
     (let P = comm_size (ar_comm a); elem_size = dtype_size (ar_dtype a)
      in if sz_mul (ar_count a) elem_size > mr_length (ar_data_mr a)
         then Throw (RuntimeError
                ''allreduce_ring: count exceeds registered data buffer length'' [])
         else if P = 1 then k
         else or_throw (compute_chunks (ar_count a) (nat (P mod 2 ^ 64))) (\<lambda>chunks.
           let max_chunk_elems = foldl max 0 (map cr_count chunks)
           in if ar_scratch_capacity a < max_chunk_elems
              then Throw (RuntimeError ''allreduce_ring: scratch buffer (% elems) smaller than largest chunk (% elems)''
                     [int (ar_scratch_capacity a), int max_chunk_elems])
              else ring_rs_loop a chunks (nat (P - 1)) 0
                     (ring_ag_loop a chunks (nat (P - 1)) 0 k)))"

subsection \<open>Reduction along the ring\<close>

text \<open>
  The reduction of one element along the ring: starting from the value of rank \<open>c\<close>,
  each of the next \<open>d\<close> ranks combines its own value with what it receives.
\<close>

fun ring_acc :: "(u32 \<Rightarrow> u32 \<Rightarrow> u32 result) \<Rightarrow> nat \<Rightarrow> (nat \<Rightarrow> u32) \<Rightarrow> nat \<Rightarrow> nat \<Rightarrow> u32 result" where
  "ring_acc f P x c 0 = Inr (x c)"
| "ring_acc f P x c (Suc d) =
     bind_res (ring_acc f P x c d) (\<lambda>v. f (x ((c + Suc d) mod P)) v)"

lemma ring_acc_prefix:
  "ring_acc f P x c d = Inr v \<Longrightarrow> e \<le> d \<Longrightarrow> \<exists>u. ring_acc f P x c e = Inr u"
proof (induction d arbitrary: v)
  case (Suc d)
  then show ?case by (cases "e = Suc d") (auto simp: bind_res_eq_Inr)
qed simp

subsection \<open>One step, with indices resolved\<close>

lemma chunk_bytes_exact:
  assumes "4 * n < 2 ^ 64" "c < P"
  shows "sz_mul (chunk_len n P c) 4 = 4 * chunk_len n P c"
    "sz_mul (chunk_off n P c) 4 = 4 * chunk_off n P c"
  using chunk_end_le [OF assms(2), of n] assms(1) by (simp_all add: sz_mul_exact)

lemma chunk_bytes_u32:
  assumes "4 * chunk_len n P 0 < 2 ^ 32"
  shows "to_u32 (4 * chunk_len n P c) = 4 * chunk_len n P c"
  using assms chunk_len_antimono [of 0 c n P] by (simp add: to_u32_exact)

definition rs_prog :: "nat \<Rightarrow> nat \<Rightarrow> allreduce_args \<Rightarrow> nat \<Rightarrow> nat \<Rightarrow> rprog \<Rightarrow> rprog" where
  "rs_prog P n a r s =
     (let c = behind P r s; d = behind P (behind P r 1) s in
      sendrecv (0 < chunk_len n P d) (behind P r 1) (ar_scratch_mr a) (ar_scratch a) (4 * chunk_len n P d)
        (0 < chunk_len n P c) ((r + 1) mod P) (ar_data_mr a) (ar_data a + 4 * chunk_off n P c)
        (4 * chunk_len n P c)
        (\<lambda>wc k. if wc_byte_len wc \<noteq> 4 * chunk_len n P d
           then Throw (RuntimeError rs_mismatch [int (4 * chunk_len n P d), int (wc_byte_len wc)])
           else Compute (reduce_inplace (ar_data a + 4 * chunk_off n P d) (ar_scratch a)
                  (chunk_len n P d) (ar_dtype a) (ar_op a)) k))"

lemma ring_rs_step_resolved:
  assumes ready: "allreduce_ready P n dt op need A E"
    and r: "r < P" and P: "2 \<le> P" and s: "Suc s < P"
  shows "ring_rs_step (A r) (map (chunk_range n P) [0..<P]) s k = rs_prog P n (A r) r s k"
proof -
  note rk = ready_rank [OF ready r]
  have n: "4 * n < 2 ^ 64" using ready by (simp add: allreduce_ready_def)
  have bb: "behind P (behind P r 1) s = behind P r (Suc s)"
    using behind_behind [of 1 s P r] r s by simp
  have idx: "mod_p (int P) (int r - int s) = int (behind P r s)"
    "mod_p (int P) (int r - int s - 1) = int (behind P (behind P r 1) s)"
    using mod_p_behind [of P s r] mod_p_behind [of P "Suc s" r] P s
    by (simp_all add: algebra_simps bb [unfolded One_nat_def])
  have P0: "0 < P" using P by simp
  show ?thesis
    unfolding ring_rs_step_def rs_prog_def sendrecv_def Let_def
    by (simp only: connectedD(1,2) [OF rk(1)] idx ring_peers [OF rk(1) r P])
       (simp add: chunk_bytes_exact [OF n] P0 cong: if_cong)
qed

definition data_buf :: "allreduce_args \<Rightarrow> gather_buf" where
  "data_buf a = \<lparr>gb_mr = ar_data_mr a, gb_base = ar_data a\<rparr>"

abbreviation ag_prog :: "nat \<Rightarrow> nat \<Rightarrow> allreduce_args \<Rightarrow> nat \<Rightarrow> nat \<Rightarrow> rprog \<Rightarrow> rprog" where
  "ag_prog P n a r s \<equiv> gather_prog ag_mismatch (\<lambda>c. 0 < chunk_len n P c) (chunk_off n P) (chunk_len n P)
     P (data_buf a) r ((r + 1) mod P) s"

lemma ring_ag_step_resolved:
  assumes ready: "allreduce_ready P n dt op need A E"
    and r: "r < P" and P: "2 \<le> P" and s: "Suc s < P"
  shows "ring_ag_step (A r) (map (chunk_range n P) [0..<P]) s k = ag_prog P n (A r) r s k"
proof -
  note rk = ready_rank [OF ready r]
  have n: "4 * n < 2 ^ 64" using ready by (simp add: allreduce_ready_def)
  have bb: "behind P ((r + 1) mod P) s = behind P (r + 1) s"
    "behind P ((r + 1) mod P) (Suc s) = behind P r s"
    using mod_behind [of s P "r + 1"] next_behind_Suc [of r P s] r s by simp_all
  have idx: "mod_p (int P) (int r - int s + 1) = int (behind P (r + 1) s)"
    "mod_p (int P) (int r - int s) = int (behind P r s)"
    using mod_p_behind [of P s r] mod_p_behind [of P s "r + 1"] P s
    by (simp_all add: algebra_simps)
  have P0: "0 < P" using P by simp
  show ?thesis
    unfolding ring_ag_step_def gather_prog_def sendrecv_def data_buf_def Let_def bb
    by (simp only: connectedD(1,2) [OF rk(1)] idx ring_peers [OF rk(1) r P])
       (simp add: chunk_bytes_exact [OF n] P0 cong: if_cong)
qed

subsection \<open>Reduce-scatter\<close>

definition in_chunk :: "nat \<Rightarrow> nat \<Rightarrow> nat \<Rightarrow> nat \<Rightarrow> bool" where
  "in_chunk n P c i \<longleftrightarrow> chunk_off n P c \<le> i \<and> i < chunk_off n P c + chunk_len n P c"

text \<open>
  The value of an element of chunk \<open>c\<close> on rank \<open>r\<close> after \<open>s\<close> steps: ranks up to \<open>s\<close> places
  ahead of \<open>c\<close> hold the reduction along the ring up to themselves.
\<close>

definition rs_val :: "(u32 \<Rightarrow> u32 \<Rightarrow> u32 result) \<Rightarrow> nat \<Rightarrow> (nat \<Rightarrow> u32) \<Rightarrow> nat \<Rightarrow> nat \<Rightarrow> nat \<Rightarrow> u32" where
  "rs_val f P x s r c = (if dist P r c \<le> s then projr (ring_acc f P x c (dist P r c)) else x r)"

definition rs_state :: "nat \<Rightarrow> nat \<Rightarrow> (u32 \<Rightarrow> u32 \<Rightarrow> u32 result) \<Rightarrow> (nat \<Rightarrow> allreduce_args) \<Rightarrow>
    (nat \<Rightarrow> nat \<Rightarrow> u32) \<Rightarrow> nat \<Rightarrow> nat \<Rightarrow> mem \<Rightarrow> bool" where
  "rs_state P n f A x s r m \<longleftrightarrow> (\<forall>c<P. \<forall>i. in_chunk n P c i \<longrightarrow>
     load32 m (ar_data (A r) + 4 * i) = rs_val f P (\<lambda>q. x q i) s r c)"

definition reducible :: "nat \<Rightarrow> nat \<Rightarrow> (u32 \<Rightarrow> u32 \<Rightarrow> u32 result) \<Rightarrow> (nat \<Rightarrow> nat \<Rightarrow> u32) \<Rightarrow> bool" where
  "reducible P n f x \<longleftrightarrow> (\<forall>c<P. \<forall>i. in_chunk n P c i \<longrightarrow>
     (\<exists>v. ring_acc f P (\<lambda>q. x q i) c (P - 1) = Inr v))"

lemma rs_stateD:
  "rs_state P n f A x s r m \<Longrightarrow> c < P \<Longrightarrow> in_chunk n P c i \<Longrightarrow>
   load32 m (ar_data (A r) + 4 * i) = rs_val f P (\<lambda>q. x q i) s r c"
  by (simp add: rs_state_def)

lemma rs_val_other:
  "r < P \<Longrightarrow> c < P \<Longrightarrow> Suc s < P \<Longrightarrow> c \<noteq> behind P r (Suc s) \<Longrightarrow>
   rs_val f P x (Suc s) r c = rs_val f P x s r c"
proof -
  assume a: "r < P" "c < P" "Suc s < P" "c \<noteq> behind P r (Suc s)"
  then have "dist P r c \<noteq> Suc s" using behind_dist [of r P c] by metis
  then show ?thesis by (simp add: rs_val_def)
qed

lemma rs_val_new:
  assumes "r < P" "Suc s < P" "d = behind P r (Suc s)"
    and "ring_acc f P x d (P - 1) = Inr v"
  shows "f (x r) (rs_val f P x s (behind P r 1) d) = Inr (rs_val f P x (Suc s) r d)"
proof -
  have dist: "dist P r d = Suc s" "dist P (behind P r 1) d = s"
    using dist_behind [of r P "Suc s"] dist_prev [of r P "Suc s"] assms(1-3) by simp_all
  obtain u where u: "ring_acc f P x d (Suc s) = Inr u"
  proof -
    have "Suc s \<le> P - 1" using assms(2) by simp
    then show thesis using ring_acc_prefix [OF assms(4)] that by blast
  qed
  have "(d + Suc s) mod P = r" using assms(1-3) by (simp only: behind_ahead)
  with u obtain b where b: "ring_acc f P x d s = Inr b" "f (x r) b = Inr u"
    by (auto simp: bind_res_eq_Inr simp del: add_Suc_right)
  show ?thesis unfolding rs_val_def dist using u b by (simp del: ring_acc.simps)
qed

lemma in_chunk_nth: "j < chunk_len n P c \<Longrightarrow> in_chunk n P c (chunk_off n P c + j)"
  by (simp add: in_chunk_def)

lemma in_chunkE:
  assumes "in_chunk n P c i"
  obtains j where "j < chunk_len n P c" "i = chunk_off n P c + j"
  using assms that [of "i - chunk_off n P c"] by (auto simp: in_chunk_def)

lemma in_chunk_less: "c < P \<Longrightarrow> in_chunk n P c i \<Longrightarrow> i < n"
  using chunk_end_le [of c P n] by (simp add: in_chunk_def)

lemma in_other_chunk:
  "in_chunk n P c i \<Longrightarrow> c \<noteq> d \<Longrightarrow> i < chunk_off n P d \<or> chunk_off n P d + chunk_len n P d \<le> i"
  using chunks_disjoint [of c d n P] by (auto simp: in_chunk_def)

lemma chunk_scratch_disjoint:
  assumes b: "buffers_ok n need a e" and need: "chunk_len n P 0 \<le> need" and c: "c < P"
  shows "disjoint_ranges (ar_data a + 4 * chunk_off n P c) (4 * chunk_len n P c)
     (ar_scratch a) (4 * chunk_len n P d)"
proof (rule disjoint_ranges_sub)
  show "disjoint_ranges (ar_data a) (4 * n) (ar_scratch a) (4 * ar_scratch_capacity a)"
    using b by (simp add: buffers_ok_def)
  show "ar_scratch a + 4 * chunk_len n P d \<le> ar_scratch a + 4 * ar_scratch_capacity a"
    using b need chunk_len_antimono [of 0 d n P] by (simp add: buffers_ok_def)
qed (use chunk_end_le [OF c, of n] in simp_all)

lemma rs_rank_step:
  assumes ready: "allreduce_ready P n dt op need A E" and need: "chunk_len n P 0 \<le> need"
    and r: "r < P" and s: "Suc s < P"
    and red: "reducible P n (elem_op dt op) x"
    and mine: "rs_state P n (elem_op dt op) A x s r m"
    and prev: "rs_state P n (elem_op dt op) A x s (behind P r 1) m'"
    and d: "d = behind P (behind P r 1) s"
  obtains m2 where
    "reduce_inplace (ar_data (A r) + 4 * chunk_off n P d) (ar_scratch (A r)) (chunk_len n P d) dt op
       (mem_write m (ar_scratch (A r)) (mem_read m' (ar_data (A (behind P r 1)) + 4 * chunk_off n P d)
          (4 * chunk_len n P d))) = Inr m2"
    "rs_state P n (elem_op dt op) A x (Suc s) r m2" "same_outside (A r) m m2"
proof -
  let ?q = "behind P r 1" let ?f = "elem_op dt op"
  note rk = ready_rank [OF ready r]
  have d': "d = behind P r (Suc s)" and dP: "d < P"
    using behind_behind [of 1 s P r] r s unfolding d by simp_all
  have val: "?f (load32 m (ar_data (A r) + 4 * (chunk_off n P d + j)))
      (load32 m' (ar_data (A ?q) + 4 * chunk_off n P d + 4 * j)) =
      Inr (rs_val ?f P (\<lambda>q. x q (chunk_off n P d + j)) (Suc s) r d)" if j: "j < chunk_len n P d" for j
  proof -
    let ?i = "chunk_off n P d + j"
    have i: "in_chunk n P d ?i" using j by (rule in_chunk_nth)
    obtain v where "ring_acc ?f P (\<lambda>q. x q ?i) d (P - 1) = Inr v"
      using red dP i unfolding reducible_def by blast
    note new = rs_val_new [OF r s d' this]
    have "load32 m (ar_data (A r) + 4 * ?i) = x r ?i"
      using rs_stateD [OF mine dP i] dist_behind [OF r s] unfolding rs_val_def d' by simp
    moreover have "load32 m' (ar_data (A ?q) + 4 * chunk_off n P d + 4 * j) =
        rs_val ?f P (\<lambda>q. x q ?i) s ?q d"
      using rs_stateD [OF prev dP i] by (simp add: algebra_simps)
    ultimately show ?thesis using new by simp
  qed
  obtain m2 where m2: "reduce_inplace (ar_data (A r) + 4 * chunk_off n P d) (ar_scratch (A r))
       (chunk_len n P d) dt op (mem_write m (ar_scratch (A r))
          (mem_read m' (ar_data (A ?q) + 4 * chunk_off n P d) (4 * chunk_len n P d))) = Inr m2"
    "\<And>j. j < chunk_len n P d \<Longrightarrow> load32 m2 (ar_data (A r) + 4 * (chunk_off n P d + j)) =
       rs_val ?f P (\<lambda>q. x q (chunk_off n P d + j)) (Suc s) r d"
    "\<And>i. i < n \<Longrightarrow> i < chunk_off n P d \<or> chunk_off n P d + chunk_len n P d \<le> i \<Longrightarrow>
       load32 m2 (ar_data (A r) + 4 * i) = load32 m (ar_data (A r) + 4 * i)"
    "same_outside (A r) m m2"
    by (rule reduce_step_mem [OF rk(5,2) _ _ val])
       (use need chunk_len_antimono [of 0 d n P] chunk_end_le [OF dP, of n] in auto)
  have "load32 m2 (ar_data (A r) + 4 * i) = rs_val ?f P (\<lambda>q. x q i) (Suc s) r c"
    if c: "c < P" and i: "in_chunk n P c i" for c i
  proof (cases "c = d")
    case True
    with i obtain j where "j < chunk_len n P d" "i = chunk_off n P d + j" by (blast elim: in_chunkE)
    with m2(2) True show ?thesis by blast
  next
    case False
    then have "load32 m2 (ar_data (A r) + 4 * i) = load32 m (ar_data (A r) + 4 * i)"
      using m2(3) in_chunk_less [OF c i] in_other_chunk [OF i] by blast
    also have "\<dots> = rs_val ?f P (\<lambda>q. x q i) s r c"
      by (rule rs_stateD [OF mine c i])
    finally show ?thesis
      using rs_val_other [OF r c s] False d' by simp
  qed
  then have "rs_state P n ?f A x (Suc s) r m2" unfolding rs_state_def by blast
  with m2(1,4) show thesis using that by blast
qed

lemma rs_round:
  assumes ready: "allreduce_ready P n dt op need A E" and need: "chunk_len n P 0 \<le> need"
    and idle: "\<And>x. idle (E x)" and s: "Suc s < P"
    and red: "reducible P n (elem_op dt op) x"
    and w: "stage w (ranks P (\<lambda>r. rs_prog P n (A r) r s (k r))) M E"
    and inv: "\<And>r. r < P \<Longrightarrow> rs_state P n (elem_op dt op) A x s r (M r)"
  shows "\<exists>as w' M2. run (exec rc_fabric) as w = Some w' \<and>
    stage w' (ranks P k) M2 E \<and>
    (\<forall>r<P. rs_state P n (elem_op dt op) A x (Suc s) r (M2 r) \<and> same_outside (A r) (M r) (M2 r))"
proof -
  let ?f = "elem_op dt op" let ?q = "\<lambda>r. behind P r 1"
  let ?d = "\<lambda>r. behind P (?q r) s" let ?c = "\<lambda>r. behind P r s"
  let ?m1 = "\<lambda>r. mem_write (M r) (ar_scratch (A r))
     (mem_read (M (?q r)) (ar_data (A (?q r)) + 4 * chunk_off n P (?d r)) (4 * chunk_len n P (?d r)))"
  have P: "0 < P" using s by simp
  have "\<exists>m2. reduce_inplace (ar_data (A r) + 4 * chunk_off n P (?d r)) (ar_scratch (A r))
       (chunk_len n P (?d r)) dt op (?m1 r) = Inr m2 \<and>
     rs_state P n ?f A x (Suc s) r m2 \<and> same_outside (A r) (M r) m2" if r: "r < P" for r
    using rs_rank_step [OF ready need r s red inv [OF r] inv [of "?q r"] refl] P by (metis behind_less)
  then obtain R where R: "\<And>r. r < P \<Longrightarrow> reduce_inplace (ar_data (A r) + 4 * chunk_off n P (?d r))
       (ar_scratch (A r)) (chunk_len n P (?d r)) dt op (?m1 r) = Inr (R r) \<and>
     rs_state P n ?f A x (Suc s) r (R r) \<and> same_outside (A r) (M r) (R r)" by metis
  have R0: "R r = M r" if "r < P" "chunk_len n P (?d r) = 0" for r
    using R [OF that(1)] that(2) by (simp add: reduce_inplace_loop)
  have len: "4 * chunk_len n P c < 2 ^ 32" for c
    using ready need chunk_len_antimono [of 0 c n P] by (simp add: allreduce_ready_def)
  have bounds: "chunk_off n P c + chunk_len n P c \<le> n" if "c < P" for c
    using chunk_end_le [OF that] .
  have "\<exists>as w'. run (exec rc_fabric) as w = Some w' \<and>
      stage w' (ranks P k) (\<lambda>y. if y < P then R y else M y) E"
  proof (rule sendrecv_round [OF w idle])
    fix r assume r: "r < P"
    note rk = ready_rank [OF ready r]
    show "rs_prog P n (A r) r s (k r) =
      sendrecv (0 < chunk_len n P (?d r)) (?q r) (ar_scratch_mr (A r)) (ar_scratch (A r))
        (4 * chunk_len n P (?d r)) (0 < chunk_len n P (?c r)) ((r + 1) mod P) (ar_data_mr (A r))
        (ar_data (A r) + 4 * chunk_off n P (?c r)) (4 * chunk_len n P (?c r))
        (\<lambda>wc k. if wc_byte_len wc \<noteq> 4 * chunk_len n P (?d r)
           then Throw (RuntimeError rs_mismatch [int (4 * chunk_len n P (?d r)), int (wc_byte_len wc)])
           else Compute (reduce_inplace (ar_data (A r) + 4 * chunk_off n P (?d r)) (ar_scratch (A r))
                  (chunk_len n P (?d r)) dt op) k) (k r)"
      by (simp only: rs_prog_def Let_def rk(3,4))
    show "?q r < P \<and> (r + 1) mod P < P \<and> (?q r + 1) mod P = r \<and> ?q ((r + 1) mod P) = r"
      using P r behind_next [OF r] next_behind [OF r] by simp
    show "(0 < chunk_len n P (?c (?q r))) = (0 < chunk_len n P (?d r)) \<and>
       (0 < chunk_len n P (?d r) \<longrightarrow> 4 * chunk_len n P (?c (?q r)) = 4 * chunk_len n P (?d r) \<and>
          4 * chunk_len n P (?d r) < 2 ^ 32)"
      using len by simp
    show "registered (E r) (ar_data_mr (A r)) \<and> mr_addr (ar_data_mr (A r)) \<le>
        ar_data (A r) + 4 * chunk_off n P (?c r) \<and>
      ar_data (A r) + 4 * chunk_off n P (?c r) + 4 * chunk_len n P (?c r) \<le>
        mr_addr (ar_data_mr (A r)) + mr_length (ar_data_mr (A r))"
      using rk(5) bounds [of "?c r"] P by (auto simp: buffers_ok_def)
    show "registered (E r) (ar_scratch_mr (A r)) \<and> mr_addr (ar_scratch_mr (A r)) \<le> ar_scratch (A r) \<and>
      ar_scratch (A r) + 4 * chunk_len n P (?d r) \<le>
        mr_addr (ar_scratch_mr (A r)) + mr_length (ar_scratch_mr (A r))"
      using rk(5) need chunk_len_antimono [of 0 "?d r" n P] by (auto simp: buffers_ok_def)
    show "disjoint_ranges (ar_data (A r) + 4 * chunk_off n P (?c r)) (4 * chunk_len n P (?c r))
        (ar_scratch (A r)) (4 * chunk_len n P (?d r))"
      by (rule chunk_scratch_disjoint [OF rk(5) need]) (use P in simp)
    show "lsteps
      (if 0 < chunk_len n P (?d r) then
         (if wc_byte_len (good_wc (?q r) (4 * chunk_len n P (?d r))) \<noteq> 4 * chunk_len n P (?d r)
          then Throw (RuntimeError rs_mismatch [int (4 * chunk_len n P (?d r)),
             int (wc_byte_len (good_wc (?q r) (4 * chunk_len n P (?d r))))])
          else Compute (reduce_inplace (ar_data (A r) + 4 * chunk_off n P (?d r)) (ar_scratch (A r))
                  (chunk_len n P (?d r)) dt op) (k r)) else k r,
       if 0 < chunk_len n P (?d r) then mem_write (M r) (ar_scratch (A r))
         (mem_read (M (?q r)) (ar_data (A (?q r)) + 4 * chunk_off n P (?c (?q r)))
           (4 * chunk_len n P (?d r))) else M r, E r)
      (k r, if r < P then R r else M r, E r)"
      using R [OF r] R0 [OF r] r
      by (cases "0 < chunk_len n P (?d r)") (auto intro: r_into_rtranclp)
  qed (simp_all)
  then obtain as w' where "run (exec rc_fabric) as w = Some w'"
      "stage w' (ranks P k) (\<lambda>y. if y < P then R y else M y) E" by blast
  with R show ?thesis
    by (intro exI [of _ as] exI [of _ w'] exI [of _ "\<lambda>y. if y < P then R y else M y"]) simp
qed

text \<open>The first phase of all ranks.\<close>

lemma rs_loop_stage:
  assumes ready: "allreduce_ready P n dt op need A E" and need: "chunk_len n P 0 \<le> need"
    and idle: "\<And>x. idle (E x)" and red: "reducible P n (elem_op dt op) x"
    and prog: "\<And>s r. Suc s < P \<Longrightarrow> r < P \<Longrightarrow> prog s r = rs_prog P n (A r) r s (prog (Suc s) r)"
    and w: "stage w (ranks P (prog 0)) M E"
    and init: "\<And>r. r < P \<Longrightarrow> rs_state P n (elem_op dt op) A x 0 r (M r)"
  shows "\<exists>as w' M2. run (exec rc_fabric) as w = Some w' \<and> stage w' (ranks P (prog (P - 1))) M2 E \<and>
    (\<forall>r<P. rs_state P n (elem_op dt op) A x (P - 1) r (M2 r) \<and> same_outside (A r) (M r) (M2 r))"
proof (rule stage_loop [where prog = prog and M = M and J = "\<lambda>s M'. \<forall>r<P.
    rs_state P n (elem_op dt op) A x s r (M' r) \<and> same_outside (A r) (M r) (M' r)"])
  show "stage w (ranks P (prog 0)) M E" by (rule w)
  show "\<forall>r<P. rs_state P n (elem_op dt op) A x 0 r (M r) \<and> same_outside (A r) (M r) (M r)"
    using init by simp
  fix s w1 M1
  assume s: "s < P - 1" and w1: "stage w1 (ranks P (prog s)) M1 E"
    and J: "\<forall>r<P. rs_state P n (elem_op dt op) A x s r (M1 r) \<and> same_outside (A r) (M r) (M1 r)"
  have s': "Suc s < P" using s by simp
  have "ranks P (prog s) = ranks P (\<lambda>r. rs_prog P n (A r) r s (prog (Suc s) r))"
    by (rule ranks_cong) (rule prog [OF s'])
  with w1 have w1': "stage w1 (ranks P (\<lambda>r. rs_prog P n (A r) r s (prog (Suc s) r))) M1 E" by simp
  obtain as w' M2 where "run (exec rc_fabric) as w1 = Some w'" "stage w' (ranks P (prog (Suc s))) M2 E"
      "\<forall>r<P. rs_state P n (elem_op dt op) A x (Suc s) r (M2 r) \<and> same_outside (A r) (M1 r) (M2 r)"
    using rs_round [OF ready need idle s' red w1'] J by blast
  with J show "\<exists>as w' M'. run (exec rc_fabric) as w1 = Some w' \<and> stage w' (ranks P (prog (Suc s))) M' E \<and>
      (\<forall>r<P. rs_state P n (elem_op dt op) A x (Suc s) r (M' r) \<and> same_outside (A r) (M r) (M' r))"
    by (meson same_outside_trans)
qed

subsection \<open>Both phases\<close>

text \<open>The chunk an element belongs to.\<close>

definition chunk_of :: "nat \<Rightarrow> nat \<Rightarrow> nat \<Rightarrow> nat" where
  "chunk_of n P i = length (filter (\<lambda>c. chunk_off n P (Suc c) \<le> i) [0..<P])"

lemma chunk_of_eq:
  assumes "c < P" and i: "in_chunk n P c i"
  shows "chunk_of n P i = c"
proof -
  have "chunk_off n P (Suc c') \<le> i \<longleftrightarrow> c' < c" for c'
  proof
    assume "c' < c"
    then show "chunk_off n P (Suc c') \<le> i"
      using chunk_off_mono [of "Suc c'" c n P] i by (simp add: in_chunk_def)
  next
    assume "chunk_off n P (Suc c') \<le> i"
    then show "c' < c"
      using chunk_off_mono [of "Suc c" "Suc c'" n P] i by (force simp: in_chunk_def chunk_off_Suc)
  qed
  then have "chunk_of n P i = length (filter (\<lambda>c'. c' < c) ([0..<c] @ [c..<P]))"
    using assms(1) upt_add_eq_append [of 0 c "P - c"] by (simp add: chunk_of_def)
  also have "\<dots> = c" by (simp add: filter_True filter_False)
  finally show ?thesis .
qed

lemma chunks_of_ready:
  assumes "allreduce_ready P n dt op need A E" and "r < P"
  shows "compute_chunks n (nat (int P mod 2 ^ 64)) = Inr (map (chunk_range n P) [0..<P])"
proof -
  have b: "P < 2 ^ 31" "4 * n < 2 ^ 64" using assms by (simp_all add: allreduce_ready_def)
  have "nat (int P mod 2 ^ 64) = P" using b(1) by simp
  moreover have "0 < P" "n < 2 ^ 64" using assms(2) b(2) by simp_all
  ultimately show ?thesis by (simp add: compute_chunks_closed)
qed

lemma allreduce_ring_unfold:
  assumes ready: "allreduce_ready P n dt op need A E" and need: "chunk_len n P 0 \<le> need"
    and r: "r < P" and P: "2 \<le> P"
  shows "allreduce_ring (A r) k =
    ring_rs_loop (A r) (map (chunk_range n P) [0..<P]) (P - 1) 0
      (ring_ag_loop (A r) (map (chunk_range n P) [0..<P]) (P - 1) 0 k)"
proof -
  note rk = ready_rank [OF ready r]
  have n: "4 * n < 2 ^ 64" using ready by (simp add: allreduce_ready_def)
  have max: "foldl max 0 (map cr_count (map (chunk_range n P) [0..<P])) = chunk_len n P 0"
    using chunk_len_max [of P n] P by (simp add: o_def)
  have "\<not> sz_mul n 4 > mr_length (ar_data_mr (A r))"
    using rk(5) n by (auto simp: buffers_ok_def sz_mul_exact)
  moreover have "chunk_len n P 0 \<le> ar_scratch_capacity (A r)"
    using rk(5) need by (simp add: buffers_ok_def)
  moreover have "nat (int P - 1) = P - 1" using P by simp
  ultimately show ?thesis
    unfolding allreduce_ring_def Let_def
    using P by (simp only: rk(2-4) connectedD(1,2) [OF rk(1)] chunks_of_ready [OF ready r]
        or_throw_simps max dtype_size_4) simp
qed

lemma rs_loop_prog:
  assumes "allreduce_ready P n dt op need A E" "2 \<le> P" "Suc s < P" "r < P"
  shows "ring_rs_loop (A r) (map (chunk_range n P) [0..<P]) (P - 1 - s) s k =
    rs_prog P n (A r) r s (ring_rs_loop (A r) (map (chunk_range n P) [0..<P]) (P - 1 - Suc s) (Suc s) k)"
proof -
  have "P - 1 - s = Suc (P - 1 - Suc s)" using assms(3) by simp
  then show ?thesis by (simp only: ring_rs_loop.simps ring_rs_step_resolved [OF assms(1,4,2,3)])
qed

lemma ag_loop_prog:
  assumes "allreduce_ready P n dt op need A E" "2 \<le> P" "Suc s < P" "r < P"
  shows "ring_ag_loop (A r) (map (chunk_range n P) [0..<P]) (P - 1 - s) s k =
    ag_prog P n (A r) r s (ring_ag_loop (A r) (map (chunk_range n P) [0..<P]) (P - 1 - Suc s) (Suc s) k)"
proof -
  have "P - 1 - s = Suc (P - 1 - Suc s)" using assms(3) by simp
  then show ?thesis by (simp only: ring_ag_loop.simps ring_ag_step_resolved [OF assms(1,4,2,3)])
qed

text \<open>After reduce-scatter, rank \<open>r\<close> holds the complete reduction of the chunk ahead of it.\<close>

lemma rs_state_final:
  assumes "rs_state P n f A x (P - 1) r m" and r: "r < P"
    and v: "\<And>i. i < n \<Longrightarrow> ring_acc f P (\<lambda>q. x q i) (chunk_of n P i) (P - 1) = Inr (v i)"
  shows "block_holds P (chunk_off n P) (chunk_len n P) (data_buf (A r)) v 0 ((r + 1) mod P) m"
  unfolding block_holds_def
proof (intro allI impI)
  fix c j assume c: "c < P" "dist P ((r + 1) mod P) c \<le> 0" and j: "j < chunk_len n P c"
  let ?i = "chunk_off n P c + j"
  have "c = (r + 1) mod P" using dist_iff [of "(r + 1) mod P" P c 0] c r by simp
  moreover have "(((r + 1) mod P) + (P - 1)) mod P = r"
    using mod_add_left_eq [of "r + 1" P "P - 1"] r by simp
  ultimately have d: "dist P r c = P - 1"
    using dist_iff [OF r c(1), of "P - 1"] r by simp
  have i: "in_chunk n P c ?i" using j by (rule in_chunk_nth)
  have "load32 m (ar_data (A r) + 4 * ?i) = rs_val f P (\<lambda>q. x q ?i) (P - 1) r c"
    by (rule rs_stateD [OF assms(1) c(1) i])
  also have "\<dots> = v ?i"
    using v [OF in_chunk_less [OF c(1) i]] chunk_of_eq [OF c(1) i] by (simp add: rs_val_def d)
  finally show "load32 m (gb_base (data_buf (A r)) + 4 * ?i) = v ?i" by (simp add: data_buf_def)
qed

lemma reducibleI:
  assumes "\<And>i. i < n \<Longrightarrow> ring_acc f P (\<lambda>q. x q i) (chunk_of n P i) (P - 1) = Inr (v i)"
  shows "reducible P n f x"
  unfolding reducible_def using assms chunk_of_eq in_chunk_less by metis

lemma outside_buf_same_outside:
  "ar_count a = n \<Longrightarrow> outside_buf n (data_buf a) m m' \<Longrightarrow> same_outside a m m'"
  by (simp add: outside_buf_def same_outside_def data_buf_def)

lemma ring_stage:
  assumes ready: "allreduce_ready P n dt op need A E" and need: "chunk_len n P 0 \<le> need"
    and idle: "\<And>x. idle (E x)" and P: "2 \<le> P"
    and w: "stage w (ranks P (\<lambda>r. allreduce_ring (A r) (k r))) M E"
    and v: "\<And>i. i < n \<Longrightarrow>
      ring_acc (elem_op dt op) P (\<lambda>q. elem A M q i) (chunk_of n P i) (P - 1) = Inr (v i)"
  shows "\<exists>as w' M2. run (exec rc_fabric) as w = Some w' \<and> stage w' (ranks P k) M2 E \<and>
    (\<forall>r<P. (\<forall>i<n. elem A M2 r i = v i) \<and> same_outside (A r) (M r) (M2 r))"
proof -
  let ?cs = "map (chunk_range n P) [0..<P]" and ?f = "elem_op dt op"
  let ?ag = "\<lambda>s r. ring_ag_loop (A r) ?cs (P - 1 - s) s (k r)"
  let ?rs = "\<lambda>s r. ring_rs_loop (A r) ?cs (P - 1 - s) s (?ag 0 r)"
  have "ranks P (\<lambda>r. allreduce_ring (A r) (k r)) = ranks P (?rs 0)"
    by (rule ranks_cong) (simp only: allreduce_ring_unfold [OF ready need _ P] diff_zero)
  with w have w0: "stage w (ranks P (?rs 0)) M E" by simp
  have init: "rs_state P n ?f A (elem A M) 0 r (M r)" if "r < P" for r
    unfolding rs_state_def rs_val_def elem_def using that dist_iff [OF that, of _ 0] by auto
  obtain as w1 M1 where 1: "run (exec rc_fabric) as w = Some w1" "stage w1 (ranks P (?rs (P - 1))) M1 E"
      "\<And>r. r < P \<Longrightarrow> rs_state P n ?f A (elem A M) (P - 1) r (M1 r) \<and> same_outside (A r) (M r) (M1 r)"
    using rs_loop_stage [OF ready need idle reducibleI [OF v] rs_loop_prog [OF ready P] w0 init] by blast
  have w1: "stage w1 (ranks P (?ag 0)) M1 E" using 1(2) by simp
  have ok: "gather_ok n (data_buf (A r)) (E r)" if "r < P" for r
    using ready_rank(5) [OF ready that] by (auto simp: gather_ok_def buffers_ok_def data_buf_def)
  have len: "4 * chunk_len n P c < 2 ^ 32" for c
    using ready need chunk_len_antimono [of 0 c n P] by (simp add: allreduce_ready_def)
  have pos: "(r + 1) mod P < P \<and> (behind P r 1 + 1) mod P = behind P ((r + 1) mod P) 1" if "r < P" for r
    using that P by (simp add: behind_next [simplified] next_behind [simplified])
  obtain bs w2 M2 where 2: "run (exec rc_fabric) bs w1 = Some w2" "stage w2 (ranks P (?ag (P - 1))) M2 E"
      "\<And>r. r < P \<Longrightarrow> block_holds P (chunk_off n P) (chunk_len n P) (data_buf (A r)) v (P - 1) ((r + 1) mod P) (M2 r)
         \<and> outside_buf n (data_buf (A r)) (M1 r) (M2 r)"
    using chunk_ring.gather_loop [where B = "\<lambda>r. data_buf (A r)" and pos = "\<lambda>r. (r + 1) mod P" and v = v,
        OF ok idle _ len pos ag_loop_prog [OF ready P] w1] rs_state_final [OF _ _ v] 1(3) by auto
  have "elem A M2 r i = v i" if r: "r < P" and i: "i < n" for r i
  proof -
    obtain c where c: "c < P" "in_chunk n P c i"
      using chunk_cover [OF i, of P] P unfolding in_chunk_def by (metis less_le_trans zero_less_numeral)
    then obtain j where "j < chunk_len n P c" "i = chunk_off n P c + j" by (blast elim: in_chunkE)
    moreover have "dist P ((r + 1) mod P) c \<le> P - 1" using P by (intro dist_le) simp
    ultimately show ?thesis
      using 2(3) [OF r] c(1) by (auto simp: block_holds_def data_buf_def elem_def)
  qed
  moreover have "same_outside (A r) (M r) (M2 r)" if "r < P" for r
    using 1(3) [OF that] 2(3) [OF that] outside_buf_same_outside same_outside_trans
      ready_rank(2) [OF ready that] by blast
  ultimately show ?thesis using run_appendI [OF 1(1) 2(1)] 2(2) by (auto intro!: exI)
qed

subsection \<open>Discipline\<close>

lemma disc_rs_prog:
  assumes ready: "allreduce_ready P n dt op need A E" and need: "chunk_len n P 0 \<le> need"
    and r: "r < P" and k: "disc k None None"
  shows "disc (rs_prog P n (A r) r s k) None None"
  unfolding rs_prog_def Let_def
proof (rule disc_sendrecv)
  show "disjoint_ranges (ar_data (A r) + 4 * chunk_off n P (behind P r s)) (4 * chunk_len n P (behind P r s))
      (ar_scratch (A r)) (4 * chunk_len n P (behind P (behind P r 1) s))"
    by (rule chunk_scratch_disjoint [OF ready_rank(5) [OF ready r] need]) (use r in simp)
qed (use k in simp_all)

lemma disc_allreduce_ring:
  assumes ready: "allreduce_ready P n dt op need A E" and need: "chunk_len n P 0 \<le> need"
    and r: "r < P" and P: "2 \<le> P" and k: "disc k None None"
  shows "disc (allreduce_ring (A r) k) None None"
proof -
  let ?cs = "map (chunk_range n P) [0..<P]"
  let ?ag = "\<lambda>s. ring_ag_loop (A r) ?cs (P - 1 - s) s k"
  have "disc (?ag 0) None None"
  proof (rule disc_loop [where prog = ?ag])
    show "disc (?ag s) None None" if "Suc s < P" "disc (?ag (Suc s)) None None" for s
      unfolding ag_loop_prog [OF ready P that(1) r]
      by (rule chunk_ring.disc_gather_prog) (use r that in simp_all)
  qed (use k in simp)
  moreover have "disc (ring_rs_loop (A r) ?cs (P - 1 - 0) 0 k') None None" if k': "disc k' None None" for k'
  proof (rule disc_loop [where prog = "\<lambda>s. ring_rs_loop (A r) ?cs (P - 1 - s) s k'"])
    show "disc (ring_rs_loop (A r) ?cs (P - 1 - s) s k') None None"
      if "Suc s < P" "disc (ring_rs_loop (A r) ?cs (P - 1 - Suc s) (Suc s) k') None None" for s
      unfolding rs_loop_prog [OF ready P that(1) r] by (rule disc_rs_prog [OF ready need r that(2)])
  qed (use k' in simp)
  ultimately show ?thesis
    unfolding allreduce_ring_unfold [OF ready need r P] by simp
qed

text \<open>A single rank has nothing to do.\<close>

lemma allreduce_ring_single:
  assumes "allreduce_ready 1 n dt op need A E"
  shows "allreduce_ring (A 0) k = k"
proof -
  note rk = ready_rank [OF assms, of 0, simplified]
  have n: "4 * n < 2 ^ 64" using assms by (simp add: allreduce_ready_def)
  have "\<not> sz_mul n 4 > mr_length (ar_data_mr (A 0))"
    using rk(5) n by (auto simp: buffers_ok_def sz_mul_exact)
  then show ?thesis
    unfolding allreduce_ring_def Let_def rk(2) by (simp add: connectedD(2) [OF rk(1)])
qed

subsection \<open>Correctness\<close>

lemma allreduce_ring_always_ends:
  assumes F: "rc_contract F \<alpha>" and procs: "procs w = ranks P (\<lambda>r. allreduce_ring (A r) Return)"
    and idle: "\<And>x. idle (\<alpha> (net w) x)"
    and ready: "allreduce_ready P n dt op (chunk_len n P 0) A (\<alpha> (net w))"
    and v: "\<And>i. i < n \<Longrightarrow>
      ring_acc (elem_op dt op) P (\<lambda>q. elem A (mems w) q i) (chunk_of n P i) (P - 1) = Inr (v i)"
  shows "always_ends (exec F) w (\<lambda>f. (\<forall>r. procs f r = Return) \<and>
     (\<forall>r<P. (\<forall>i<n. elem A (mems f) r i = v i) \<and> same_outside (A r) (mems w r) (mems f r)))"
proof (cases "P = 1")
  case False
  then have P: "2 \<le> P" using ready by (simp add: allreduce_ready_def)
  show ?thesis
  proof (rule job_always_ends [OF F procs idle])
    show "disc (allreduce_ring (A r) Return) None None" if "r < P" for r
      using disc_allreduce_ring [OF ready order_refl that P] by simp
  qed (rule ring_stage [OF ready order_refl idle P _ v])
next
  case True
  have "always_ends (exec F) w (\<lambda>f. (\<forall>r. procs f r = Return) \<and>
     (\<forall>r<1. (\<forall>i<n. elem A (mems f) r i = v i) \<and> same_outside (A r) (mems w r) (mems f r)))"
  proof (rule job_always_ends [where P = 1 and p = "\<lambda>_. Return", OF F _ idle])
    show "procs w = ranks 1 (\<lambda>_. Return)"
      using procs allreduce_ring_single [OF ready [unfolded True]] by (auto simp: True ranks_def fun_eq_iff)
    have "chunk_of n 1 i = 0" if "i < n" for i using that by (simp add: chunk_of_def chunk_off_Suc chunk_len_def)
    then have "elem A (mems w) 0 i = v i" if "i < n" for i using v [OF that] that by (simp add: True)
    then show "\<exists>as u' M. run (exec rc_fabric) as u = Some u' \<and> stage u' (ranks 1 (\<lambda>_. Return)) M (\<alpha> (net w)) \<and>
      (\<forall>r<1. (\<forall>i<n. elem A M r i = v i) \<and> same_outside (A r) (mems w r) (M r))"
      if "stage u (ranks 1 (\<lambda>_. Return)) (mems w) (\<alpha> (net w))" for u
      by (intro exI [of _ "[]"] exI [of _ u] exI [of _ "mems w"]) (simp add: that [simplified])
  qed simp
  then show ?thesis unfolding True .
qed

subsection \<open>Integer and floating-point results\<close>

lemma ring_acc_int:
  assumes c: "c < P" and def: "int_defined op {..<P} (\<lambda>q. sint (x q))" and d: "d < P"
  shows "\<exists>v. ring_acc (elem_op Int32 op) P x c d = Inr v \<and>
    sint v = int_reduce op ((\<lambda>e. (c + e) mod P) ` {..d}) (\<lambda>q. sint (x q))"
  using d
proof (induction d)
  case 0
  then show ?case using c by simp
next
  case (Suc d)
  let ?S = "(\<lambda>e. (c + e) mod P) ` {..d}" and ?q = "(c + Suc d) mod P"
  obtain v where v: "ring_acc (elem_op Int32 op) P x c d = Inr v"
      "sint v = int_reduce op ?S (\<lambda>q. sint (x q))"
    using Suc by auto
  have notin: "?q \<notin> ?S"
  proof
    assume "?q \<in> ?S"
    then obtain e where e: "e \<le> d" "?q = (c + e) mod P" by auto
    then have "dist P ?q c = Suc d" "dist P ?q c = e"
      using dist_iff [of ?q P c "Suc d"] dist_iff [of ?q P c e] c Suc.prems by simp_all
    with e(1) show False by simp
  qed
  have "{?q} \<union> ?S \<subseteq> {..<P}" using c by auto
  then have "int_defined op ({?q} \<union> ?S) (\<lambda>q. sint (x q))"
    using int_defined_subset [OF def] by blast
  then obtain u where u: "elem_op Int32 op (x ?q) v = Inr u"
      "sint u = int_reduce op ({?q} \<union> ?S) (\<lambda>q. sint (x q))"
    using elem_op_int_union [of "{?q}" ?S "x ?q" op "\<lambda>q. sint (x q)" v] v(2) notin by auto
  have "{?q} \<union> ?S = (\<lambda>e. (c + e) mod P) ` {..Suc d}" by (simp add: atMost_Suc)
  with u v(1) show ?case by simp
qed

lemma ring_image: "(c::nat) < P \<Longrightarrow> (\<lambda>e. (c + e) mod P) ` {..P - 1} = {..<P}"
proof (intro equalityI subsetI)
  fix q assume c: "c < P" and q: "q \<in> {..<P}"
  then have "q = (c + dist P q c) mod P" "dist P q c \<le> P - 1"
    using dist_iff [of q P c "dist P q c"] dist_le [of P q c] by simp_all
  then show "q \<in> (\<lambda>e. (c + e) mod P) ` {..P - 1}" by blast
qed auto

lemma chunk_of_less: "i < n \<Longrightarrow> 0 < P \<Longrightarrow> chunk_of n P i < P"
  using chunk_cover [of i n P] chunk_of_eq [of _ P n i] unfolding in_chunk_def by metis

lemma ring_acc_int_all:
  assumes "i < n" "0 < P" "int_defined op {..<P} (\<lambda>q. sint (x q))"
  obtains v where "ring_acc (elem_op Int32 op) P x (chunk_of n P i) (P - 1) = Inr v"
    "sint v = int_reduce op {..<P} (\<lambda>q. sint (x q))"
  using ring_acc_int [OF chunk_of_less [OF assms(1,2)] assms(3), of "P - 1"] assms(2)
    ring_image [OF chunk_of_less [OF assms(1,2)]] by auto

lemma ring_acc_float: "\<exists>v. ring_acc (elem_op Float32 op) P x c d = Inr v"
  by (induction d) (auto simp: elem_op_def split: ReduceOp.splits)

subsection \<open>Traffic\<close>

definition chunk_msg :: "nat \<Rightarrow> nat \<Rightarrow> nat \<Rightarrow> nat list" where
  "chunk_msg n P c = (if 0 < chunk_len n P c then [4 * chunk_len n P c] else [])"

lemma chunk_msg_sum [simp]: "sum_list (chunk_msg n P c) = 4 * chunk_len n P c"
  by (simp add: chunk_msg_def)

lemma chunk_msgs_sum:
  "p < P \<Longrightarrow> sum_list (concat (map (\<lambda>s. chunk_msg n P (behind P p s)) [0..<P - 1])) =
     4 * (n - chunk_len n P ((p + 1) mod P))"
proof -
  assume p: "p < P"
  have "sum_list (concat (map (\<lambda>s. chunk_msg n P (behind P p s)) [0..<j])) =
      4 * (\<Sum>s<j. chunk_len n P (behind P p s))" for j
    by (induction j) simp_all
  moreover have "(\<Sum>s<P - 1. chunk_len n P (behind P p s)) + chunk_len n P ((p + 1) mod P) = n"
    using sum_behind [OF p, of "chunk_len n P"] sum_chunk_len [of P n] p by simp
  ultimately show ?thesis by (metis add_diff_cancel_right')
qed

lemma traffic_allreduce_ring:
  assumes ready: "allreduce_ready P n dt op (chunk_len n P 0) A E" and r: "r < P" and P: "2 \<le> P"
  shows "traffic (allreduce_ring (A r) Return) l =
    concat (map (\<lambda>s. chunk_msg n P (behind P r s)) [0..<P - 1]) @
    concat (map (\<lambda>s. chunk_msg n P (behind P ((r + 1) mod P) s)) [0..<P - 1])"
proof -
  let ?cs = "map (chunk_range n P) [0..<P]"
  let ?ag = "\<lambda>s. ring_ag_loop (A r) ?cs (P - 1 - s) s Return"
  have u: "to_u32 (4 * chunk_len n P c) = 4 * chunk_len n P c" for c
    using chunk_bytes_u32 [of n P c] ready by (simp add: allreduce_ready_def)
  have ag: "traffic (?ag 0) l = concat (map (\<lambda>s. chunk_msg n P (behind P ((r + 1) mod P) s)) [0..<P - 1]) @ []" for l
  proof (rule traffic_loop [where prog = ?ag])
    show "\<exists>l'. traffic (?ag s) l = chunk_msg n P (behind P ((r + 1) mod P) s) @ traffic (?ag (Suc s)) l'"
      if "Suc s < P" for s l
      unfolding ag_loop_prog [OF ready P that r] gather_prog_def Let_def traffic_sendrecv u chunk_msg_def
      by auto
  qed simp
  let ?rs = "\<lambda>s. ring_rs_loop (A r) ?cs (P - 1 - s) s (?ag 0)"
  have "traffic (?rs 0) l = concat (map (\<lambda>s. chunk_msg n P (behind P r s)) [0..<P - 1]) @
      (concat (map (\<lambda>s. chunk_msg n P (behind P ((r + 1) mod P) s)) [0..<P - 1]) @ [])"
  proof (rule traffic_loop [where prog = ?rs])
    show "\<exists>l'. traffic (?rs s) l = chunk_msg n P (behind P r s) @ traffic (?rs (Suc s)) l'"
      if "Suc s < P" for s l
      unfolding rs_loop_prog [OF ready P that r] rs_prog_def Let_def traffic_sendrecv u chunk_msg_def
      by auto
    show "traffic (?rs (P - 1)) l = concat (map (\<lambda>s. chunk_msg n P (behind P ((r + 1) mod P) s)) [0..<P - 1]) @ []" for l
      using ag [of l] by simp
  qed
  then show ?thesis
    unfolding allreduce_ring_unfold [OF ready order_refl r P] by simp
qed

lemma ring_int32_ends:
  assumes "rc_contract F \<alpha>" and "procs w = ranks P (\<lambda>r. allreduce_ring (A r) Return)"
    and "\<forall>x. idle (\<alpha> (net w) x)"
    and "allreduce_ready P n Int32 op (chunk_len n P 0) A (\<alpha> (net w))"
    and "\<forall>i<n. int_defined op {..<P} (\<lambda>q. sint (elem A (mems w) q i))"
  shows "always_ends (exec F) w (\<lambda>f. (\<forall>r. procs f r = Return) \<and>
     (\<forall>r<P. (\<forall>i<n. sint (elem A (mems f) r i) =
                int_reduce op {..<P} (\<lambda>q. sint (elem A (mems w) q i))) \<and>
            same_outside (A r) (mems w r) (mems f r)))"
proof -
  have P: "0 < P" using assms(4) by (simp add: allreduce_ready_def)
  have "\<exists>v. ring_acc (elem_op Int32 op) P (\<lambda>q. elem A (mems w) q i) (chunk_of n P i) (P - 1) = Inr v \<and>
      sint v = int_reduce op {..<P} (\<lambda>q. sint (elem A (mems w) q i))" if "i < n" for i
    using ring_acc_int_all [OF that P] assms(5) that by metis
  then obtain v where v: "\<And>i. i < n \<Longrightarrow>
      ring_acc (elem_op Int32 op) P (\<lambda>q. elem A (mems w) q i) (chunk_of n P i) (P - 1) = Inr (v i) \<and>
      sint (v i) = int_reduce op {..<P} (\<lambda>q. sint (elem A (mems w) q i))" by metis
  show ?thesis
    by (rule always_ends_mono [OF allreduce_ring_always_ends [OF assms(1,2) _ assms(4), of v]])
       (use assms(3) v in auto)
qed

subsection \<open>Properties\<close>

text \<open>
  C1: ring allreduce of \<^verbatim>\<open>int32_t\<close> data is correct on every fabric that keeps the reliable-connection
  contract and under every interleaving of ranks and hardware: no schedule deadlocks or runs
  forever, every rank returns, every rank ends with the sum, minimum or maximum over all ranks
  in every element, and nothing outside its data and scratch buffers has changed.
\<close>

theorem allreduce_ring_int32:
  assumes "rc_contract F \<alpha>" and "procs w = ranks P (\<lambda>r. allreduce_ring (A r) Return)"
    and "\<forall>x. idle (\<alpha> (net w) x)"
    and "allreduce_ready P n Int32 op (chunk_len n P 0) A (\<alpha> (net w))"
    and "\<forall>i<n. int_defined op {..<P} (\<lambda>q. sint (elem A (mems w) q i))"
  shows "always_ends (exec F) w (\<lambda>f. (\<forall>r. procs f r = Return) \<and>
     (\<forall>r<P. (\<forall>i<n. sint (elem A (mems f) r i) =
                int_reduce op {..<P} (\<lambda>q. sint (elem A (mems w) q i))) \<and>
            same_outside (A r) (mems w r) (mems f r)))"
  using assms by (rule ring_int32_ends)

theorem allreduce_ring_int32_witness:
  "always_ends (exec rc_fabric) (sample_job 3 4 (\<lambda>r. allreduce_ring (sample_args 3 4 Int32 Sum_op r) Return))
     (\<lambda>f. \<forall>r<3. sint (elem (sample_args 3 4 Int32 Sum_op) (mems f) r 2) = 36)"
proof -
  let ?w = "sample_job 3 4 (\<lambda>r. allreduce_ring (sample_args 3 4 Int32 Sum_op r) Return)"
  have def: "\<forall>i<4. int_defined Sum_op {..<3} (\<lambda>q. sint (elem (sample_args 3 4 Int32 Sum_op) (mems ?w) q i))"
    by (auto simp: int_defined_def numeral_3_eq_3 sample_sint)
  have s: "int_reduce Sum_op {..<3} (\<lambda>q. sint (elem (sample_args 3 4 Int32 Sum_op) (mems ?w) q 2)) = 36"
    by (simp add: int_reduce_def numeral_3_eq_3 sample_sint)
  show ?thesis
    by (rule always_ends_mono [OF allreduce_ring_int32 [OF rc_ref.rc_contract_axioms _ _ sample_ready def]])
       (use sample_idle s in \<open>auto simp: chunk_len_def\<close>)
qed

text \<open>
  C2: ring allreduce of \<^verbatim>\<open>float\<close> data makes all ranks agree bit for bit: under every interleaving
  each element ends, on every rank, as the values of all ranks combined in ring order starting
  at the owner of the element's chunk. No assumption on the values is needed (NaN,
  infinities and signed zeros included) although the operations are not associative.
\<close>

theorem allreduce_ring_float32:
  assumes "rc_contract F \<alpha>" and "procs w = ranks P (\<lambda>r. allreduce_ring (A r) Return)"
    and "\<forall>x. idle (\<alpha> (net w) x)"
    and "allreduce_ready P n Float32 op (chunk_len n P 0) A (\<alpha> (net w))"
  shows "always_ends (exec F) w (\<lambda>f. (\<forall>r. procs f r = Return) \<and>
     (\<forall>r<P. (\<forall>i<n. Inr (elem A (mems f) r i) =
          ring_acc (elem_op Float32 op) P (\<lambda>q. elem A (mems w) q i) (chunk_of n P i) (P - 1)) \<and>
        same_outside (A r) (mems w r) (mems f r)))"
proof -
  define v where "v i = projr (ring_acc (elem_op Float32 op) P (\<lambda>q. elem A (mems w) q i) (chunk_of n P i) (P - 1))"
    for i
  have v: "ring_acc (elem_op Float32 op) P (\<lambda>q. elem A (mems w) q i) (chunk_of n P i) (P - 1) = Inr (v i)" for i
    using ring_acc_float [of op P "\<lambda>q. elem A (mems w) q i" "chunk_of n P i" "P - 1"] by (auto simp: v_def)
  have "always_ends (exec F) w (\<lambda>f. (\<forall>r. procs f r = Return) \<and>
     (\<forall>r<P. (\<forall>i<n. elem A (mems f) r i = v i) \<and> same_outside (A r) (mems w r) (mems f r)))"
    by (rule allreduce_ring_always_ends [OF assms(1,2) _ assms(4) v]) (use assms(3) in blast)
  then show ?thesis unfolding v by (simp only: sum.inject(2))
qed

theorem allreduce_ring_float32_witness:
  "always_ends (exec rc_fabric) (sample_job 3 2 (\<lambda>r. allreduce_ring (sample_args 3 2 Float32 Max_op r) Return))
     (\<lambda>f. \<forall>r<3. Inr (elem (sample_args 3 2 Float32 Max_op) (mems f) r 1) =
        ring_acc (elem_op Float32 Max_op) 3 (\<lambda>q. elem (sample_args 3 2 Float32 Max_op) sample_mem q 1) 1 2)"
proof -
  let ?w = "sample_job 3 2 (\<lambda>r. allreduce_ring (sample_args 3 2 Float32 Max_op r) Return)"
  have c: "chunk_of 2 3 1 = 1" by code_simp
  have ready: "allreduce_ready 3 2 Float32 Max_op (chunk_len 2 3 0) (sample_args 3 2 Float32 Max_op) (id (net ?w))"
    by (rule sample_ready) (simp_all add: chunk_len_def)
  show ?thesis
    by (rule always_ends_mono [OF allreduce_ring_float32 [where w = ?w and \<alpha> = id, OF rc_ref.rc_contract_axioms _ _ ready]])
       (use sample_idle c in \<open>simp_all del: ring_acc.simps\<close>)
qed

lemma ring_guarded:
  assumes "connected P r (ar_comm a)" and "r < P" and "P < 2 ^ 31" and "4 * ar_count a < 2 ^ 64"
  shows "allreduce_ring a k =
     (if mr_length (ar_data_mr a) < 4 * ar_count a
      then Throw (RuntimeError ''allreduce_ring: count exceeds registered data buffer length'' [])
      else if P = 1 then k
      else if ar_scratch_capacity a < (ar_count a + P - 1) div P
      then Throw (RuntimeError ''allreduce_ring: scratch buffer (% elems) smaller than largest chunk (% elems)''
             [int (ar_scratch_capacity a), int ((ar_count a + P - 1) div P)])
      else ring_rs_loop a (map (chunk_range (ar_count a) P) [0..<P]) (P - 1) 0
             (ring_ag_loop a (map (chunk_range (ar_count a) P) [0..<P]) (P - 1) 0 k))"
proof -
  have P: "0 < P" "nat (int P mod 2 ^ 64) = P" "nat (int P - 1) = P - 1" using assms(2,3) by simp_all
  have max: "foldl max 0 (map cr_count (map (chunk_range (ar_count a) P) [0..<P])) =
      (ar_count a + P - 1) div P"
    using chunk_len_max [of P "ar_count a"] P(1) by (simp add: o_def chunk_len_0)
  have chunks: "compute_chunks (ar_count a) P = Inr (map (chunk_range (ar_count a) P) [0..<P])"
    using assms(4) P(1) by (simp add: compute_chunks_closed)
  have bytes: "sz_mul (ar_count a) 4 = 4 * ar_count a" using assms(4) by (simp add: sz_mul_exact)
  show ?thesis
    unfolding allreduce_ring_def Let_def
    by (simp only: connectedD(2) [OF assms(1)] P dtype_size_4 bytes chunks or_throw_simps max) simp
qed

text \<open>
  C32: the guards of ring allreduce fire before any message is posted: a count beyond the
  registered data, or a scratch buffer smaller than the largest chunk (that is, than
  \<open>\<lceil>count / P\<rceil>\<close> elements), throws at once; with one rank the call returns at once.
\<close>

theorem allreduce_ring_guards:
  assumes "connected P r (ar_comm a)" and "r < P" and "P < 2 ^ 31" and "4 * ar_count a < 2 ^ 64"
  shows "allreduce_ring a k =
     (if mr_length (ar_data_mr a) < 4 * ar_count a
      then Throw (RuntimeError ''allreduce_ring: count exceeds registered data buffer length'' [])
      else if P = 1 then k
      else if ar_scratch_capacity a < (ar_count a + P - 1) div P
      then Throw (RuntimeError ''allreduce_ring: scratch buffer (% elems) smaller than largest chunk (% elems)''
             [int (ar_scratch_capacity a), int ((ar_count a + P - 1) div P)])
      else ring_rs_loop a (map (chunk_range (ar_count a) P) [0..<P]) (P - 1) 0
             (ring_ag_loop a (map (chunk_range (ar_count a) P) [0..<P]) (P - 1) 0 k))"
  by (rule ring_guarded [OF assms])

theorem allreduce_ring_guards_witness:
  "allreduce_ring (sample_args 3 10 Int32 Sum_op 0\<lparr>ar_scratch_capacity := 3\<rparr>) Return =
     Throw (RuntimeError ''allreduce_ring: scratch buffer (% elems) smaller than largest chunk (% elems)'' [3, 4])"
  using allreduce_ring_guards [of 3 0 "sample_args 3 10 Int32 Sum_op 0\<lparr>ar_scratch_capacity := 3\<rparr>" Return]
  by (simp add: connected_def sample_args_def)

text \<open>
  C37: ring allreduce is bandwidth-optimal: whatever the number of ranks, a rank sends twice the
  data less the one chunk it never forwards in each phase, in at most \<open>2 * (P - 1)\<close> messages,
  none longer than the largest chunk.
\<close>

theorem allreduce_ring_traffic:
  assumes "allreduce_ready P n dt op (chunk_len n P 0) A E" and "r < P" and "2 \<le> P"
  shows "sum_list (traffic (allreduce_ring (A r) Return) 0) =
      4 * (n - chunk_len n P ((r + 1) mod P)) + 4 * (n - chunk_len n P ((r + 2) mod P)) \<and>
    length (traffic (allreduce_ring (A r) Return) 0) \<le> 2 * (P - 1) \<and>
    (\<forall>m\<in>set (traffic (allreduce_ring (A r) Return) 0). m \<le> 4 * chunk_len n P 0)"
proof -
  have r2: "((r + 1) mod P + 1) mod P = (r + 2) mod P" by (simp add: mod_Suc_eq)
  have P: "(r + 1) mod P < P" using assms(3) by simp
  have len: "length (concat (map (\<lambda>s. chunk_msg n P (behind P p s)) [0..<j])) \<le> j" for p j
    by (induction j) (auto simp: chunk_msg_def)
  have max: "m \<le> 4 * chunk_len n P 0" if "m \<in> set (chunk_msg n P c)" for m c
    using that chunk_len_antimono [of 0 c n P] by (auto simp: chunk_msg_def split: if_splits)
  show ?thesis
    unfolding traffic_allreduce_ring [OF assms] sum_list_append chunk_msgs_sum [OF assms(2)]
      chunk_msgs_sum [OF P] r2 length_append
    using len [of r "P - 1"] len [of "(r + 1) mod P" "P - 1"] max by auto
qed

theorem allreduce_ring_traffic_witness:
  "sum_list (traffic (allreduce_ring (sample_args 4 100 Int32 Sum_op 1) Return) 0) = 600"
proof -
  have "allreduce_ready 4 100 Int32 Sum_op (chunk_len 100 4 0) (sample_args 4 100 Int32 Sum_op)
      (id (net (sample_job 4 100 (\<lambda>_. Return))))"
    by (rule sample_ready) (simp_all add: chunk_len_def)
  from allreduce_ring_traffic [OF this, of 1] show ?thesis by (simp add: chunk_len_def)
qed

end
