(* ===== verification/Allreduce_RD.thy ===== *)
theory Allreduce_RD
  imports Allreduce_Common Traffic
begin

text \<open>
  \<^verbatim>\<open>src/collectives/allreduce_recursive_doubling.cc\<close>: each step exchanges the whole buffer
  with the rank whose number differs in one bit and reduces what arrives.
\<close>

subsection \<open>The code\<close>

definition is_power_of_two :: "int \<Rightarrow> bool" where
  "is_power_of_two p \<longleftrightarrow> p > 0 \<and> p AND (p - 1) = 0"

text \<open>\<^verbatim>\<open>for (int p = P; p > 1; p >>= 1) ++steps;\<close>\<close>

function rd_steps :: "int \<Rightarrow> nat \<Rightarrow> nat" where
  "rd_steps p steps = (if p > 1 then rd_steps (drop_bit 1 p) (Suc steps) else steps)"
  by pat_completeness auto
termination
  by (relation "measure (\<lambda>(p, steps). nat p)") (auto simp: drop_bit_eq_div)

declare rd_steps.simps [simp del]

abbreviation rd_mismatch :: string where
  "rd_mismatch \<equiv> ''allreduce_recursive_doubling: recv size mismatch at step %, expected % got % -- ranks disagree on message size''"

definition rd_step :: "allreduce_args \<Rightarrow> nat \<Rightarrow> rprog \<Rightarrow> rprog" where
  "rd_step a step k =
     (let R = comm_rank (ar_comm a);
          bytes = sz_mul (ar_count a) (dtype_size (ar_dtype a));
          partner = R XOR (push_bit step 1)
      in with_qp (ar_comm a) partner (\<lambda>q. post_recv q (ar_scratch_mr a) (ar_scratch a) bytes 0
        (with_qp (ar_comm a) partner (\<lambda>q. post_send q (ar_data_mr a) (ar_data a) bytes 0 True
        (wait_completion SendCq (\<lambda>_. wait_completion RecvCq (\<lambda>wc.
           if wc_byte_len wc \<noteq> bytes
           then Throw (RuntimeError rd_mismatch [int step, int bytes, int (wc_byte_len wc)])
           else Compute (reduce_inplace (ar_data a) (ar_scratch a) (ar_count a)
                  (ar_dtype a) (ar_op a)) k)))))))"

fun rd_loop :: "allreduce_args \<Rightarrow> nat \<Rightarrow> nat \<Rightarrow> rprog \<Rightarrow> rprog" where
  "rd_loop a 0 step k = k"
| "rd_loop a (Suc n) step k = rd_step a step (rd_loop a n (Suc step) k)"

definition allreduce_recursive_doubling :: "allreduce_args \<Rightarrow> rprog \<Rightarrow> rprog" where
  "allreduce_recursive_doubling a k =
     (let P = comm_size (ar_comm a); elem_size = dtype_size (ar_dtype a)
      in if sz_mul (ar_count a) elem_size > mr_length (ar_data_mr a)
         then Throw (RuntimeError
                ''allreduce_recursive_doubling: count exceeds registered data buffer length'' [])
         else if \<not> is_power_of_two P
         then Throw (RuntimeError
                ''allreduce_recursive_doubling: world_size (%) must be a power of two'' [P])
         else if P = 1 then k
         else if ar_scratch_capacity a < ar_count a
         then Throw (RuntimeError
                ''allreduce_recursive_doubling: scratch buffer (% elems) smaller than the full buffer (% elems) -- recursive doubling exchanges the whole message every step, unlike ring's per-chunk scratch requirement''
                [int (ar_scratch_capacity a), int (ar_count a)])
         else rd_loop a (rd_steps P 0) 0 k)"

subsection \<open>Powers of two and partners\<close>

lemma is_power_of_two_even:
  "0 < m \<Longrightarrow> is_power_of_two (2 * m) \<longleftrightarrow> is_power_of_two m"
proof -
  have "(2 * m - 1) div 2 = m - 1" by simp
  then have "(2 * m) AND (2 * m - 1) = 2 * (m AND (m - 1))"
    by (simp add: and_int_rec [of "2 * m"])
  then show "0 < m \<Longrightarrow> ?thesis" by (simp add: is_power_of_two_def)
qed

lemma is_power_of_two_odd: "is_power_of_two (1 + 2 * m) \<Longrightarrow> m = 0"
  by (simp add: is_power_of_two_def and_int_rec [of "1 + 2 * m"])

lemma is_power_of_two_pow: "is_power_of_two (2 ^ k)"
proof (induction k)
  case 0
  show ?case by (simp add: is_power_of_two_def)
next
  case (Suc k)
  then show ?case using is_power_of_two_even [of "2 ^ k"] by simp
qed

lemma is_power_of_two_exists: "is_power_of_two p \<Longrightarrow> \<exists>k. p = 2 ^ k"
proof (induction "nat p" arbitrary: p rule: less_induct)
  case less
  have p: "0 < p" using less.prems by (simp add: is_power_of_two_def)
  show ?case
  proof (cases "even p")
    case True
    then obtain m where m: "p = 2 * m" by (elim evenE)
    with less.prems p obtain k where "m = 2 ^ k"
      using less.hyps [of m] is_power_of_two_even [of m] by auto
    then show ?thesis using m by (intro exI [of _ "Suc k"]) simp
  next
    case False
    then obtain m where "p = 1 + 2 * m" by (metis oddE add.commute)
    with less.prems have "p = 2 ^ 0" using is_power_of_two_odd [of m] by simp
    then show ?thesis by blast
  qed
qed

lemma rd_steps_pow: "rd_steps (2 ^ k) s = s + k"
proof (induction k arbitrary: s)
  case 0
  show ?case by (simp add: rd_steps.simps)
next
  case (Suc k)
  have "drop_bit 1 (2 ^ Suc k :: int) = 2 ^ k" by (simp add: drop_bit_eq_div)
  moreover have "(1::int) < 2 ^ Suc k" by (rule one_less_power) simp_all
  ultimately show ?case using Suc.IH [of "Suc s"]
    by (subst rd_steps.simps) (simp del: power_Suc)
qed

text \<open>The partner at step \<open>s\<close>.\<close>

definition partner :: "nat \<Rightarrow> nat \<Rightarrow> nat" where
  "partner s r = r XOR 2 ^ s"

lemma partner_int: "int r XOR push_bit s 1 = int (partner s r)"
  by (simp add: partner_def of_nat_xor_eq push_bit_eq_mult)

lemma partner_partner [simp]: "partner s (partner s r) = r"
  by (simp add: partner_def xor.assoc)

lemma partner_neq: "partner s r \<noteq> r"
proof
  assume "partner s r = r"
  then have "r XOR (r XOR 2 ^ s) = r XOR r" by (simp add: partner_def)
  then have "(2::nat) ^ s = 0" unfolding xor.assoc [symmetric] by simp
  then show False by simp
qed

lemma partner_less: "r < 2 ^ k \<Longrightarrow> s < k \<Longrightarrow> partner s r < 2 ^ k"
proof -
  assume r: "r < 2 ^ k" and s: "s < k"
  have "take_bit k (partner s r) = partner s r"
    using r s by (simp add: partner_def take_bit_nat_eq_self power_strict_increasing)
  then show ?thesis by (metis take_bit_nat_less_exp)
qed

subsection \<open>One step of all ranks\<close>

text \<open>
  The value rank \<open>r\<close> has after \<open>s\<close> steps: the reductions of two blocks of ranks combined, its own
  on the left.
\<close>

fun rd_acc :: "(u32 \<Rightarrow> u32 \<Rightarrow> u32 result) \<Rightarrow> (nat \<Rightarrow> u32) \<Rightarrow> nat \<Rightarrow> nat \<Rightarrow> u32 result" where
  "rd_acc f x 0 r = Inr (x r)"
| "rd_acc f x (Suc s) r =
     bind_res (rd_acc f x s r) (\<lambda>u. bind_res (rd_acc f x s (partner s r)) (\<lambda>v. f u v))"

definition rd_prog :: "nat \<Rightarrow> allreduce_args \<Rightarrow> nat \<Rightarrow> nat \<Rightarrow> rprog \<Rightarrow> rprog" where
  "rd_prog n a r s =
     sendrecv True (partner s r) (ar_scratch_mr a) (ar_scratch a) (4 * n)
       True (partner s r) (ar_data_mr a) (ar_data a) (4 * n)
       (\<lambda>wc k. if wc_byte_len wc \<noteq> 4 * n
          then Throw (RuntimeError rd_mismatch [int s, int (4 * n), int (wc_byte_len wc)])
          else Compute (reduce_inplace (ar_data a) (ar_scratch a) n (ar_dtype a) (ar_op a)) k)"

lemma rd_step_resolved:
  assumes ready: "allreduce_ready (2 ^ K) n dt op n A E" and r: "r < 2 ^ K" and s: "s < K"
  shows "rd_step (A r) s k = rd_prog n (A r) r s k"
proof -
  note rk = ready_rank [OF ready r]
  have n: "sz_mul n 4 = 4 * n" using ready by (simp add: allreduce_ready_def sz_mul_exact)
  have qp: "with_qp (ar_comm (A r)) (int (partner s r)) f = f (partner s r)" for f
    using connectedD(3) [OF rk(1)] partner_less [OF r s] partner_neq [of s r] by simp
  show ?thesis
    unfolding rd_step_def rd_prog_def sendrecv_def Let_def
    by (simp only: connectedD(1) [OF rk(1)] partner_int qp rk(2) n dtype_size_4 when_do_simps)
qed

lemma rd_loop_prog:
  assumes "allreduce_ready (2 ^ K) n dt op n A E" "s < K" "r < 2 ^ K"
  shows "rd_loop (A r) (K - s) s k = rd_prog n (A r) r s (rd_loop (A r) (K - Suc s) (Suc s) k)"
proof -
  have "K - s = Suc (K - Suc s)" using assms(2) by simp
  then show ?thesis by (simp only: rd_loop.simps rd_step_resolved [OF assms(1,3,2)])
qed

definition rd_state :: "nat \<Rightarrow> (u32 \<Rightarrow> u32 \<Rightarrow> u32 result) \<Rightarrow> allreduce_args \<Rightarrow> (nat \<Rightarrow> nat \<Rightarrow> u32) \<Rightarrow>
    nat \<Rightarrow> nat \<Rightarrow> mem \<Rightarrow> bool" where
  "rd_state n f a x s r m \<longleftrightarrow>
     (\<forall>i<n. Inr (load32 m (ar_data a + 4 * i)) = rd_acc f (\<lambda>q. x q i) s r)"

lemma rd_acc_prefix:
  "rd_acc f x k r = Inr v \<Longrightarrow> s \<le> k \<Longrightarrow> \<exists>u. rd_acc f x s r = Inr u"
proof (induction k arbitrary: v)
  case (Suc k)
  then show ?case by (cases "s = Suc k") (auto simp: bind_res_eq_Inr)
qed simp

lemma rd_rank_step:
  assumes ready: "allreduce_ready P n dt op n A E" and r: "r < P"
    and mine: "rd_state n (elem_op dt op) (A r) x s r m"
    and theirs: "rd_state n (elem_op dt op) a' x s (partner s r) m'"
    and def: "\<And>i. i < n \<Longrightarrow> \<exists>u. rd_acc (elem_op dt op) (\<lambda>q. x q i) (Suc s) r = Inr u"
  obtains m2 where
    "reduce_inplace (ar_data (A r)) (ar_scratch (A r)) n dt op
       (mem_write m (ar_scratch (A r)) (mem_read m' (ar_data a') (4 * n))) = Inr m2"
    "rd_state n (elem_op dt op) (A r) x (Suc s) r m2" "same_outside (A r) m m2"
proof -
  note rk = ready_rank [OF ready r]
  let ?g = "\<lambda>i. projr (rd_acc (elem_op dt op) (\<lambda>q. x q i) (Suc s) r)"
  have op: "elem_op dt op (load32 m (ar_data (A r) + 4 * (0 + j))) (load32 m' (ar_data a' + 4 * j)) = Inr (?g j)"
    if "j < n" for j
  proof -
    have "Inr (load32 m (ar_data (A r) + 4 * j)) = rd_acc (elem_op dt op) (\<lambda>q. x q j) s r"
      "Inr (load32 m' (ar_data a' + 4 * j)) = rd_acc (elem_op dt op) (\<lambda>q. x q j) s (partner s r)"
      using mine theirs that by (simp_all add: rd_state_def)
    note this [symmetric]
    with def [OF that] show ?thesis by auto
  qed
  obtain m2 where "reduce_inplace (ar_data (A r) + 4 * 0) (ar_scratch (A r)) n dt op
       (mem_write m (ar_scratch (A r)) (mem_read m' (ar_data a') (4 * n))) = Inr m2"
      "\<And>j. j < n \<Longrightarrow> load32 m2 (ar_data (A r) + 4 * (0 + j)) = ?g j" "same_outside (A r) m m2"
    by (rule reduce_step_mem [OF rk(5,2) _ _ op]) auto
  moreover from this(2) have "rd_state n (elem_op dt op) (A r) x (Suc s) r m2"
    using def unfolding rd_state_def by fastforce
  ultimately show thesis using that by simp
qed

lemma rd_round:
  assumes ready: "allreduce_ready (2 ^ K) n dt op n A E" and idle: "\<And>x. idle (E x)" and s: "s < K"
    and def: "\<And>r i. r < 2 ^ K \<Longrightarrow> i < n \<Longrightarrow> \<exists>u. rd_acc (elem_op dt op) (\<lambda>q. x q i) (Suc s) r = Inr u"
    and w: "stage w (ranks (2 ^ K) (\<lambda>r. rd_prog n (A r) r s (k r))) M E"
    and inv: "\<And>r. r < 2 ^ K \<Longrightarrow> rd_state n (elem_op dt op) (A r) x s r (M r)"
  shows "\<exists>as w' M2. run (exec rc_fabric) as w = Some w' \<and> stage w' (ranks (2 ^ K) k) M2 E \<and>
    (\<forall>r<2 ^ K. rd_state n (elem_op dt op) (A r) x (Suc s) r (M2 r) \<and> same_outside (A r) (M r) (M2 r))"
proof -
  let ?P = "2 ^ K" and ?f = "elem_op dt op" and ?q = "partner s"
  have "\<exists>m2. reduce_inplace (ar_data (A r)) (ar_scratch (A r)) n dt op (mem_write (M r) (ar_scratch (A r))
       (mem_read (M (?q r)) (ar_data (A (?q r))) (4 * n))) = Inr m2 \<and>
     rd_state n ?f (A r) x (Suc s) r m2 \<and> same_outside (A r) (M r) m2" if r: "r < ?P" for r
    using rd_rank_step [OF ready r inv [OF r] inv [OF partner_less [OF r s]] def [OF r]] by metis
  then obtain R where R: "\<And>r. r < ?P \<Longrightarrow> reduce_inplace (ar_data (A r)) (ar_scratch (A r)) n dt op
       (mem_write (M r) (ar_scratch (A r)) (mem_read (M (?q r)) (ar_data (A (?q r))) (4 * n))) = Inr (R r) \<and>
     rd_state n ?f (A r) x (Suc s) r (R r) \<and> same_outside (A r) (M r) (R r)" by metis
  have "\<exists>as w'. run (exec rc_fabric) as w = Some w' \<and>
      stage w' (ranks ?P k) (\<lambda>y. if y < ?P then R y else M y) E"
  proof (rule sendrecv_round [OF w idle])
    fix r :: nat assume r: "r < ?P"
    note rk = ready_rank [OF ready r]
    show "rd_prog n (A r) r s (k r) = sendrecv True (?q r) (ar_scratch_mr (A r)) (ar_scratch (A r)) (4 * n)
       True (?q r) (ar_data_mr (A r)) (ar_data (A r)) (4 * n)
       (\<lambda>wc k. if wc_byte_len wc \<noteq> 4 * n
          then Throw (RuntimeError rd_mismatch [int s, int (4 * n), int (wc_byte_len wc)])
          else Compute (reduce_inplace (ar_data (A r)) (ar_scratch (A r)) n dt op) k) (k r)"
      by (simp only: rd_prog_def rk(3,4))
    show "?q r < ?P \<and> ?q r < ?P \<and> ?q (?q r) = r \<and> ?q (?q r) = r"
      using partner_less [OF r s] by simp
    show "True = True \<and> (True \<longrightarrow> 4 * n = 4 * n \<and> 4 * n < 2 ^ 32)"
      using ready by (simp add: allreduce_ready_def)
    show "registered (E r) (ar_data_mr (A r)) \<and> mr_addr (ar_data_mr (A r)) \<le> ar_data (A r) \<and>
      ar_data (A r) + 4 * n \<le> mr_addr (ar_data_mr (A r)) + mr_length (ar_data_mr (A r))"
      using rk(5) by (auto simp: buffers_ok_def)
    show "registered (E r) (ar_scratch_mr (A r)) \<and> mr_addr (ar_scratch_mr (A r)) \<le> ar_scratch (A r) \<and>
      ar_scratch (A r) + 4 * n \<le> mr_addr (ar_scratch_mr (A r)) + mr_length (ar_scratch_mr (A r))"
      using rk(5) by (auto simp: buffers_ok_def)
    show "disjoint_ranges (ar_data (A r)) (4 * n) (ar_scratch (A r)) (4 * n)"
      by (rule data_scratch_disjoint [OF rk(5)])
    show "lsteps
      (if True then (if wc_byte_len (good_wc (?q r) (4 * n)) \<noteq> 4 * n
          then Throw (RuntimeError rd_mismatch [int s, int (4 * n), int (wc_byte_len (good_wc (?q r) (4 * n)))])
          else Compute (reduce_inplace (ar_data (A r)) (ar_scratch (A r)) n dt op) (k r)) else k r,
       if True then mem_write (M r) (ar_scratch (A r)) (mem_read (M (?q r)) (ar_data (A (?q r))) (4 * n))
       else M r, E r)
      (k r, if r < ?P then R r else M r, E r)"
      using R [OF r] r by (auto intro: r_into_rtranclp)
  qed simp
  then obtain as w' where "run (exec rc_fabric) as w = Some w'"
      "stage w' (ranks ?P k) (\<lambda>y. if y < ?P then R y else M y) E" by blast
  with R show ?thesis
    by (intro exI [of _ as] exI [of _ w'] exI [of _ "\<lambda>y. if y < ?P then R y else M y"]) simp
qed

subsection \<open>The whole collective\<close>

lemma rd_unfold:
  assumes ready: "allreduce_ready (2 ^ K) n dt op n A E" and r: "r < 2 ^ K"
  shows "allreduce_recursive_doubling (A r) k = rd_loop (A r) K 0 k"
proof -
  note rk = ready_rank [OF ready r]
  have n: "sz_mul n 4 = 4 * n" using ready by (simp add: allreduce_ready_def sz_mul_exact)
  have g: "\<not> 4 * n > mr_length (ar_data_mr (A r))" "\<not> ar_scratch_capacity (A r) < n"
    using rk(5) by (auto simp: buffers_ok_def)
  have st: "rd_steps (int (2 ^ K)) 0 = K" using rd_steps_pow [of K 0] by simp
  have one: "int (2 ^ K) = 1 \<longleftrightarrow> K = 0"
    by (cases K) (simp_all add: zmult_eq_1_iff)
  have "is_power_of_two (int (2 ^ K))" using is_power_of_two_pow [of K] by simp
  with g show ?thesis
    unfolding allreduce_recursive_doubling_def Let_def
    by (simp only: connectedD(2) [OF rk(1)] rk(2) n dtype_size_4 st one) simp
qed

lemma rd_stage:
  assumes ready: "allreduce_ready (2 ^ K) n dt op n A E" and idle: "\<And>x. idle (E x)"
    and w: "stage w (ranks (2 ^ K) (\<lambda>r. allreduce_recursive_doubling (A r) (k r))) M E"
    and def: "\<And>r i. r < 2 ^ K \<Longrightarrow> i < n \<Longrightarrow>
      \<exists>u. rd_acc (elem_op dt op) (\<lambda>q. elem A M q i) K r = Inr u"
  shows "\<exists>as w' M2. run (exec rc_fabric) as w = Some w' \<and> stage w' (ranks (2 ^ K) k) M2 E \<and>
    (\<forall>r<2 ^ K. rd_state n (elem_op dt op) (A r) (elem A M) K r (M2 r) \<and> same_outside (A r) (M r) (M2 r))"
proof -
  let ?P = "2 ^ K :: nat" and ?f = "elem_op dt op" and ?prog = "\<lambda>s r. rd_loop (A r) (K - s) s (k r)"
  have "\<exists>as w' M2. run (exec rc_fabric) as w = Some w' \<and> stage w' (ranks ?P (?prog K)) M2 E \<and>
    (\<forall>r<?P. rd_state n ?f (A r) (elem A M) K r (M2 r) \<and> same_outside (A r) (M r) (M2 r))"
  proof (rule stage_loop [where prog = ?prog and M = M and J = "\<lambda>s M'. \<forall>r<?P.
      rd_state n ?f (A r) (elem A M) s r (M' r) \<and> same_outside (A r) (M r) (M' r)"])
    have "ranks ?P (\<lambda>r. allreduce_recursive_doubling (A r) (k r)) = ranks ?P (?prog 0)"
      by (rule ranks_cong) (simp add: rd_unfold [OF ready])
    with w show "stage w (ranks ?P (?prog 0)) M E" by simp
    show "\<forall>r<?P. rd_state n ?f (A r) (elem A M) 0 r (M r) \<and> same_outside (A r) (M r) (M r)"
      by (simp add: rd_state_def elem_def)
    fix s w1 M1
    assume s: "s < K" and w1: "stage w1 (ranks ?P (?prog s)) M1 E"
      and J: "\<forall>r<?P. rd_state n ?f (A r) (elem A M) s r (M1 r) \<and> same_outside (A r) (M r) (M1 r)"
    have "ranks ?P (?prog s) = ranks ?P (\<lambda>r. rd_prog n (A r) r s (?prog (Suc s) r))"
      by (rule ranks_cong) (rule rd_loop_prog [OF ready s])
    with w1 have w1': "stage w1 (ranks ?P (\<lambda>r. rd_prog n (A r) r s (?prog (Suc s) r))) M1 E" by simp
    have "\<exists>u. rd_acc ?f (\<lambda>q. elem A M q i) (Suc s) r = Inr u" if ri: "r < ?P" "i < n" for r i
      using def [OF ri] rd_acc_prefix [of ?f "\<lambda>q. elem A M q i" K r _ "Suc s"] s by (meson Suc_leI)
    then obtain as w' M2 where "run (exec rc_fabric) as w1 = Some w'" "stage w' (ranks ?P (?prog (Suc s))) M2 E"
        "\<forall>r<?P. rd_state n ?f (A r) (elem A M) (Suc s) r (M2 r) \<and> same_outside (A r) (M1 r) (M2 r)"
      using rd_round [OF ready idle s _ w1'] J by blast
    with J show "\<exists>as w' M'. run (exec rc_fabric) as w1 = Some w' \<and> stage w' (ranks ?P (?prog (Suc s))) M' E \<and>
        (\<forall>r<?P. rd_state n ?f (A r) (elem A M) (Suc s) r (M' r) \<and> same_outside (A r) (M r) (M' r))"
      by (meson same_outside_trans)
  qed
  then show ?thesis by simp
qed

lemma disc_rd:
  assumes ready: "allreduce_ready (2 ^ K) n dt op n A E" and r: "r < 2 ^ K" and k: "disc k None None"
  shows "disc (allreduce_recursive_doubling (A r) k) None None"
proof -
  have "disc (rd_loop (A r) (Suc K - 1 - 0) 0 k) None None"
  proof (rule disc_loop [where prog = "\<lambda>s. rd_loop (A r) (Suc K - 1 - s) s k"])
    fix s assume s: "Suc s < Suc K" and d: "disc (rd_loop (A r) (Suc K - 1 - Suc s) (Suc s) k) None None"
    have "rd_loop (A r) (Suc K - 1 - s) s k = rd_prog n (A r) r s (rd_loop (A r) (Suc K - 1 - Suc s) (Suc s) k)"
      using rd_loop_prog [OF ready _ r, of s k] s by simp
    also have "disc \<dots> None None"
      unfolding rd_prog_def using d
      by (intro disc_sendrecv data_scratch_disjoint [OF ready_rank(5) [OF ready r]]) simp_all
    finally show "disc (rd_loop (A r) (Suc K - 1 - s) s k) None None" .
  qed (use k in simp)
  then show ?thesis by (simp add: rd_unfold [OF ready r])
qed

lemma rd_always_ends:
  assumes F: "rc_contract F \<alpha>"
    and procs: "procs w = ranks (2 ^ K) (\<lambda>r. allreduce_recursive_doubling (A r) Return)"
    and idle: "\<And>x. idle (\<alpha> (net w) x)" and ready: "allreduce_ready (2 ^ K) n dt op n A (\<alpha> (net w))"
    and def: "\<And>r i. r < 2 ^ K \<Longrightarrow> i < n \<Longrightarrow>
      \<exists>u. rd_acc (elem_op dt op) (\<lambda>q. elem A (mems w) q i) K r = Inr u"
  shows "always_ends (exec F) w (\<lambda>f. (\<forall>r. procs f r = Return) \<and>
     (\<forall>r<2 ^ K. (\<forall>i<n. Inr (elem A (mems f) r i) = rd_acc (elem_op dt op) (\<lambda>q. elem A (mems w) q i) K r) \<and>
        same_outside (A r) (mems w r) (mems f r)))"
proof (rule job_always_ends [OF F procs idle])
  show "disc (allreduce_recursive_doubling (A r) Return) None None" if "r < 2 ^ K" for r
    using disc_rd [OF ready that] by simp
  fix u assume "stage u (ranks (2 ^ K) (\<lambda>r. allreduce_recursive_doubling (A r) Return)) (mems w) (\<alpha> (net w))"
  from rd_stage [OF ready idle this def]
  show "\<exists>as u' M. run (exec rc_fabric) as u = Some u' \<and> stage u' (ranks (2 ^ K) (\<lambda>_. Return)) M (\<alpha> (net w)) \<and>
     (\<forall>r<2 ^ K. (\<forall>i<n. Inr (elem A M r i) = rd_acc (elem_op dt op) (\<lambda>q. elem A (mems w) q i) K r) \<and>
        same_outside (A r) (mems w r) (M r))"
    by (simp add: rd_state_def elem_def)
qed

subsection \<open>Integer results\<close>

text \<open>The ranks whose values rank \<open>r\<close> has combined after \<open>s\<close> steps.\<close>

definition blk :: "nat \<Rightarrow> nat \<Rightarrow> nat \<Rightarrow> nat set" where
  "blk K s r = {q. q < 2 ^ K \<and> q div 2 ^ s = r div 2 ^ s}"

lemma partner_div: "partner s r div 2 ^ s = (r div 2 ^ s) XOR 1"
proof -
  have "drop_bit s (partner s r) = drop_bit s r XOR 1"
    by (simp add: partner_def) (simp add: drop_bit_eq_div)
  then show ?thesis by (simp add: drop_bit_eq_div)
qed

lemma xor_1_nat: "(2 * b) XOR Suc 0 = Suc (2 * b)" "Suc (2 * b) XOR Suc 0 = 2 * b"
  using xor_one_eq [of "2 * b"] xor_one_eq [of "Suc (2 * b)"] by simp_all

lemma div2_eq_iff: "(a::nat) div 2 = b div 2 \<longleftrightarrow> a = b \<or> a = b XOR 1"
  by (cases "even a"; cases "even b") (auto elim!: evenE oddE simp: xor_1_nat)

lemma blk_Suc: "blk K (Suc s) r = blk K s r \<union> blk K s (partner s r)"
proof -
  have "q div 2 ^ Suc s = r div 2 ^ Suc s \<longleftrightarrow>
      q div 2 ^ s = r div 2 ^ s \<or> q div 2 ^ s = partner s r div 2 ^ s" for q :: nat
    unfolding partner_div using div2_eq_iff [of "q div 2 ^ s" "r div 2 ^ s"]
    by (simp add: power_Suc2 div_mult2_eq del: power_Suc)
  then show ?thesis unfolding blk_def by blast
qed

lemma blk_disjoint: "blk K s r \<inter> blk K s (partner s r) = {}"
proof -
  have "a XOR 1 \<noteq> a" for a :: nat by (cases "even a") (auto elim!: evenE oddE simp: xor_1_nat)
  then show ?thesis by (auto simp: blk_def partner_div)
qed

lemma blk_facts: "finite (blk K s r)" "blk K s r \<subseteq> {..<2 ^ K}" "r < 2 ^ K \<Longrightarrow> r \<in> blk K s r"
  by (auto simp: blk_def intro: finite_subset [of _ "{..<2 ^ K}"])

lemma rd_acc_int:
  assumes def: "int_defined op {..<2 ^ K} (\<lambda>q. sint (x q))" and s: "s \<le> K" and r: "r < 2 ^ K"
  shows "\<exists>v. rd_acc (elem_op Int32 op) x s r = Inr v \<and>
    sint v = int_reduce op (blk K s r) (\<lambda>q. sint (x q))"
  using s r
proof (induction s arbitrary: r)
  case 0
  then have "blk K 0 r = {r}" by (auto simp: blk_def)
  then show ?case by simp
next
  case (Suc s)
  let ?S = "blk K s r" and ?T = "blk K s (partner s r)"
  have p: "partner s r < 2 ^ K" using partner_less [OF Suc.prems(2)] Suc.prems(1) by simp
  obtain u v where u: "rd_acc (elem_op Int32 op) x s r = Inr u" "sint u = int_reduce op ?S (\<lambda>q. sint (x q))"
      and v: "rd_acc (elem_op Int32 op) x s (partner s r) = Inr v" "sint v = int_reduce op ?T (\<lambda>q. sint (x q))"
    using Suc.IH [of r] Suc.IH [of "partner s r"] Suc.prems p by auto
  have "int_defined op (?S \<union> ?T) (\<lambda>q. sint (x q))"
    by (rule int_defined_subset [OF def]) (use blk_facts(2) in auto)
  moreover have "?S \<noteq> {}" "?T \<noteq> {}" using blk_facts(3) Suc.prems(2) p by blast+
  ultimately obtain c where "elem_op Int32 op u v = Inr c" "sint c = int_reduce op (?S \<union> ?T) (\<lambda>q. sint (x q))"
    using elem_op_int_union [OF blk_facts(1) blk_facts(1) _ _ blk_disjoint u(2) v(2)] by blast
  with u(1) v(1) show ?case by (simp add: blk_Suc)
qed

lemma rd_acc_int_all:
  assumes "int_defined op {..<2 ^ K} (\<lambda>q. sint (x q))" "r < 2 ^ K"
  shows "\<exists>v. rd_acc (elem_op Int32 op) x K r = Inr v \<and>
    sint v = int_reduce op {..<2 ^ K} (\<lambda>q. sint (x q))"
proof -
  have "blk K K r = {..<2 ^ K}" using assms(2) by (auto simp: blk_def)
  with rd_acc_int [OF assms(1) order_refl assms(2)] show ?thesis by simp
qed

lemma rd_acc_float: "\<exists>v. rd_acc (elem_op Float32 op) x s r = Inr v"
proof (induction s arbitrary: r)
  case (Suc s)
  from Suc [of r] Suc [of "partner s r"] show ?case
    by (auto simp: elem_op_def split: ReduceOp.splits)
qed simp

subsection \<open>Agreement of floating-point results\<close>

text \<open>
  Two partners compute \<open>f a b\<close> and \<open>f b a\<close>. \<open>commuting op a b\<close> is when these are the same bits:
  for a sum neither is NaN, for a minimum or maximum one is strictly less or both are identical.
\<close>

definition commuting :: "ReduceOp \<Rightarrow> u32 \<Rightarrow> u32 \<Rightarrow> bool" where
  "commuting op a b \<longleftrightarrow>
     (case op of Sum_op \<Rightarrow> \<not> f32_is_nan a \<and> \<not> f32_is_nan b
      | Min_op \<Rightarrow> f32_lt a b \<noteq> f32_lt b a \<or> a = b
      | Max_op \<Rightarrow> f32_lt a b \<noteq> f32_lt b a \<or> a = b)"

lemma commuting_elem_op: "commuting op a b \<Longrightarrow> elem_op Float32 op a b = elem_op Float32 op b a"
  by (cases op) (auto simp: commuting_def elem_op_def std_min_def std_max_def f32_add_commute)

lemma partner_blk: "q \<in> blk K k r \<Longrightarrow> k < K \<Longrightarrow> partner k q \<in> blk K k (partner k r)"
  by (auto simp: blk_def partner_div intro: partner_less)

lemma rd_acc_agree:
  assumes comm: "\<And>s r a b. s < K \<Longrightarrow> r < 2 ^ K \<Longrightarrow> rd_acc f x s r = Inr a \<Longrightarrow>
      rd_acc f x s (partner s r) = Inr b \<Longrightarrow> f a b = f b a"
    and ok: "\<And>s r. \<exists>v. rd_acc f x s r = Inr v"
    and k: "k \<le> K" and q: "q \<in> blk K k r" and r: "r < 2 ^ K"
  shows "rd_acc f x k q = rd_acc f x k r"
  using k q r
proof (induction k arbitrary: q r)
  case 0
  then show ?case by (simp add: blk_def)
next
  case (Suc k)
  obtain a b where a: "rd_acc f x k r = Inr a" and b: "rd_acc f x k (partner k r) = Inr b"
    using ok by meson
  have p: "partner k r < 2 ^ K" using partner_less [OF Suc.prems(3)] Suc.prems(1) by simp
  have k: "k \<le> K" "k < K" using Suc.prems(1) by simp_all
  from Suc.prems(2) consider "q \<in> blk K k r" | "q \<in> blk K k (partner k r)" by (auto simp: blk_Suc)
  then show ?case
  proof cases
    case 1
    then have "rd_acc f x k q = Inr a" "rd_acc f x k (partner k q) = Inr b"
      using Suc.IH [OF k(1) _ Suc.prems(3)] Suc.IH [OF k(1) partner_blk [OF 1 k(2)] p] a b by simp_all
    with a b show ?thesis by simp
  next
    case 2
    then have "rd_acc f x k q = Inr b" "rd_acc f x k (partner k q) = Inr a"
      using Suc.IH [OF k(1) 2 p] Suc.IH [OF k(1) _ Suc.prems(3), of "partner k q"]
        partner_blk [OF 2 k(2)] a b by simp_all
    with a b comm [OF k(2) Suc.prems(3) a b] show ?thesis by simp
  qed
qed

lemma rd_int32_ends:
  assumes "rc_contract F \<alpha>" and "is_power_of_two (int P)"
    and "procs w = ranks P (\<lambda>r. allreduce_recursive_doubling (A r) Return)"
    and "\<forall>x. idle (\<alpha> (net w) x)" and "allreduce_ready P n Int32 op n A (\<alpha> (net w))"
    and "\<forall>i<n. int_defined op {..<P} (\<lambda>q. sint (elem A (mems w) q i))"
  shows "always_ends (exec F) w (\<lambda>f. (\<forall>r. procs f r = Return) \<and>
     (\<forall>r<P. (\<forall>i<n. sint (elem A (mems f) r i) =
                int_reduce op {..<P} (\<lambda>q. sint (elem A (mems w) q i))) \<and>
            same_outside (A r) (mems w r) (mems f r)))"
proof -
  obtain K where "int P = 2 ^ K" using is_power_of_two_exists [OF assms(2)] by blast
  then have P: "P = 2 ^ K" by (metis of_nat_eq_iff of_nat_numeral of_nat_power)
  have acc: "\<exists>v. rd_acc (elem_op Int32 op) (\<lambda>q. elem A (mems w) q i) K r = Inr v \<and>
      sint v = int_reduce op {..<P} (\<lambda>q. sint (elem A (mems w) q i))" if "r < 2 ^ K" "i < n" for r i
    using rd_acc_int_all [of op K "\<lambda>q. elem A (mems w) q i" r] assms(6) that by (simp add: P)
  have ends: "always_ends (exec F) w (\<lambda>f. (\<forall>r. procs f r = Return) \<and>
     (\<forall>r<2 ^ K. (\<forall>i<n. Inr (elem A (mems f) r i) = rd_acc (elem_op Int32 op) (\<lambda>q. elem A (mems w) q i) K r) \<and>
        same_outside (A r) (mems w r) (mems f r)))"
    by (rule rd_always_ends [OF assms(1,3) [unfolded P] _ assms(5) [unfolded P]]) (use assms(4) acc in blast)+
  then show ?thesis
    by (rule always_ends_mono) (use acc in \<open>fastforce simp: P\<close>)
qed

subsection \<open>Properties\<close>

text \<open>
  C3: recursive-doubling allreduce of \<^verbatim>\<open>int32_t\<close> data is correct for every power-of-two number of
  ranks, on every fabric that keeps the reliable-connection contract and under every interleaving:
  all schedules end, every rank returns with the sum, minimum or maximum over all ranks in every
  element, and nothing outside its data and scratch buffers has changed.
\<close>

theorem allreduce_rd_int32:
  assumes "rc_contract F \<alpha>" and "is_power_of_two (int P)"
    and "procs w = ranks P (\<lambda>r. allreduce_recursive_doubling (A r) Return)"
    and "\<forall>x. idle (\<alpha> (net w) x)" and "allreduce_ready P n Int32 op n A (\<alpha> (net w))"
    and "\<forall>i<n. int_defined op {..<P} (\<lambda>q. sint (elem A (mems w) q i))"
  shows "always_ends (exec F) w (\<lambda>f. (\<forall>r. procs f r = Return) \<and>
     (\<forall>r<P. (\<forall>i<n. sint (elem A (mems f) r i) =
                int_reduce op {..<P} (\<lambda>q. sint (elem A (mems w) q i))) \<and>
            same_outside (A r) (mems w r) (mems f r)))"
  using assms by (rule rd_int32_ends)

theorem allreduce_rd_int32_witness:
  "always_ends (exec rc_fabric)
     (sample_job 4 3 (\<lambda>r. allreduce_recursive_doubling (sample_args 4 3 Int32 Max_op r) Return))
     (\<lambda>f. \<forall>r<4. sint (elem (sample_args 4 3 Int32 Max_op) (mems f) r 1) = 31)"
proof -
  let ?w = "sample_job 4 3 (\<lambda>r. allreduce_recursive_doubling (sample_args 4 3 Int32 Max_op r) Return)"
  have pow: "is_power_of_two (int 4)" by (simp add: is_power_of_two_def)
  have ready: "allreduce_ready 4 3 Int32 Max_op 3 (sample_args 4 3 Int32 Max_op) (id (net ?w))"
    by (rule sample_ready) simp_all
  have def: "\<forall>i<3. int_defined Max_op {..<4} (\<lambda>q. sint (elem (sample_args 4 3 Int32 Max_op) (mems ?w) q i))"
    by (simp add: int_defined_def)
  have s: "int_reduce Max_op {..<4} (\<lambda>q. sint (elem (sample_args 4 3 Int32 Max_op) (mems ?w) q 1)) = 31"
  proof -
    have "{..<4::nat} = {0, 1, 2, 3}" by auto
    then show ?thesis by (simp add: int_reduce_def sample_sint)
  qed
  show ?thesis
    by (rule always_ends_mono [OF allreduce_rd_int32 [where w = ?w and \<alpha> = id,
        OF rc_ref.rc_contract_axioms pow _ _ ready def]])
       (use sample_idle s in simp_all)
qed

text \<open>
  C25: recursive-doubling allreduce of \<^verbatim>\<open>float\<close> data makes all ranks agree bit for bit as long as
  partners never combine a NaN in a sum, and never compare NaNs or zeros of different sign
  in a minimum or maximum.
\<close>

theorem allreduce_rd_float_agree:
  assumes "rc_contract F \<alpha>" and "P = 2 ^ K"
    and "procs w = ranks P (\<lambda>r. allreduce_recursive_doubling (A r) Return)"
    and "\<forall>x. idle (\<alpha> (net w) x)" and "allreduce_ready P n Float32 op n A (\<alpha> (net w))"
    and "\<forall>i<n. \<forall>s<K. \<forall>r<P. \<forall>a b.
       rd_acc (elem_op Float32 op) (\<lambda>q. elem A (mems w) q i) s r = Inr a \<longrightarrow>
       rd_acc (elem_op Float32 op) (\<lambda>q. elem A (mems w) q i) s (partner s r) = Inr b \<longrightarrow> commuting op a b"
  shows "always_ends (exec F) w (\<lambda>f. (\<forall>r. procs f r = Return) \<and>
     (\<forall>r<P. \<forall>i<n. elem A (mems f) r i = elem A (mems f) 0 i))"
proof -
  let ?acc = "\<lambda>i. rd_acc (elem_op Float32 op) (\<lambda>q. elem A (mems w) q i) K"
  have ends: "always_ends (exec F) w (\<lambda>f. (\<forall>r. procs f r = Return) \<and>
     (\<forall>r<2 ^ K. (\<forall>i<n. Inr (elem A (mems f) r i) = ?acc i r) \<and> same_outside (A r) (mems w r) (mems f r)))"
    by (rule rd_always_ends [OF assms(1) assms(3) [unfolded assms(2)] _ assms(5) [unfolded assms(2)] rd_acc_float])
       (use assms(4) in blast)
  have agree: "?acc i r = ?acc i 0" if "i < n" "r < 2 ^ K" for i r
  proof (rule rd_acc_agree [OF _ rd_acc_float order_refl])
    show "r \<in> blk K K 0" using that(2) by (simp add: blk_def)
    fix s r' a b assume "s < K" "r' < 2 ^ K"
      "rd_acc (elem_op Float32 op) (\<lambda>q. elem A (mems w) q i) s r' = Inr a"
      "rd_acc (elem_op Float32 op) (\<lambda>q. elem A (mems w) q i) s (partner s r') = Inr b"
    then have "commuting op a b" using assms(6) that(1) by (simp add: assms(2))
    then show "elem_op Float32 op a b = elem_op Float32 op b a" by (rule commuting_elem_op)
  qed simp
  have same: "elem A (mems f) r i = elem A (mems f) 0 i"
    if f: "\<forall>r<2 ^ K. \<forall>i<n. Inr (elem A (mems f) r i) = ?acc i r" and "i < n" "r < P" for r i f
  proof -
    have "Inr (elem A (mems f) r i) = ?acc i r" "Inr (elem A (mems f) 0 i) = ?acc i 0"
      using f that(2,3) assms(2) by simp_all
    with agree [of i r] that(2,3) assms(2) show ?thesis by (metis sum.inject(2))
  qed
  show ?thesis
    by (rule always_ends_mono [OF ends]) (use same in blast)
qed

theorem allreduce_rd_float_agree_witness:
  "always_ends (exec rc_fabric)
     (sample_job 2 2 (\<lambda>r. allreduce_recursive_doubling (sample_args 2 2 Float32 Sum_op r) Return))
     (\<lambda>f. \<forall>r<2. \<forall>i<2. elem (sample_args 2 2 Float32 Sum_op) (mems f) r i =
        elem (sample_args 2 2 Float32 Sum_op) (mems f) 0 i)"
proof -
  let ?w = "sample_job 2 2 (\<lambda>r. allreduce_recursive_doubling (sample_args 2 2 Float32 Sum_op r) Return)"
  have ready: "allreduce_ready 2 2 Float32 Sum_op 2 (sample_args 2 2 Float32 Sum_op) (id (net ?w))"
    by (rule sample_ready) simp_all
  have nan: "\<not> f32_is_nan (elem (sample_args 2 2 Float32 Sum_op) sample_mem q i)" if "q < 2" "i < 2" for q i
  proof -
    have "\<not> f32_is_nan 0 \<and> \<not> f32_is_nan 1 \<and> \<not> f32_is_nan 10 \<and> \<not> f32_is_nan 11" by code_simp
    moreover have "q = 0 \<or> q = 1" "i = 0 \<or> i = 1" using that by auto
    ultimately show ?thesis by (auto simp: sample_elem)
  qed
  have pl: "partner 0 r < 2" if "r < 2" for r using partner_less [of r 1 0] that by simp
  have comm: "\<forall>i<2. \<forall>s<1. \<forall>r<2. \<forall>a b.
       rd_acc (elem_op Float32 Sum_op) (\<lambda>q. elem (sample_args 2 2 Float32 Sum_op) (mems ?w) q i) s r = Inr a \<longrightarrow>
       rd_acc (elem_op Float32 Sum_op) (\<lambda>q. elem (sample_args 2 2 Float32 Sum_op) (mems ?w) q i) s (partner s r) = Inr b \<longrightarrow>
       commuting Sum_op a b"
    using nan pl by (auto simp: commuting_def)
  have "always_ends (exec rc_fabric) ?w (\<lambda>f. (\<forall>r. procs f r = Return) \<and>
      (\<forall>r<2. \<forall>i<2. elem (sample_args 2 2 Float32 Sum_op) (mems f) r i =
        elem (sample_args 2 2 Float32 Sum_op) (mems f) 0 i))"
    by (rule allreduce_rd_float_agree [where w = ?w and \<alpha> = id and K = 1,
        OF rc_ref.rc_contract_axioms _ _ _ ready comm]) (use sample_idle in simp_all)
  then show ?thesis by (rule always_ends_mono) blast
qed

text \<open>
  C26: without that condition ranks can end with different results: two ranks that reduce one
  \<^verbatim>\<open>float\<close> each with Min, one of them NaN and the other 1.0, return with NaN on one rank and
  1.0 on the other, whatever the interleaving, because \<^verbatim>\<open>std::min\<close> keeps its first argument.
\<close>

definition nan_job :: "(nat \<Rightarrow> endpoint) job" where
  "nan_job = (sample_job 2 1 (\<lambda>r. allreduce_recursive_doubling (sample_args 2 1 Float32 Min_op r) Return))
     \<lparr>mems := (\<lambda>r. store32 (\<lambda>_. 0) 0 (if r = 0 then 0x7FC00000 else 0x3F800000))\<rparr>"

theorem allreduce_rd_nan_disagree:
  "always_ends (exec rc_fabric) nan_job (\<lambda>f. (\<forall>r. procs f r = Return) \<and>
     elem (sample_args 2 1 Float32 Min_op) (mems f) 0 0 = 0x7FC00000 \<and>
     elem (sample_args 2 1 Float32 Min_op) (mems f) 1 0 = 0x3F800000)"
proof -
  let ?A = "sample_args 2 1 Float32 Min_op" and ?x = "\<lambda>r. if r = 0 then 0x7FC00000 else 0x3F800000 :: u32"
  let ?w0 = "sample_job 2 1 (\<lambda>r. allreduce_recursive_doubling (?A r) Return)"
  have ready: "allreduce_ready (2 ^ 1) 1 Float32 Min_op 1 ?A (id (net ?w0))"
    using sample_ready [of 2 1 1 Float32 Min_op] by simp
  have x: "(\<lambda>q. elem ?A (mems nan_job) q 0) = ?x"
    by (auto simp: nan_job_def elem_def sample_args_def load32_store32_same fun_eq_iff)
  have ends: "always_ends (exec rc_fabric) nan_job (\<lambda>f. (\<forall>r. procs f r = Return) \<and>
     (\<forall>r<2 ^ 1. (\<forall>i<1. Inr (elem ?A (mems f) r i) =
        rd_acc (elem_op Float32 Min_op) (\<lambda>q. elem ?A (mems nan_job) q i) 1 r) \<and>
      same_outside (?A r) (mems nan_job r) (mems f r)))"
    by (rule rd_always_ends [where \<alpha> = id, OF rc_ref.rc_contract_axioms _ _ _ rd_acc_float])
       (use sample_idle [of 2 1] ready in \<open>simp_all add: nan_job_def sample_job_def\<close>)
  have "partner 0 0 = 1" "partner 0 1 = 0" by (simp_all add: partner_def)
  moreover have "f32_is_nan 0x7FC00000"
    by (simp add: f32_is_nan_def f32_exp_def f32_frac_def drop_bit_eq_div)
  then have "\<not> f32_lt 0x3F800000 0x7FC00000" "\<not> f32_lt 0x7FC00000 0x3F800000"
    by (simp_all add: f32_lt_def)
  ultimately have v: "rd_acc (elem_op Float32 Min_op) (\<lambda>q. elem ?A (mems nan_job) q 0) 1 0 = Inr 0x7FC00000"
    "rd_acc (elem_op Float32 Min_op) (\<lambda>q. elem ?A (mems nan_job) q 0) 1 1 = Inr 0x3F800000"
    unfolding x by (simp_all add: elem_op_def std_min_def)
  have "elem ?A (mems f) 0 0 = 0x7FC00000 \<and> elem ?A (mems f) 1 0 = 0x3F800000"
    if f: "\<forall>r<2 ^ 1. \<forall>i<1. Inr (elem ?A (mems f) r i) =
        rd_acc (elem_op Float32 Min_op) (\<lambda>q. elem ?A (mems nan_job) q i) 1 r" for f :: "(nat \<Rightarrow> endpoint) job"
  proof -
    have "Inr (elem ?A (mems f) 0 0) = rd_acc (elem_op Float32 Min_op) (\<lambda>q. elem ?A (mems nan_job) q 0) 1 0"
      "Inr (elem ?A (mems f) 1 0) = rd_acc (elem_op Float32 Min_op) (\<lambda>q. elem ?A (mems nan_job) q 0) 1 1"
      by (rule f [rule_format]; simp)+
    then show ?thesis unfolding v by simp
  qed
  then show ?thesis
    by (intro always_ends_mono [OF ends]) blast
qed

text \<open>
  C33: the guards of recursive doubling fire before any message is posted: a count beyond the
  registered data, a number of ranks that is not a power of two, a scratch buffer smaller
  than the data; otherwise the loop runs exactly \<open>log\<^sub>2 P\<close> steps.
\<close>

theorem allreduce_rd_guards:
  assumes "connected P r (ar_comm a)" and "0 < P" and "4 * ar_count a < 2 ^ 64"
  shows "allreduce_recursive_doubling a k =
     (if mr_length (ar_data_mr a) < 4 * ar_count a
      then Throw (RuntimeError
             ''allreduce_recursive_doubling: count exceeds registered data buffer length'' [])
      else if \<nexists>K. P = 2 ^ K
      then Throw (RuntimeError
             ''allreduce_recursive_doubling: world_size (%) must be a power of two'' [int P])
      else if P = 1 then k
      else if ar_scratch_capacity a < ar_count a
      then Throw (RuntimeError
             ''allreduce_recursive_doubling: scratch buffer (% elems) smaller than the full buffer (% elems) -- recursive doubling exchanges the whole message every step, unlike ring's per-chunk scratch requirement''
             [int (ar_scratch_capacity a), int (ar_count a)])
      else rd_loop a (rd_steps (int P) 0) 0 k) \<and>
    (\<forall>K. P = 2 ^ K \<longrightarrow> rd_steps (int P) 0 = K)"
proof -
  have pow: "is_power_of_two (int P) \<longleftrightarrow> (\<exists>K. P = 2 ^ K)"
  proof
    assume "is_power_of_two (int P)"
    then obtain K where "int P = 2 ^ K" using is_power_of_two_exists by blast
    then show "\<exists>K. P = 2 ^ K" by (metis of_nat_eq_iff of_nat_numeral of_nat_power)
  next
    assume "\<exists>K. P = 2 ^ K"
    then show "is_power_of_two (int P)" using is_power_of_two_pow by auto
  qed
  have st: "rd_steps (int P) 0 = K" if "P = 2 ^ K" for K
    using that rd_steps_pow [of K 0] by simp
  have bytes: "sz_mul (ar_count a) 4 = 4 * ar_count a" using assms(3) by (simp add: sz_mul_exact)
  show ?thesis
    unfolding allreduce_recursive_doubling_def Let_def
    by (intro conjI allI impI, simp only: connectedD(2) [OF assms(1)] dtype_size_4 bytes pow
        of_nat_eq_1_iff) (rule st)
qed

theorem allreduce_rd_guards_witness:
  "allreduce_recursive_doubling (sample_args 3 10 Int32 Sum_op 0) Return =
     Throw (RuntimeError ''allreduce_recursive_doubling: world_size (%) must be a power of two'' [3])"
proof -
  have "(3::nat) \<noteq> 2 ^ K" for K by (cases K) (auto, presburger)
  then show ?thesis
    using allreduce_rd_guards [of 3 0 "sample_args 3 10 Int32 Sum_op 0" Return]
    by (simp add: connected_def sample_args_def)
qed

text \<open>
  Recursive doubling sends exactly \<open>log\<^sub>2 P\<close> messages per rank, each with the whole buffer.
\<close>

theorem allreduce_rd_traffic:
  assumes "allreduce_ready (2 ^ K) n dt op n A E" and "r < 2 ^ K"
  shows "traffic (allreduce_recursive_doubling (A r) Return) 0 = replicate K (4 * n)"
proof -
  have u: "to_u32 (4 * n) = 4 * n" using assms(1) by (simp add: allreduce_ready_def to_u32_exact)
  have "traffic (rd_loop (A r) (Suc K - 1 - 0) 0 Return) 0 = concat (map (\<lambda>_. [4 * n]) [0..<Suc K - 1]) @ []"
  proof (rule traffic_loop [where prog = "\<lambda>s. rd_loop (A r) (Suc K - 1 - s) s Return"])
    fix s l assume s: "Suc s < Suc K"
    then have "rd_loop (A r) (Suc K - 1 - s) s Return = rd_prog n (A r) r s (rd_loop (A r) (Suc K - 1 - Suc s) (Suc s) Return)"
      using rd_loop_prog [OF assms(1) _ assms(2), of s Return] by simp
    then show "\<exists>l'. traffic (rd_loop (A r) (Suc K - 1 - s) s Return) l =
        [4 * n] @ traffic (rd_loop (A r) (Suc K - 1 - Suc s) (Suc s) Return) l'"
      by (simp add: rd_prog_def traffic_sendrecv u) (metis (no_types))
  qed simp
  then show ?thesis by (simp add: rd_unfold [OF assms] map_replicate_const)
qed

theorem allreduce_rd_traffic_witness:
  "traffic (allreduce_recursive_doubling (sample_args 8 5 Float32 Sum_op 3) Return) 0 = [20, 20, 20]"
proof -
  have "allreduce_ready (2 ^ 3) 5 Float32 Sum_op 5 (sample_args 8 5 Float32 Sum_op)
      (id (net (sample_job 8 5 (\<lambda>_. Return))))"
    using sample_ready [of 8 5 5] by simp
  from allreduce_rd_traffic [OF this, of 3] show ?thesis by (simp add: numeral_3_eq_3)
qed

end
