(* ===== verification/Allreduce_Call.thy ===== *)
theory Allreduce_Call
  imports Allreduce_Ring Allreduce_RD
begin

text \<open>
  Either allreduce as its callers see it, the benchmark and the integration tests: locale \<open>allreduce_call\<close> and, for \<^verbatim>\<open>int32_t\<close>, locale
  \<open>int32_allreduce\<close>, both interpreted for ring allreduce and for recursive doubling.
\<close>

section \<open>The interface\<close>

text \<open>
  For either algorithm: called by all ranks over idle queues it runs through, leaves \<open>result\<close> of the
  elements in the data and everything outside the buffers alone, and keeps the buffer discipline.
\<close>

locale allreduce_call =
  fixes call :: "allreduce_args \<Rightarrow> rprog \<Rightarrow> rprog"
    and ready :: "nat \<Rightarrow> nat \<Rightarrow> Dtype \<Rightarrow> ReduceOp \<Rightarrow> (nat \<Rightarrow> allreduce_args) \<Rightarrow> (nat \<Rightarrow> endpoint) \<Rightarrow> bool"
    and result :: "nat \<Rightarrow> nat \<Rightarrow> (u32 \<Rightarrow> u32 \<Rightarrow> u32 result) \<Rightarrow> (nat \<Rightarrow> nat \<Rightarrow> u32) \<Rightarrow> nat \<Rightarrow> nat \<Rightarrow> u32 result"
  assumes call_stage: "ready P n dt op A E \<Longrightarrow> (\<And>x. idle (E x)) \<Longrightarrow>
      (\<And>r i. r < P \<Longrightarrow> i < n \<Longrightarrow> \<exists>v. result P n (elem_op dt op) (elem A M) r i = Inr v) \<Longrightarrow>
      stage w (ranks P (\<lambda>r. call (A r) (k r))) M E \<Longrightarrow>
      \<exists>as w' M'. run (exec rc_fabric) as w = Some w' \<and> stage w' (ranks P k) M' E \<and>
        (\<forall>r<P. (\<forall>i<n. Inr (elem A M' r i) = result P n (elem_op dt op) (elem A M) r i) \<and> same_outside (A r) (M r) (M' r))"
    and call_disc: "ready P n dt op A E \<Longrightarrow> r < P \<Longrightarrow> disc p None None \<Longrightarrow> disc (call (A r) p) None None"
    and result_cong: "ready P n dt op A E \<Longrightarrow> (\<And>q i. q < P \<Longrightarrow> i < n \<Longrightarrow> x q i = y q i) \<Longrightarrow> r < P \<Longrightarrow> i < n \<Longrightarrow>
      result P n f x r i = result P n f y r i"

text \<open>
  On \<^verbatim>\<open>int32_t\<close> data whose reduction is defined, the result is the reduction over all ranks.
\<close>

locale int32_allreduce = allreduce_call +
  assumes int_result: "ready P n Int32 op A E \<Longrightarrow> r < P \<Longrightarrow> i < n \<Longrightarrow> int_defined op {..<P} (\<lambda>q. sint (x q i)) \<Longrightarrow>
      \<exists>v. result P n (elem_op Int32 op) x r i = Inr v \<and> sint v = int_reduce op {..<P} (\<lambda>q. sint (x q i))"
begin

lemma int_stage:
  assumes ready: "ready P n Int32 op A E" and idle: "\<And>x. idle (E x)"
    and defined: "\<And>i. i < n \<Longrightarrow> int_defined op {..<P} (\<lambda>q. sint (elem A M q i))"
    and w: "stage w (ranks P (\<lambda>r. call (A r) (k r))) M E"
  shows "\<exists>as w' M'. run (exec rc_fabric) as w = Some w' \<and> stage w' (ranks P k) M' E \<and>
    (\<forall>r<P. (\<forall>i<n. sint (elem A M' r i) = int_reduce op {..<P} (\<lambda>q. sint (elem A M q i))) \<and> same_outside (A r) (M r) (M' r))"
proof -
  note val = int_result [where x = "elem A M", OF ready _ _ defined]
  have "\<exists>v. result P n (elem_op Int32 op) (elem A M) r i = Inr v" if "r < P" "i < n" for r i using val that by blast
  from call_stage [OF ready idle this w] show ?thesis using val by (metis Inr_inject)
qed

end

section \<open>The two algorithms\<close>

definition ring_ready where
  "ring_ready P n dt op A E \<longleftrightarrow> 2 \<le> P \<and> allreduce_ready P n dt op (chunk_len n P 0) A E"

definition ring_result where
  "ring_result P n f x r i = ring_acc f P (\<lambda>q. x q i) (chunk_of n P i) (P - 1)"

definition rd_ready where
  "rd_ready P n dt op A E \<longleftrightarrow> is_power_of_two (int P) \<and> allreduce_ready P n dt op n A E"

definition rd_result :: "nat \<Rightarrow> nat \<Rightarrow> (u32 \<Rightarrow> u32 \<Rightarrow> u32 result) \<Rightarrow> (nat \<Rightarrow> nat \<Rightarrow> u32) \<Rightarrow> nat \<Rightarrow> nat \<Rightarrow> u32 result" where
  "rd_result P n f x r i = rd_acc f (\<lambda>q. x q i) (rd_steps (int P) 0) r"

lemma rd_ready_pow:
  assumes "rd_ready P n dt op A E"
  obtains K where "P = 2 ^ K"
  using assms is_power_of_two_exists [of "int P"] unfolding rd_ready_def by (metis of_nat_eq_iff of_nat_numeral of_nat_power)

lemma ring_acc_cong:
  "0 < P \<Longrightarrow> c < P \<Longrightarrow> (\<And>q. q < P \<Longrightarrow> x q = y q) \<Longrightarrow> ring_acc f P x c d = ring_acc f P y c d"
  by (induction d) simp_all

lemma rd_acc_cong:
  "(\<And>q. q < 2 ^ K \<Longrightarrow> x q = y q) \<Longrightarrow> s \<le> K \<Longrightarrow> r < 2 ^ K \<Longrightarrow> rd_acc f x s r = rd_acc f y s r"
proof (induction s arbitrary: r)
  case (Suc s)
  then show ?case using partner_less [of r K s] by simp
qed simp

interpretation ring_call: allreduce_call allreduce_ring ring_ready ring_result
proof (unfold_locales, goal_cases)
  case (1 P n dt op A E M w k)
  then obtain v where v: "\<And>i. i < n \<Longrightarrow> ring_acc (elem_op dt op) P (\<lambda>q. elem A M q i) (chunk_of n P i) (P - 1) = Inr (v i)"
    unfolding ring_ready_def ring_result_def by (metis less_le_trans zero_less_numeral)
  from 1 obtain as w' M' where "run (exec rc_fabric) as w = Some w'" "stage w' (ranks P k) M' E"
    "\<forall>r<P. (\<forall>i<n. elem A M' r i = v i) \<and> same_outside (A r) (M r) (M' r)"
    using ring_stage [where n = n and P = P and A = A and M = M, OF _ order_refl _ _ _ v] unfolding ring_ready_def by blast
  then show ?case using v by (auto simp: ring_result_def)
next
  case (2 P n dt op A E r p)
  then show ?case using disc_allreduce_ring [OF _ order_refl] unfolding ring_ready_def by blast
next
  case (3 P n dt op A E x y r i f)
  then show ?case unfolding ring_result_def
    by (intro ring_acc_cong) (auto intro: chunk_of_less)
qed

interpretation rd_call: allreduce_call allreduce_recursive_doubling rd_ready rd_result
proof (unfold_locales, goal_cases)
  case (1 P n dt op A E M w k)
  then obtain K where K: "P = 2 ^ K" using rd_ready_pow by blast
  have st: "rd_steps (int P) 0 = K" using rd_steps_pow [of K 0] by (simp add: K)
  from 1 show ?case unfolding rd_ready_def rd_result_def st
    using rd_stage [where K = K and n = n and dt = dt and op = op and A = A and E = E and w = w and k = k and M = M]
    by (auto simp: K rd_state_def elem_def)
next
  case (2 P n dt op A E r p)
  then obtain K where K: "P = 2 ^ K" using rd_ready_pow by blast
  with 2 show ?case using disc_rd unfolding rd_ready_def by blast
next
  case (3 P n dt op A E x y r i f)
  then obtain K where K: "P = 2 ^ K" using rd_ready_pow by blast
  have st: "rd_steps (int P) 0 = K" using rd_steps_pow [of K 0] by (simp add: K)
  show ?case unfolding rd_result_def st
    by (rule rd_acc_cong) (use 3 K in auto)
qed

interpretation ring_call: int32_allreduce allreduce_ring ring_ready ring_result
proof
  fix P n op A E r i and x :: "nat \<Rightarrow> nat \<Rightarrow> u32"
  assume "ring_ready P n Int32 op A E" "i < n" "int_defined op {..<P} (\<lambda>q. sint (x q i))"
  then show "\<exists>v. ring_result P n (elem_op Int32 op) x r i = Inr v \<and> sint v = int_reduce op {..<P} (\<lambda>q. sint (x q i))"
    using ring_acc_int_all [of i n P op "\<lambda>q. x q i"] by (auto simp: ring_ready_def ring_result_def)
qed

interpretation rd_call: int32_allreduce allreduce_recursive_doubling rd_ready rd_result
proof
  fix P n op A E r i and x :: "nat \<Rightarrow> nat \<Rightarrow> u32"
  assume a: "rd_ready P n Int32 op A E" "r < P" "int_defined op {..<P} (\<lambda>q. sint (x q i))"
  obtain K where K: "P = 2 ^ K" using rd_ready_pow [OF a(1)] .
  have st: "rd_steps (int P) 0 = K" using rd_steps_pow [of K 0] by (simp add: K)
  show "\<exists>v. rd_result P n (elem_op Int32 op) x r i = Inr v \<and> sint v = int_reduce op {..<P} (\<lambda>q. sint (x q i))"
    unfolding rd_result_def st using rd_acc_int_all [of op K "\<lambda>q. x q i" r] a(2,3) by (simp add: K)
qed

text \<open>Results are defined whatever the data is, except for sums of \<^verbatim>\<open>int32_t\<close>.\<close>

lemma elem_op_total: "dt = Float32 \<or> op \<noteq> Sum_op \<Longrightarrow> \<exists>v. elem_op dt op a b = Inr v"
  by (cases dt; cases op) (auto simp: elem_op_def)

lemma results_defined:
  assumes "dt = Float32 \<or> op \<noteq> Sum_op"
  shows "\<exists>v. ring_result P n (elem_op dt op) x r i = Inr v" "\<exists>v. rd_result P n (elem_op dt op) x r i = Inr v"
proof -
  have "\<exists>v. ring_acc (elem_op dt op) P y c d = Inr v" for y c d
    using elem_op_total [OF assms] by (induction d) auto
  moreover have "\<exists>v. rd_acc (elem_op dt op) y s r = Inr v" for y s
  proof (induction s arbitrary: r)
    case (Suc s)
    from Suc [of r] Suc [of "partner s r"] show ?case using elem_op_total [OF assms] by auto
  qed simp
  ultimately show "\<exists>v. ring_result P n (elem_op dt op) x r i = Inr v" "\<exists>v. rd_result P n (elem_op dt op) x r i = Inr v"
    by (simp_all add: ring_result_def rd_result_def)
qed

end
