(* ===== verification/Allgather.thy ===== *)
theory Allgather
  imports Ring_Gather Traffic
begin

text \<open>
  \<^verbatim>\<open>src/collectives/allgather.cc\<close>: every rank contributes its own segment of the buffer; \<open>P - 1\<close>
  ring steps fill in the others in place.
\<close>

record allgather_args =
  ag_comm :: communicator
  ag_mr :: MemoryRegion
  ag_buf :: nat
  ag_send_count :: nat
  ag_dtype :: Dtype

abbreviation allgather_mismatch :: string where
  "allgather_mismatch \<equiv> ''allgather: recv size mismatch, expected % got % -- ranks disagree on send_count''"

definition allgather_step :: "allgather_args \<Rightarrow> nat \<Rightarrow> rprog \<Rightarrow> rprog" where
  "allgather_step a step k =
     (let P = comm_size (ag_comm a); R = comm_rank (ag_comm a);
          send_to = mod_p P (R + 1); recv_from = mod_p P (R - 1);
          seg_bytes = sz_mul (ag_send_count a) (dtype_size (ag_dtype a));
          send_idx = mod_p P (R - int step); recv_idx = mod_p P (R - int step - 1)
      in with_qp (ag_comm a) recv_from (\<lambda>q.
           post_recv q (ag_mr a) (ag_buf a + sz_mul (nat recv_idx) seg_bytes) seg_bytes 0
        (with_qp (ag_comm a) send_to (\<lambda>q.
           post_send q (ag_mr a) (ag_buf a + sz_mul (nat send_idx) seg_bytes) seg_bytes 0 True
        (wait_completion SendCq (\<lambda>_. wait_completion RecvCq (\<lambda>wc.
           if wc_byte_len wc \<noteq> seg_bytes
           then Throw (RuntimeError allgather_mismatch [int seg_bytes, int (wc_byte_len wc)])
           else k)))))))"

fun allgather_loop :: "allgather_args \<Rightarrow> nat \<Rightarrow> nat \<Rightarrow> rprog \<Rightarrow> rprog" where
  "allgather_loop a 0 step k = k"
| "allgather_loop a (Suc n) step k = allgather_step a step (allgather_loop a n (Suc step) k)"

definition allgather :: "allgather_args \<Rightarrow> rprog \<Rightarrow> rprog" where
  "allgather a k =
     (let P = comm_size (ag_comm a); elem_size = dtype_size (ag_dtype a);
          total_bytes = sz_mul (sz_mul (nat (P mod 2 ^ 64)) (ag_send_count a)) elem_size
      in if total_bytes > mr_length (ag_mr a)
         then Throw (RuntimeError
                ''allgather: world_size * send_count exceeds registered buffer length'' [])
         else if P = 1 then k
         else allgather_loop a (nat (P - 1)) 0 k)"

subsection \<open>What the ranks of a job have to agree on\<close>

definition ag_gbuf :: "allgather_args \<Rightarrow> gather_buf" where
  "ag_gbuf a = \<lparr>gb_mr = ag_mr a, gb_base = ag_buf a\<rparr>"

definition allgather_ready :: "nat \<Rightarrow> nat \<Rightarrow> (nat \<Rightarrow> allgather_args) \<Rightarrow> (nat \<Rightarrow> endpoint) \<Rightarrow> bool" where
  "allgather_ready P m A E \<longleftrightarrow>
     0 < P \<and> P < 2 ^ 31 \<and> 4 * (P * m) < 2 ^ 64 \<and> 4 * m < 2 ^ 32 \<and>
     (\<forall>r<P. connected P r (ag_comm (A r)) \<and> ag_send_count (A r) = m \<and>
        gather_ok (P * m) (ag_gbuf (A r)) (E r))"

text \<open>Element \<open>i\<close> of rank \<open>r\<close>'s buffer.\<close>

definition ag_elem :: "(nat \<Rightarrow> allgather_args) \<Rightarrow> (nat \<Rightarrow> mem) \<Rightarrow> nat \<Rightarrow> nat \<Rightarrow> u32" where
  "ag_elem A M r i = load32 (M r) (ag_buf (A r) + 4 * i)"

lemma allgather_rank:
  assumes "allgather_ready P m A E" "r < P"
  shows "connected P r (ag_comm (A r))" "ag_send_count (A r) = m" "gather_ok (P * m) (ag_gbuf (A r)) (E r)"
  using assms by (simp_all add: allgather_ready_def)

abbreviation allgather_prog :: "nat \<Rightarrow> nat \<Rightarrow> allgather_args \<Rightarrow> nat \<Rightarrow> nat \<Rightarrow> rprog \<Rightarrow> rprog" where
  "allgather_prog P m a r s \<equiv>
     gather_prog allgather_mismatch (\<lambda>_. True) (\<lambda>c. c * m) (\<lambda>_. m) P (ag_gbuf a) r r s"

lemma allgather_step_resolved:
  assumes ready: "allgather_ready P m A E" and r: "r < P" and P: "2 \<le> P" and s: "Suc s < P"
  shows "allgather_step (A r) s k = allgather_prog P m (A r) r s k"
proof -
  note rk = allgather_rank [OF ready r]
  have b: "4 * (P * m) < 2 ^ 64" "4 * m < 2 ^ 32" using ready by (simp_all add: allgather_ready_def)
  have idx: "mod_p (int P) (int r - int s) = int (behind P r s)"
    "mod_p (int P) (int r - int s - 1) = int (behind P r (Suc s))"
    using mod_p_behind [of P s r] mod_p_behind [of P "Suc s" r] P s by (simp_all add: algebra_simps)
  have seg: "sz_mul m 4 = 4 * m" using b(2) by (simp add: sz_mul_exact)
  have off: "sz_mul c (4 * m) = 4 * (c * m)" if "c < P" for c
  proof -
    have "c * m \<le> P * m" using that by simp
    then have "c * (4 * m) < 2 ^ 64" using b(1) by linarith
    then show ?thesis by (simp add: sz_mul_exact)
  qed
  have lt: "behind P r s < P" "behind P r (Suc s) < P" using P by simp_all
  show ?thesis
    unfolding allgather_step_def gather_prog_def sendrecv_def ag_gbuf_def Let_def
    by (simp only: connectedD(1,2) [OF rk(1)] rk(2) idx ring_peers [OF rk(1) r P] dtype_size_4 seg nat_int
        off [OF lt(1)] off [OF lt(2)] when_do_simps gather_buf.simps)
qed

lemma allgather_loop_prog:
  assumes "allgather_ready P m A E" "2 \<le> P" "Suc s < P" "r < P"
  shows "allgather_loop (A r) (P - 1 - s) s k =
    allgather_prog P m (A r) r s (allgather_loop (A r) (P - 1 - Suc s) (Suc s) k)"
proof -
  have "P - 1 - s = Suc (P - 1 - Suc s)" using assms(3) by simp
  then show ?thesis by (simp only: allgather_loop.simps allgather_step_resolved [OF assms(1,4,2,3)])
qed

lemma allgather_unfold:
  assumes ready: "allgather_ready P m A E" and r: "r < P"
  shows "allgather (A r) k = allgather_loop (A r) (P - 1) 0 k"
proof -
  note rk = allgather_rank [OF ready r]
  have b: "4 * (P * m) < 2 ^ 64" "P < 2 ^ 31" using ready by (simp_all add: allgather_ready_def)
  have P: "nat (int P mod 2 ^ 64) = P" using b(2) by simp
  have "sz_mul P m = P * m" using b(1) by (simp add: sz_mul_exact)
  moreover have "sz_mul (P * m) 4 = 4 * (P * m)" using b(1) by (simp add: sz_mul_exact)
  ultimately have tot: "sz_mul (sz_mul P m) 4 = 4 * (P * m)" by simp
  have g: "\<not> 4 * (P * m) > mr_length (ag_mr (A r))" using rk(3) by (auto simp: gather_ok_def ag_gbuf_def)
  have "nat (int P - 1) = P - 1" by simp
  with g show ?thesis
    unfolding allgather_def Let_def
    by (simp only: connectedD(2) [OF rk(1)] rk(2) dtype_size_4 P tot) simp
qed

lemma allgather_stage:
  assumes ready: "allgather_ready P m A E" and idle: "\<And>x. idle (E x)"
    and w: "stage w (ranks P (\<lambda>r. allgather (A r) (k r))) M E"
  shows "\<exists>as w' M2. run (exec rc_fabric) as w = Some w' \<and> stage w' (ranks P k) M2 E \<and>
    (\<forall>r<P. (\<forall>q<P. \<forall>j<m. ag_elem A M2 r (q * m + j) = ag_elem A M q (q * m + j)) \<and>
       outside_buf (P * m) (ag_gbuf (A r)) (M r) (M2 r))"
proof (cases "2 \<le> P")
  case True
  let ?prog = "\<lambda>s r. allgather_loop (A r) (P - 1 - s) s (k r)"
  let ?v = "\<lambda>i. ag_elem A M (i div m) i"
  have "ranks P (\<lambda>r. allgather (A r) (k r)) = ranks P (?prog 0)"
    by (rule ranks_cong) (simp add: allgather_unfold [OF ready])
  with w have w0: "stage w (ranks P (?prog 0)) M E" by simp
  have init: "block_holds P (\<lambda>c. c * m) (\<lambda>_. m) (ag_gbuf (A r)) ?v 0 r (M r)" if "r < P" for r
    using dist_iff [OF that, of _ 0] by (auto simp: block_holds_def ag_gbuf_def ag_elem_def)
  have len: "4 * m < 2 ^ 32" using ready by (simp add: allgather_ready_def)
  obtain as w' M2 where 1: "run (exec rc_fabric) as w = Some w'" "stage w' (ranks P (?prog (P - 1))) M2 E"
      "\<And>r. r < P \<Longrightarrow> block_holds P (\<lambda>c. c * m) (\<lambda>_. m) (ag_gbuf (A r)) ?v (P - 1) r (M2 r) \<and>
         outside_buf (P * m) (ag_gbuf (A r)) (M r) (M2 r)"
    using segment_ring.gather_loop [where B = "\<lambda>r. ag_gbuf (A r)" and pos = "\<lambda>r. r" and v = ?v
        and act = "\<lambda>_. True", OF allgather_rank(3) [OF ready] idle _ len _ allgather_loop_prog [OF ready True] w0 init]
      True by auto
  have "ag_elem A M2 r (q * m + j) = ag_elem A M q (q * m + j)" if "r < P" "q < P" "j < m" for r q j
  proof -
    have "load32 (M2 r) (gb_base (ag_gbuf (A r)) + 4 * (q * m + j)) = ?v (q * m + j)"
      using 1(3) [OF that(1)] that(2,3) dist_le [of P r q] True unfolding block_holds_def by auto
    then show ?thesis using that(3) by (simp add: ag_elem_def ag_gbuf_def)
  qed
  with 1 show ?thesis by (auto intro!: exI)
next
  case False
  then have P: "P = 1" using ready by (simp add: allgather_ready_def)
  have "ranks P (\<lambda>r. allgather (A r) (k r)) = ranks P k"
    by (rule ranks_cong) (use allgather_unfold [OF ready] P in simp)
  with w show ?thesis
    by (intro exI [of _ "[]"] exI [of _ w] exI [of _ M]) (simp add: P)
qed

lemma disc_allgather:
  assumes ready: "allgather_ready P m A E" and r: "r < P" and k: "disc k None None"
  shows "disc (allgather (A r) k) None None"
proof (cases "2 \<le> P")
  case True
  have "disc (allgather_loop (A r) (P - 1 - 0) 0 k) None None"
  proof (rule disc_loop [where prog = "\<lambda>s. allgather_loop (A r) (P - 1 - s) s k"])
    show "disc (allgather_loop (A r) (P - 1 - s) s k) None None"
      if "Suc s < P" "disc (allgather_loop (A r) (P - 1 - Suc s) (Suc s) k) None None" for s
      unfolding allgather_loop_prog [OF ready True that(1) r]
      by (rule segment_ring.disc_gather_prog) (use r that in simp_all)
  qed (use k in simp)
  then show ?thesis by (simp add: allgather_unfold [OF ready r])
next
  case False
  with r have "P = 1" by simp
  with k show ?thesis by (simp add: allgather_unfold [OF ready r])
qed

subsection \<open>Properties\<close>

text \<open>
  C11: allgather is correct: under every interleaving all schedules end, every rank returns, and
  every rank's buffer ends with segment \<open>q\<close> holding what rank \<open>q\<close> had there, for every \<open>q\<close>,
  bit for bit; nothing outside the buffer changes.
\<close>

theorem allgather_correct:
  assumes "rc_contract F \<alpha>" and "procs w = ranks P (\<lambda>r. allgather (A r) Return)"
    and "\<forall>x. idle (\<alpha> (net w) x)" and "allgather_ready P m A (\<alpha> (net w))"
  shows "always_ends (exec F) w (\<lambda>f. (\<forall>r. procs f r = Return) \<and>
     (\<forall>r<P. (\<forall>q<P. \<forall>j<m. ag_elem A (mems f) r (q * m + j) = ag_elem A (mems w) q (q * m + j)) \<and>
        outside_buf (P * m) (ag_gbuf (A r)) (mems w r) (mems f r)))"
proof (rule job_always_ends [OF assms(1,2)])
  show "disc (allgather (A r) Return) None None" if "r < P" for r
    using disc_allgather [OF assms(4) that] by simp
qed (use assms(3) allgather_stage [OF assms(4)] in auto)

definition gather_args :: "nat \<Rightarrow> nat \<Rightarrow> nat \<Rightarrow> allgather_args" where
  "gather_args P m r =
     \<lparr>ag_comm = \<lparr>comm_rank = int r, comm_size = int P, comm_qps = (\<lambda>p. Some (nat p))\<rparr>,
      ag_mr = \<lparr>mr_lkey = 1, mr_addr = 0, mr_length = 4 * (P * m)\<rparr>, ag_buf = 0,
      ag_send_count = m, ag_dtype = Float32\<rparr>"

definition gather_job :: "nat \<Rightarrow> nat \<Rightarrow> (nat \<Rightarrow> endpoint) job" where
  "gather_job P m =
     \<lparr>procs = ranks P (\<lambda>r. allgather (gather_args P m r) Return), mems = (\<lambda>r a. word_of_nat r),
      net = (\<lambda>r. \<lparr>sq = (\<lambda>_. []), rq = (\<lambda>_. []), scq = [], rcq = [], regs = [1 \<mapsto> (0, 4 * (P * m))]\<rparr>)\<rparr>"

lemma gather_job_ready:
  "0 < P \<Longrightarrow> P < 2 ^ 31 \<Longrightarrow> 4 * (P * m) < 2 ^ 64 \<Longrightarrow> 4 * m < 2 ^ 32 \<Longrightarrow>
   allgather_ready P m (gather_args P m) (id (net (gather_job P m)))"
  by (simp add: allgather_ready_def gather_job_def gather_args_def connected_def gather_ok_def
      ag_gbuf_def registered_def)

theorem allgather_correct_witness:
  "always_ends (exec rc_fabric) (gather_job 3 2)
     (\<lambda>f. \<forall>r<3. ag_elem (gather_args 3 2) (mems f) r 4 = 0x02020202)"
proof -
  have ready: "allgather_ready 3 2 (gather_args 3 2) (id (net (gather_job 3 2)))"
    by (rule gather_job_ready) simp_all
  have v: "ag_elem (gather_args 3 2) (mems (gather_job 3 2)) 2 (2 * 2 + 0) = 0x02020202"
    by (simp add: ag_elem_def gather_job_def gather_args_def load32_def le_word_def)
  have "always_ends (exec rc_fabric) (gather_job 3 2) (\<lambda>f. (\<forall>r. procs f r = Return) \<and>
     (\<forall>r<3. (\<forall>q<3. \<forall>j<2. ag_elem (gather_args 3 2) (mems f) r (q * 2 + j) =
          ag_elem (gather_args 3 2) (mems (gather_job 3 2)) q (q * 2 + j)) \<and>
        outside_buf (3 * 2) (ag_gbuf (gather_args 3 2 r)) (mems (gather_job 3 2) r) (mems f r)))"
    by (rule allgather_correct [where \<alpha> = id, OF rc_ref.rc_contract_axioms _ _ ready])
       (simp_all add: gather_job_def idle_def)
  then show ?thesis
  proof (rule always_ends_mono)
    fix f :: "(nat \<Rightarrow> endpoint) job"
    assume f: "(\<forall>r. procs f r = Return) \<and>
     (\<forall>r<3. (\<forall>q<3. \<forall>j<2. ag_elem (gather_args 3 2) (mems f) r (q * 2 + j) =
          ag_elem (gather_args 3 2) (mems (gather_job 3 2)) q (q * 2 + j)) \<and>
        outside_buf (3 * 2) (ag_gbuf (gather_args 3 2 r)) (mems (gather_job 3 2) r) (mems f r))"
    have "ag_elem (gather_args 3 2) (mems f) r (2 * 2 + 0) = 0x02020202" if "r < 3" for r
      unfolding v [symmetric] by (rule conjunct1 [OF conjunct2 [OF f, rule_format], rule_format]) (use that in simp_all)
    then show "\<forall>r<3. ag_elem (gather_args 3 2) (mems f) r 4 = 0x02020202" by simp
  qed
qed

text \<open>
  Allgather sends \<open>P - 1\<close> messages of exactly one segment per rank, and refuses a buffer
  that is registered for less than \<open>P\<close> segments before it posts anything.
\<close>

theorem allgather_traffic:
  assumes "allgather_ready P m A E" and "r < P"
  shows "traffic (allgather (A r) Return) 0 = replicate (P - 1) (4 * m) \<and>
    (len < 4 * (P * m) \<longrightarrow>
       allgather (A r\<lparr>ag_mr := (ag_mr (A r))\<lparr>mr_length := len\<rparr>\<rparr>) k =
       Throw (RuntimeError ''allgather: world_size * send_count exceeds registered buffer length'' []))"
proof
  note rk = allgather_rank [OF assms]
  have b: "4 * (P * m) < 2 ^ 64" "P < 2 ^ 31" "4 * m < 2 ^ 32"
    using assms(1) by (simp_all add: allgather_ready_def)
  have u: "to_u32 (4 * m) = 4 * m" using b(3) by (rule to_u32_exact)
  have "traffic (allgather_loop (A r) (P - 1 - 0) 0 Return) 0 = concat (map (\<lambda>_. [4 * m]) [0..<P - 1]) @ []"
  proof (rule traffic_loop [where prog = "\<lambda>s. allgather_loop (A r) (P - 1 - s) s Return"])
    fix s l assume s: "Suc s < P"
    then have "allgather_loop (A r) (P - 1 - s) s Return =
        allgather_prog P m (A r) r s (allgather_loop (A r) (P - 1 - Suc s) (Suc s) Return)"
      using allgather_loop_prog [OF assms(1) _ s assms(2)] by simp
    then show "\<exists>l'. traffic (allgather_loop (A r) (P - 1 - s) s Return) l =
        [4 * m] @ traffic (allgather_loop (A r) (P - 1 - Suc s) (Suc s) Return) l'"
      by (simp add: gather_prog_def Let_def traffic_sendrecv u) (metis (no_types))
  qed simp
  then show "traffic (allgather (A r) Return) 0 = replicate (P - 1) (4 * m)"
    by (simp add: allgather_unfold [OF assms] map_replicate_const)
  have P: "nat (int P mod 2 ^ 64) = P" using b(2) by simp
  have "sz_mul P m = P * m" "sz_mul (P * m) 4 = 4 * (P * m)" using b(1) by (simp_all add: sz_mul_exact)
  then have tot: "sz_mul (sz_mul P m) 4 = 4 * (P * m)" by simp
  have guard: "allgather a k =
      Throw (RuntimeError ''allgather: world_size * send_count exceeds registered buffer length'' [])"
    if "ag_comm a = ag_comm (A r)" "ag_send_count a = m" "mr_length (ag_mr a) < 4 * (P * m)" for a
    unfolding allgather_def Let_def
    by (simp only: that(1,2) connectedD(2) [OF rk(1)] dtype_size_4 P tot) (simp add: that(3))
  show "len < 4 * (P * m) \<longrightarrow>
       allgather (A r\<lparr>ag_mr := (ag_mr (A r))\<lparr>mr_length := len\<rparr>\<rparr>) k =
       Throw (RuntimeError ''allgather: world_size * send_count exceeds registered buffer length'' [])"
    using rk(2) by (intro impI guard) simp_all
qed

theorem allgather_traffic_witness:
  "traffic (allgather (gather_args 4 2 1) Return) 0 = [8, 8, 8]"
proof -
  have ready: "allgather_ready 4 2 (gather_args 4 2) (id (net (gather_job 4 2)))"
    by (rule gather_job_ready) simp_all
  show ?thesis using allgather_traffic [OF ready, of 1 0 Return] by (simp add: numeral_3_eq_3)
qed

end
