(* ===== verification/Broadcast.thy ===== *)
theory Broadcast
  imports Traffic
begin

text \<open>
  \<^verbatim>\<open>src/collectives/broadcast.cc\<close>: the root sends the buffer to every other rank in turn, every
  other rank receives it once.
\<close>

record broadcast_args =
  bc_comm :: communicator
  bc_mr :: MemoryRegion
  bc_buf :: nat
  bc_count :: nat
  bc_dtype :: Dtype
  bc_root :: int

abbreviation bcast_mismatch :: string where
  "bcast_mismatch \<equiv> ''broadcast: size mismatch, expected % bytes from root but got % -- ranks disagree on message size''"

definition bcast_bytes :: "broadcast_args \<Rightarrow> nat" where
  "bcast_bytes a = sz_mul (bc_count a) (dtype_size (bc_dtype a))"

text \<open>The loop of the root over \<^verbatim>\<open>peer\<close>, with \<open>n\<close> iterations left.\<close>

fun bcast_root_loop :: "broadcast_args \<Rightarrow> nat \<Rightarrow> int \<Rightarrow> rprog \<Rightarrow> rprog" where
  "bcast_root_loop a 0 peer k = k"
| "bcast_root_loop a (Suc n) peer k =
     (if peer = bc_root a then bcast_root_loop a n (peer + 1) k
      else with_qp (bc_comm a) peer (\<lambda>q.
             send q (bc_mr a) (bc_buf a) (bcast_bytes a) (bcast_root_loop a n (peer + 1) k)))"

definition broadcast :: "broadcast_args \<Rightarrow> rprog \<Rightarrow> rprog" where
  "broadcast a k =
     (if bc_root a < 0 \<or> bc_root a \<ge> comm_size (bc_comm a)
      then Throw (InvalidArgument ''broadcast: root out of range'')
      else if comm_rank (bc_comm a) = bc_root a
      then bcast_root_loop a (nat (comm_size (bc_comm a))) 0 k
      else with_qp (bc_comm a) (bc_root a) (\<lambda>q.
             recv q (bc_mr a) (bc_buf a) (bcast_bytes a) (\<lambda>got.
               if got \<noteq> bcast_bytes a
               then Throw (RuntimeError bcast_mismatch [int (bcast_bytes a), int got])
               else k)))"

subsection \<open>What the ranks of a job have to agree on\<close>

definition broadcast_ready :: "nat \<Rightarrow> nat \<Rightarrow> nat \<Rightarrow> (nat \<Rightarrow> broadcast_args) \<Rightarrow> (nat \<Rightarrow> endpoint) \<Rightarrow> bool" where
  "broadcast_ready P root n A E \<longleftrightarrow>
     root < P \<and> 4 * n < 2 ^ 32 \<and>
     (\<forall>r<P. connected P r (bc_comm (A r)) \<and> bc_count (A r) = n \<and> bc_root (A r) = int root \<and>
        registered (E r) (bc_mr (A r)) \<and> mr_addr (bc_mr (A r)) \<le> bc_buf (A r) \<and>
        bc_buf (A r) + 4 * n \<le> mr_addr (bc_mr (A r)) + mr_length (bc_mr (A r)))"

lemma broadcast_rank:
  assumes "broadcast_ready P root n A E" "r < P"
  shows "connected P r (bc_comm (A r))" "bc_root (A r) = int root" "bcast_bytes (A r) = 4 * n"
    "sge_ok (E r) (wr_sge (bc_mr (A r)) (bc_buf (A r)) (4 * n))"
  using assms by (auto simp: broadcast_ready_def bcast_bytes_def sz_mul_exact intro: registered_sge_ok)

definition bcast_recv :: "nat \<Rightarrow> nat \<Rightarrow> broadcast_args \<Rightarrow> rprog \<Rightarrow> rprog" where
  "bcast_recv root n a k =
     recv root (bc_mr a) (bc_buf a) (4 * n) (\<lambda>got.
       if got \<noteq> 4 * n then Throw (RuntimeError bcast_mismatch [int (4 * n), int got]) else k)"

text \<open>What is left of rank \<open>r\<close>'s code once peers below \<open>p\<close> are served.\<close>

definition bcast_prog :: "nat \<Rightarrow> nat \<Rightarrow> nat \<Rightarrow> (nat \<Rightarrow> broadcast_args) \<Rightarrow> (nat \<Rightarrow> rprog) \<Rightarrow> nat \<Rightarrow> nat \<Rightarrow> rprog" where
  "bcast_prog P root n A k p r =
     (if r = root then bcast_root_loop (A r) (P - p) (int p) (k r)
      else if r < p then k r else bcast_recv root n (A r) (k r))"

lemma broadcast_start:
  assumes ready: "broadcast_ready P root n A E" and r: "r < P"
  shows "broadcast (A r) (k r) = bcast_prog P root n A k 0 r"
proof -
  note rk = broadcast_rank [OF ready r]
  have root: "root < P" using ready by (simp add: broadcast_ready_def)
  have "with_qp (bc_comm (A r)) (int root) f = f root" if "r \<noteq> root" for f
    using connectedD(3) [OF rk(1) root] that by simp
  with root show ?thesis
    unfolding broadcast_def bcast_prog_def bcast_recv_def rk(2,3) connectedD(1,2) [OF rk(1)]
    by (cases "r = root") simp_all
qed

lemma bcast_root_step:
  assumes ready: "broadcast_ready P root n A E" and p: "p < P"
  shows "bcast_root_loop (A root) (P - p) (int p) k =
     (if p = root then bcast_root_loop (A root) (P - Suc p) (int (Suc p)) k
      else send p (bc_mr (A root)) (bc_buf (A root)) (4 * n)
             (bcast_root_loop (A root) (P - Suc p) (int (Suc p)) k))"
proof -
  have root: "root < P" using ready by (simp add: broadcast_ready_def)
  note rk = broadcast_rank [OF ready root]
  have s: "P - p = Suc (P - Suc p)" using p by simp
  show ?thesis
    unfolding s bcast_root_loop.simps rk(2,3)
    using connectedD(3) [OF rk(1) p] by (simp add: add.commute)
qed

subsection \<open>Serving one peer\<close>

lemma lsteps_send_recv:
  assumes "idle e"
  shows "lsteps (send q mr a len k, m, e)
      (wait_completion SendCq (\<lambda>_. k), m, posted e (Some (q, send_req mr a len)) None)"
    and "lsteps (wait_completion SendCq (\<lambda>_. k), m, completed e (Some (q, send_req mr a len)) None) (k, m, e)"
    and "lsteps (recv q mr a len c, m, e)
      (wait_completion RecvCq (\<lambda>wc. c (wc_byte_len wc)), m, posted e None (Some (q, recv_req mr a len)))"
    and "lsteps (wait_completion RecvCq (\<lambda>wc. c (wc_byte_len wc)), m, completed e None (Some (q, recv_req mr a len)))
      (c (to_u32 len), m, e)"
  using lsteps_post [OF assms, of False _ _ _ _ True q mr a len "wait_completion SendCq (\<lambda>_. k)" m]
    lsteps_reap [OF assms, of True False _ k m q mr a len]
    lsteps_post [OF assms, of True q mr a len False _ _ _ _ "wait_completion RecvCq (\<lambda>wc. c (wc_byte_len wc))" m]
    lsteps_reap [OF assms, of False True "\<lambda>wc _. c (wc_byte_len wc)" k m _ _ _ _ q mr a len]
  by (simp_all add: send_def recv_def)

lemma bcast_round:
  assumes ready: "broadcast_ready P root n A E" and idle: "\<And>x. idle (E x)" and p: "p < P" and pr: "p \<noteq> root"
    and w: "stage w (ranks P (bcast_prog P root n A k p)) M E"
  shows "\<exists>as w'. run (exec rc_fabric) as w = Some w' \<and> stage w' (ranks P (bcast_prog P root n A k (Suc p)))
    (M(p := mem_write (M p) (bc_buf (A p)) (mem_read (M root) (bc_buf (A root)) (4 * n)))) E"
proof -
  have root: "root < P" and len: "to_u32 (4 * n) = 4 * n"
    using ready by (simp_all add: broadcast_ready_def to_u32_exact)
  let ?sr = "send_req (bc_mr (A root)) (bc_buf (A root)) (4 * n)"
  let ?rr = "recv_req (bc_mr (A p)) (bc_buf (A p)) (4 * n)"
  let ?so = "\<lambda>x. if x = root then Some (p, ?sr) else None"
  let ?ro = "\<lambda>x. if x = p then Some (root, ?rr) else None"
  let ?k1 = "bcast_root_loop (A root) (P - Suc p) (int (Suc p)) (k root)"
  let ?chk = "\<lambda>got. if got \<noteq> 4 * n then Throw (RuntimeError bcast_mismatch [int (4 * n), int got]) else k p"
  let ?p1 = "\<lambda>x. if x = root then wait_completion SendCq (\<lambda>_. ?k1)
     else if x = p then wait_completion RecvCq (\<lambda>wc. ?chk (wc_byte_len wc))
     else ranks P (bcast_prog P root n A k p) x"
  have m: "matched P E ?so ?ro"
    using broadcast_rank(4) [OF ready root] broadcast_rank(4) [OF ready p] root p pr
    by (auto simp: matched_def)
  have v: "view w x = (ranks P (bcast_prog P root n A k p) x, M x, E x)" for x
    using w by (simp add: stage_def)
  have other: "ranks P (bcast_prog P root n A k p) x = ranks P (bcast_prog P root n A k (Suc p)) x"
    if "x \<noteq> root" "x \<noteq> p" for x
    using that by (auto simp: ranks_def bcast_prog_def less_Suc_eq)
  have atroot: "ranks P (bcast_prog P root n A k p) root = send p (bc_mr (A root)) (bc_buf (A root)) (4 * n) ?k1"
    using bcast_root_step [OF ready p] root pr by (simp add: bcast_prog_def)
  have atp: "ranks P (bcast_prog P root n A k p) p = recv root (bc_mr (A p)) (bc_buf (A p)) (4 * n) ?chk"
    using p pr by (simp add: bcast_prog_def bcast_recv_def)
  have nxt: "ranks P (bcast_prog P root n A k (Suc p)) root = ?k1" "ranks P (bcast_prog P root n A k (Suc p)) p = k p"
    using root p pr by (simp_all add: bcast_prog_def)
  have same: "posted (E x) None None = E x" "completed (E x) None None = E x" for x
    using round_ep_idle [OF idle] by (simp_all add: posted_def completed_def)
  have reap: "lsteps (wait_completion RecvCq (\<lambda>wc. ?chk (wc_byte_len wc)), m, completed (E p) None (Some (root, ?rr)))
      (k p, m, E p)" for m
    using lsteps_send_recv(4) [OF idle, where c = ?chk and len = "4 * n"] by (simp add: len)
  have "\<exists>as w'. run (exec rc_fabric) as w = Some w' \<and>
     (\<forall>x. view w' x = (ranks P (bcast_prog P root n A k (Suc p)) x,
        (M(p := mem_write (M p) (bc_buf (A p)) (mem_read (M root) (bc_buf (A root)) (4 * n)))) x, E x))"
  proof (rule exchange_round [OF v idle m, where ?p1.0 = ?p1])
    fix x
    show "lsteps (ranks P (bcast_prog P root n A k p) x, M x, E x) (?p1 x, M x, posted (E x) (?so x) (?ro x))"
      using lsteps_send_recv(1,3) [OF idle] pr by (cases "x = root"; cases "x = p") (auto simp: atroot atp same)
    show "lsteps (?p1 x, received ?so ?ro M x, completed (E x) (?so x) (?ro x))
      (ranks P (bcast_prog P root n A k (Suc p)) x,
       (M(p := mem_write (M p) (bc_buf (A p)) (mem_read (M root) (bc_buf (A root)) (4 * n)))) x, E x)"
      using lsteps_send_recv(2) [OF idle] reap pr
      by (cases "x = root"; cases "x = p")
         (auto simp: nxt same other received_def sent_sge_def deliver_def len)
    show "P \<le> x \<Longrightarrow> ?p1 x = ranks P (bcast_prog P root n A k p) x \<and>
        ranks P (bcast_prog P root n A k (Suc p)) x = ranks P (bcast_prog P root n A k p) x \<and>
        (M(p := mem_write (M p) (bc_buf (A p)) (mem_read (M root) (bc_buf (A root)) (4 * n)))) x = M x"
      using root p by auto
  qed
  then show ?thesis by (simp add: stage_def)
qed

subsection \<open>The whole collective\<close>

text \<open>The memories once peers below \<open>p\<close> are served.\<close>

definition bcast_mem :: "nat \<Rightarrow> nat \<Rightarrow> (nat \<Rightarrow> broadcast_args) \<Rightarrow> (nat \<Rightarrow> mem) \<Rightarrow> nat \<Rightarrow> nat \<Rightarrow> mem" where
  "bcast_mem root n A M p r =
     (if r < p \<and> r \<noteq> root
      then mem_write (M r) (bc_buf (A r)) (mem_read (M root) (bc_buf (A root)) (4 * n)) else M r)"

lemma broadcast_stage:
  assumes ready: "broadcast_ready P root n A E" and idle: "\<And>x. idle (E x)"
    and w: "stage w (ranks P (\<lambda>r. broadcast (A r) (k r))) M E"
  shows "\<exists>as w'. run (exec rc_fabric) as w = Some w' \<and> stage w' (ranks P k) (bcast_mem root n A M P) E"
proof -
  have "\<exists>as w' M'. run (exec rc_fabric) as w = Some w' \<and>
      stage w' (ranks P (bcast_prog P root n A k P)) M' E \<and> M' = bcast_mem root n A M P"
  proof (rule stage_loop [where prog = "bcast_prog P root n A k" and M = M and
        J = "\<lambda>p M'. M' = bcast_mem root n A M p"])
    have "ranks P (\<lambda>r. broadcast (A r) (k r)) = ranks P (bcast_prog P root n A k 0)"
      by (rule ranks_cong) (rule broadcast_start [OF ready])
    with w show "stage w (ranks P (bcast_prog P root n A k 0)) M E" by simp
    show "M = bcast_mem root n A M 0" by (simp add: bcast_mem_def fun_eq_iff)
    fix p w1 M1
    assume p: "p < P" and w1: "stage w1 (ranks P (bcast_prog P root n A k p)) M1 E"
      and M1: "M1 = bcast_mem root n A M p"
    show "\<exists>as w' M'. run (exec rc_fabric) as w1 = Some w' \<and>
        stage w' (ranks P (bcast_prog P root n A k (Suc p))) M' E \<and> M' = bcast_mem root n A M (Suc p)"
    proof (cases "p = root")
      case True
      have "bcast_prog P root n A k p r = bcast_prog P root n A k (Suc p) r" if "r < P" for r
        using bcast_root_step [OF ready p, of "k root"] True
        by (auto simp: bcast_prog_def less_Suc_eq)
      then have "ranks P (bcast_prog P root n A k p) = ranks P (bcast_prog P root n A k (Suc p))"
        by (rule ranks_cong)
      moreover have "M1 = bcast_mem root n A M (Suc p)"
        by (auto simp: M1 bcast_mem_def True less_Suc_eq fun_eq_iff)
      ultimately show ?thesis using w1 by (intro exI [of _ "[]"] exI [of _ w1] exI [of _ M1]) simp
    next
      case False
      have "M1(p := mem_write (M1 p) (bc_buf (A p)) (mem_read (M1 root) (bc_buf (A root)) (4 * n))) =
          bcast_mem root n A M (Suc p)"
        using False by (auto simp: M1 bcast_mem_def less_Suc_eq fun_eq_iff)
      with bcast_round [OF ready idle p False w1] show ?thesis by auto
    qed
  qed
  moreover have "ranks P (bcast_prog P root n A k P) = ranks P k"
    by (rule ranks_cong) (simp add: bcast_prog_def)
  ultimately show ?thesis by auto
qed

lemma disc_send: "disc k None None \<Longrightarrow> disc (send q mr a len k) None None"
  by (simp add: send_def disc_wait_send)

lemma disc_recv: "(\<And>n. disc (c n) None None) \<Longrightarrow> disc (recv q mr a len c) None None"
  by (simp add: recv_def disc_wait_recv)

lemma disc_bcast_root_loop: "disc k None None \<Longrightarrow> disc (bcast_root_loop a n p k) None None"
  by (induction n arbitrary: p) (auto intro!: disc_with_qp disc_send)

lemma disc_broadcast: "disc k None None \<Longrightarrow> disc (broadcast a k) None None"
  unfolding broadcast_def by (auto intro!: disc_bcast_root_loop disc_with_qp disc_recv)

subsection \<open>Properties\<close>

text \<open>
  C12: broadcast is correct: under every interleaving all schedules end, every rank returns, every
  other rank's buffer holds the bytes of the root's buffer, and no other byte of any rank's
  memory has changed.
\<close>

theorem broadcast_correct:
  assumes "rc_contract F \<alpha>" and "procs w = ranks P (\<lambda>r. broadcast (A r) Return)"
    and "\<forall>x. idle (\<alpha> (net w) x)" and "broadcast_ready P root n A (\<alpha> (net w))"
  shows "always_ends (exec F) w (\<lambda>f. (\<forall>r. procs f r = Return) \<and>
     (\<forall>r<P. mems f r = (if r = root then mems w r
        else mem_write (mems w r) (bc_buf (A r)) (mem_read (mems w root) (bc_buf (A root)) (4 * n)))))"
proof (rule job_always_ends [OF assms(1,2)])
  show "disc (broadcast (A r) Return) None None" if "r < P" for r
    by (rule disc_broadcast) simp
  fix u assume "stage u (ranks P (\<lambda>r. broadcast (A r) Return)) (mems w) (\<alpha> (net w))"
  from broadcast_stage [OF assms(4) _ this] assms(3)
  obtain as u' where "run (exec rc_fabric) as u = Some u'"
    "stage u' (ranks P (\<lambda>_. Return)) (bcast_mem root n A (mems w) P) (\<alpha> (net w))" by blast
  then show "\<exists>as u' M. run (exec rc_fabric) as u = Some u' \<and> stage u' (ranks P (\<lambda>_. Return)) M (\<alpha> (net w)) \<and>
     (\<forall>r<P. M r = (if r = root then mems w r
        else mem_write (mems w r) (bc_buf (A r)) (mem_read (mems w root) (bc_buf (A root)) (4 * n))))"
    by (intro exI [of _ as] exI [of _ u'] exI [of _ "bcast_mem root n A (mems w) P"])
       (simp add: bcast_mem_def)
qed (use assms(3) in simp)

definition bcast_args :: "nat \<Rightarrow> nat \<Rightarrow> nat \<Rightarrow> nat \<Rightarrow> broadcast_args" where
  "bcast_args P root n r =
     \<lparr>bc_comm = \<lparr>comm_rank = int r, comm_size = int P, comm_qps = (\<lambda>p. Some (nat p))\<rparr>,
      bc_mr = \<lparr>mr_lkey = 1, mr_addr = 0, mr_length = 4 * n\<rparr>, bc_buf = 0, bc_count = n,
      bc_dtype = Int32, bc_root = int root\<rparr>"

definition bcast_job :: "nat \<Rightarrow> nat \<Rightarrow> nat \<Rightarrow> (nat \<Rightarrow> endpoint) job" where
  "bcast_job P root n =
     \<lparr>procs = ranks P (\<lambda>r. broadcast (bcast_args P root n r) Return), mems = (\<lambda>r a. word_of_nat r),
      net = (\<lambda>r. \<lparr>sq = (\<lambda>_. []), rq = (\<lambda>_. []), scq = [], rcq = [], regs = [1 \<mapsto> (0, 4 * n)]\<rparr>)\<rparr>"

lemma bcast_job_ready:
  "root < P \<Longrightarrow> 4 * n < 2 ^ 32 \<Longrightarrow> broadcast_ready P root n (bcast_args P root n) (id (net (bcast_job P root n)))"
  by (simp add: broadcast_ready_def bcast_job_def bcast_args_def connected_def registered_def)

theorem broadcast_correct_witness:
  "always_ends (exec rc_fabric) (bcast_job 3 1 2) (\<lambda>f. mems f 2 5 = 1 \<and> mems f 0 8 = 0)"
proof -
  have ready: "broadcast_ready 3 1 2 (bcast_args 3 1 2) (id (net (bcast_job 3 1 2)))"
    by (rule bcast_job_ready) simp_all
  show ?thesis
    by (rule always_ends_mono [OF broadcast_correct [where \<alpha> = id, OF rc_ref.rc_contract_axioms _ _ ready]])
       (simp_all add: bcast_job_def bcast_args_def idle_def mem_write_def)
qed

text \<open>
  The root posts one message of the whole buffer per other rank and a receiver none; a root
  outside the communicator is refused on every rank before anything is posted.
\<close>

theorem broadcast_traffic:
  assumes "broadcast_ready P root n A E" and "r < P"
  shows "traffic (broadcast (A r) Return) 0 = (if r = root then replicate (P - 1) (4 * n) else []) \<and>
    (bad < 0 \<or> int P \<le> bad \<longrightarrow>
      broadcast (A r\<lparr>bc_root := bad\<rparr>) k = Throw (InvalidArgument ''broadcast: root out of range''))"
proof
  have root: "root < P" and len: "to_u32 (4 * n) = 4 * n"
    using assms(1) by (simp_all add: broadcast_ready_def to_u32_exact)
  have loop: "traffic (bcast_root_loop (A root) (P - (P - j)) (int (P - j)) Return) l =
      replicate (if P - j \<le> root then j - 1 else j) (4 * n)" if "j \<le> P" for j l
    using that
  proof (induction j arbitrary: l)
    case (Suc j)
    have p: "P - Suc j < P" "Suc (P - Suc j) = P - j" using Suc.prems by simp_all
    have j: "0 < j" if "P - Suc j < root" using that root Suc.prems by simp
    from Suc show ?case
      unfolding bcast_root_step [OF assms(1) p(1)] p(2)
      using j by (cases j) (auto simp: send_def len split: if_splits)
  qed simp
  show "traffic (broadcast (A r) Return) 0 = (if r = root then replicate (P - 1) (4 * n) else [])"
    unfolding broadcast_start [OF assms, of "\<lambda>_. Return"]
    using loop [of P 0] by (simp add: bcast_prog_def bcast_recv_def recv_def)
  note rk = broadcast_rank(1) [OF assms]
  show "bad < 0 \<or> int P \<le> bad \<longrightarrow>
      broadcast (A r\<lparr>bc_root := bad\<rparr>) k = Throw (InvalidArgument ''broadcast: root out of range'')"
    by (simp add: broadcast_def connectedD(2) [OF rk])
qed

theorem broadcast_traffic_witness:
  "traffic (broadcast (bcast_args 4 2 3 2) Return) 0 = [12, 12, 12] \<and>
   broadcast (bcast_args 4 2 3 1\<lparr>bc_root := 4\<rparr>) Return = Throw (InvalidArgument ''broadcast: root out of range'')"
  using broadcast_traffic [OF bcast_job_ready, of 2 4 3 2 0 Return]
    broadcast_traffic [OF bcast_job_ready, of 2 4 3 1 4 Return]
  by (simp add: numeral_3_eq_3)

end
