(* ===== verification/Collective_Sequences.thy ===== *)
theory Collective_Sequences
  imports Allreduce_Call Allgather Broadcast
begin

text \<open>
  Programs put together from the collectives of the library: all ranks make the same calls in the same order, with computations of their own in
  between, over queue pairs and buffers that they set up alike. Such a program obeys the buffer discipline at every moment, and it
  always ends.
\<close>

section \<open>Sequences of calls\<close>

text \<open>
  \<open>collectives P E p\<close>: rank \<open>r\<close> of \<open>P\<close> runs \<open>p r\<close>, and the \<open>p r\<close> call the same collectives. Sums of \<^verbatim>\<open>int32_t\<close> are left out, as they
  may overflow.
\<close>

inductive collectives :: "nat \<Rightarrow> (nat \<Rightarrow> endpoint) \<Rightarrow> (nat \<Rightarrow> rprog) \<Rightarrow> bool" for P E where
  Stop: "collectives P E (\<lambda>_. Return)"
| Local: "(\<And>r m. r < P \<Longrightarrow> \<exists>m'. f r m = Inr m') \<Longrightarrow> collectives P E k \<Longrightarrow> collectives P E (\<lambda>r. Compute (f r) (k r))"
| Ring: "ring_ready P n dt op A E \<Longrightarrow> dt = Float32 \<or> op \<noteq> Sum_op \<Longrightarrow> collectives P E k \<Longrightarrow>
    collectives P E (\<lambda>r. allreduce_ring (A r) (k r))"
| Doubling: "rd_ready P n dt op A E \<Longrightarrow> dt = Float32 \<or> op \<noteq> Sum_op \<Longrightarrow> collectives P E k \<Longrightarrow>
    collectives P E (\<lambda>r. allreduce_recursive_doubling (A r) (k r))"
| Gather: "allgather_ready P n G E \<Longrightarrow> collectives P E k \<Longrightarrow> collectives P E (\<lambda>r. allgather (G r) (k r))"
| Bcast: "broadcast_ready P root n C E \<Longrightarrow> collectives P E k \<Longrightarrow> collectives P E (\<lambda>r. broadcast (C r) (k r))"

lemma collectives_disc: "collectives P E p \<Longrightarrow> r < P \<Longrightarrow> disc (p r) None None"
  by (induction rule: collectives.induct)
    (auto intro: ring_call.call_disc rd_call.call_disc disc_allgather disc_broadcast)

lemma collectives_stage:
  assumes "collectives P E p" and idle: "\<And>x. idle (E x)"
  shows "stage w (ranks P p) M E \<Longrightarrow> \<exists>as w' M'. run (exec rc_fabric) as w = Some w' \<and> stage w' (ranks P (\<lambda>_. Return)) M' E"
  using assms(1)
proof (induction arbitrary: w M rule: collectives.induct)
  case Stop
  then show ?case by (intro exI [of _ "[]"]) auto
next
  case (Local f k)
  define M' where "M' r = (if r < P then projr (f r (M r)) else M r)" for r
  have "f r (M r) = Inr (M' r)" if "r < P" for r using Local(1) [OF that, of "M r"] that by (auto simp: M'_def)
  moreover have "M' r = M r" if "P \<le> r" for r using that by (simp add: M'_def)
  ultimately show ?case using compute_stage [OF Local.prems, of M'] Local.IH run_appendI by meson
next
  case (Ring n dt op A k)
  then show ?case using ring_call.call_stage [OF Ring(1) idle results_defined(1) [OF Ring(2)] Ring.prems] run_appendI by meson
next
  case (Doubling n dt op A k)
  then show ?case using rd_call.call_stage [OF Doubling(1) idle results_defined(2) [OF Doubling(2)] Doubling.prems] run_appendI by meson
next
  case (Gather n G k)
  then show ?case using allgather_stage [OF Gather(1) idle Gather.prems] run_appendI by meson
next
  case (Bcast root n C k)
  then show ?case using broadcast_stage [OF Bcast(1) idle Bcast.prems] run_appendI by meson
qed

lemma collectives_end:
  assumes "rc_contract F \<alpha>" and "procs w = ranks P p" and "\<forall>x. idle (\<alpha> (net w) x)" and "collectives P (\<alpha> (net w)) p"
  shows "always_ends (exec F) w (\<lambda>f. \<forall>r. procs f r = Return)"
proof -
  have "always_ends (exec F) w (\<lambda>f. (\<forall>r. procs f r = Return) \<and> True)"
    by (rule job_always_ends [OF assms(1,2)])
      (use assms(3) collectives_disc [OF assms(4)] collectives_stage [OF assms(4)] in auto)
  then show ?thesis by simp
qed

text \<open>A job for the examples: ring allreduce, a computation, and recursive doubling on the same buffers.\<close>

definition calls_prog :: "nat \<Rightarrow> rprog" where
  "calls_prog r = (let a = sample_args 4 3 Float32 Sum_op r in
     allreduce_ring a (Compute (\<lambda>m. Inr (store32 m (ar_data a) 0)) (allreduce_recursive_doubling a Return)))"

definition calls_job :: "(nat \<Rightarrow> endpoint) job" where
  "calls_job = sample_job 4 3 calls_prog"

lemma calls_collectives: "collectives 4 (id (net calls_job)) calls_prog"
proof -
  let ?A = "sample_args 4 3 Float32 Sum_op"
  have "allreduce_ready 4 3 Float32 Sum_op (chunk_len 3 4 0) ?A (id (net calls_job))"
    "allreduce_ready 4 3 Float32 Sum_op 3 ?A (id (net calls_job))"
    unfolding calls_job_def by (rule sample_ready; simp add: chunk_len_def)+
  then have ready: "ring_ready 4 3 Float32 Sum_op ?A (id (net calls_job))" "rd_ready 4 3 Float32 Sum_op ?A (id (net calls_job))"
    by (simp_all add: ring_ready_def rd_ready_def is_power_of_two_def)
  show ?thesis unfolding calls_prog_def Let_def
    by (intro Ring [OF ready(1)] Local Doubling [OF ready(2)] Stop) simp_all
qed

lemma one_entry:
  assumes "x \<in> set (f q)" "y \<in> set (f q')" "f q = [x] \<and> (\<forall>q'. q' \<noteq> q \<longrightarrow> f q' = [])"
  shows "q = q' \<and> f q = [x] \<and> y = x"
proof -
  have "q' = q" using assms(2,3) by fastforce
  then show ?thesis using assms by simp
qed

section \<open>Properties\<close>





end
