(* ===== verification/Endpoint_Info.thy ===== *)
theory Endpoint_Info
  imports Prelude
begin

text \<open>
  \<^verbatim>\<open>src/verbs/endpoint_info.cc\<close>: the wire format of the connection data two ranks exchange.
  Integers are written big-endian. The byte cursor is the list of bytes from the cursor
  on; writing appends. The interface \<open>codec\<close> is what the bootstrap relies on.
\<close>

section \<open>Fixed-size codecs\<close>

text \<open>
  \<open>enc\<close> writes exactly \<open>size\<close> bytes for a valid value, \<open>dec\<close> reads them back and leaves the
  cursor behind them, and every \<open>size\<close> bytes are the encoding of a valid value.
\<close>

locale codec =
  fixes valid :: "'a \<Rightarrow> bool" and enc :: "'a \<Rightarrow> byte list" and dec :: "byte list \<Rightarrow> 'a \<times> byte list"
    and size :: nat
  assumes enc_size: "valid x \<Longrightarrow> length (enc x) = size"
    and dec_enc: "valid x \<Longrightarrow> dec (enc x @ rest) = (x, rest)"
    and enc_onto: "length bs = size \<Longrightarrow> \<exists>x. valid x \<and> enc x = bs"
begin

lemma dec_any:
  assumes "size \<le> length bs"
  shows "valid (fst (dec bs)) \<and> enc (fst (dec bs)) = take size bs \<and> snd (dec bs) = drop size bs"
proof -
  obtain x where x: "valid x" "enc x = take size bs"
    using enc_onto [of "take size bs"] assms by auto
  have "dec (enc x @ drop size bs) = (x, drop size bs)" using x(1) by (rule dec_enc)
  then have "dec bs = (x, drop size bs)" unfolding x(2) by simp
  with x show ?thesis by simp
qed

lemma split_enc:
  assumes "length bs = size + n"
  obtains x ys where "valid x" "bs = enc x @ ys" "length ys = n"
proof -
  obtain x where "valid x" "enc x = take size bs" using enc_onto [of "take size bs"] assms by auto
  then show thesis using that [of x "drop size bs"] assms by simp
qed

lemma enc_inj: "valid x \<Longrightarrow> valid y \<Longrightarrow> enc x = enc y \<Longrightarrow> x = y"
  using dec_enc [of x "[]"] dec_enc [of y "[]"] by simp

end

section \<open>Integers\<close>

definition put_u8 :: "byte \<Rightarrow> byte list" where
  "put_u8 v = [v]"

definition put_u16 :: "u16 \<Rightarrow> byte list" where
  "put_u16 v = [ucast (drop_bit 8 v), ucast v]"

definition put_u32 :: "u32 \<Rightarrow> byte list" where
  "put_u32 v = [ucast (drop_bit 24 v), ucast (drop_bit 16 v), ucast (drop_bit 8 v), ucast v]"

text \<open>\<^verbatim>\<open>for (int shift = 56; shift >= 0; shift -= 8)\<close>; \<open>n\<close> iterations are left after this one.\<close>

fun put_u64_loop :: "u64 \<Rightarrow> nat \<Rightarrow> byte list" where
  "put_u64_loop v 0 = []"
| "put_u64_loop v (Suc n) = ucast (drop_bit (8 * n) v) # put_u64_loop v n"

definition put_u64 :: "u64 \<Rightarrow> byte list" where
  "put_u64 v = put_u64_loop v 8"

definition get_u8 :: "byte list \<Rightarrow> byte \<times> byte list" where
  "get_u8 p = (p ! 0, drop 1 p)"

definition get_u16 :: "byte list \<Rightarrow> u16 \<times> byte list" where
  "get_u16 p = (push_bit 8 (ucast (p ! 0)) OR ucast (p ! 1), drop 2 p)"

definition get_u32 :: "byte list \<Rightarrow> u32 \<times> byte list" where
  "get_u32 p = (push_bit 24 (ucast (p ! 0)) OR push_bit 16 (ucast (p ! 1)) OR
     push_bit 8 (ucast (p ! 2)) OR ucast (p ! 3), drop 4 p)"

text \<open>\<^verbatim>\<open>for (int i = 0; i < 8; ++i) v = (v << 8) | p[i];\<close>\<close>

fun get_u64_loop :: "byte list \<Rightarrow> nat \<Rightarrow> nat \<Rightarrow> u64 \<Rightarrow> u64" where
  "get_u64_loop p 0 i v = v"
| "get_u64_loop p (Suc n) i v = get_u64_loop p n (Suc i) (push_bit 8 v OR ucast (p ! i))"

definition get_u64 :: "byte list \<Rightarrow> u64 \<times> byte list" where
  "get_u64 p = (get_u64_loop p 8 0 0, drop 8 p)"

subsection \<open>The integer codecs\<close>

text \<open>
  Reading a byte below the bits read so far: the step of every \<open>get\<close>. With it a \<open>get\<close>
  undoes its \<open>put\<close>; that all byte strings of the right length are hit follows by counting.
\<close>

lemma append_byte:
  "push_bit 8 (drop_bit (k + 8) (v :: 'a::len word)) OR ucast (ucast (drop_bit k v) :: byte) = drop_bit k v"
  by (rule bit_word_eqI) (auto simp: bit_or_iff bit_push_bit_iff bit_unsigned_iff bit_drop_bit_eq
      add.commute [of 8] intro: bit_imp_le_length)

lemma top_byte: "LENGTH('a) \<le> k + 8 \<Longrightarrow> ucast (ucast (drop_bit k v) :: byte) = drop_bit k (v :: 'a::len word)"
  by (rule bit_word_eqI) (auto simp: bit_unsigned_iff bit_drop_bit_eq dest: bit_imp_le_length)

lemma onto_by_card:
  fixes enc :: "'a::len word \<Rightarrow> byte list"
  assumes inj: "inj enc" and len: "\<And>x. length (enc x) = n" and n: "LENGTH('a) = 8 * n" and bs: "length bs = n"
  shows "\<exists>x. enc x = bs"
proof -
  have "card {bs :: byte list. length bs = n} = card (UNIV :: byte set) ^ n"
    using card_lists_length_eq [of "UNIV :: byte set" n] by simp
  also have "\<dots> = card (UNIV :: 'a word set)" by (simp add: card_word n power_mult)
  also have "\<dots> = card (range enc)" by (rule card_image [symmetric, OF inj])
  finally have "range enc = {bs. length bs = n}"
    using len finite_lists_length_eq [of "UNIV :: byte set" n] by (intro card_subset_eq) auto
  with bs show ?thesis by (metis (mono_tags) mem_Collect_eq imageE)
qed

text \<open>So a \<open>get\<close> that undoes its \<open>put\<close> makes a codec.\<close>

lemma word_codec:
  fixes enc :: "'a::len word \<Rightarrow> byte list"
  assumes len: "\<And>x. length (enc x) = n" and n: "LENGTH('a) = 8 * n"
    and dec: "\<And>x rest. dec (enc x @ rest) = (x, rest)"
  shows "codec (\<lambda>_. True) enc dec n"
proof unfold_locales
  have "inj enc" by (rule injI) (metis dec fst_conv append_Nil2)
  then show "\<exists>x. True \<and> enc x = bs" if "length bs = n" for bs
    using onto_by_card [where enc = enc, OF _ len n that] by blast
qed (simp_all add: len dec)

interpretation u8: codec "\<lambda>_. True" put_u8 get_u8 1
  by (rule word_codec) (simp_all add: put_u8_def get_u8_def)

interpretation u16: codec "\<lambda>_. True" put_u16 get_u16 2
proof (rule word_codec)
  show "get_u16 (put_u16 v @ rest) = (v, rest)" for v rest
    using append_byte [of 0 v] top_byte [of 8 v] by (simp add: get_u16_def put_u16_def)
qed (simp_all add: put_u16_def)

interpretation u32: codec "\<lambda>_. True" put_u32 get_u32 4
proof (rule word_codec)
  fix v :: u32 and rest
  let ?b = "\<lambda>k. ucast (ucast (drop_bit k v) :: byte) :: u32"
  have "push_bit 24 (?b 24) OR push_bit 16 (?b 16) OR push_bit 8 (?b 8) OR ?b 0 =
      push_bit 8 (push_bit 8 (push_bit 8 (?b 24) OR ?b 16) OR ?b 8) OR ?b 0"
    by (simp add: push_bit_or or.assoc)
  also have "\<dots> = v"
    using append_byte [of 16 v] append_byte [of 8 v] append_byte [of 0 v] top_byte [of 24 v] by simp
  finally show "get_u32 (put_u32 v @ rest) = (v, rest)"
    by (simp add: get_u32_def put_u32_def numeral_2_eq_2 numeral_3_eq_3)
qed (simp_all add: put_u32_def)

lemma put_u64_loop_nth: "i < n \<Longrightarrow> put_u64_loop v n ! i = ucast (drop_bit (8 * (n - Suc i)) v)"
  by (induction n arbitrary: i) (auto simp: nth_Cons' Suc_diff_Suc)

lemma length_put_u64_loop [simp]: "length (put_u64_loop v n) = n"
  by (induction n) simp_all

lemma get_put_u64_loop:
  "n + i = 8 \<Longrightarrow> get_u64_loop (put_u64_loop v 8 @ rest) n i (drop_bit (8 * n) v) = v"
proof (induction n arbitrary: i)
  case (Suc n)
  have "8 - Suc i = n" "i < 8" using Suc.prems by simp_all
  then have "(put_u64_loop v 8 @ rest) ! i = ucast (drop_bit (8 * n) v)"
    by (simp only: nth_append length_put_u64_loop if_True put_u64_loop_nth)
  with Suc.IH [of "Suc i"] Suc.prems append_byte [of "8 * n" v] show ?case by (simp add: add.commute)
qed simp

interpretation u64: codec "\<lambda>_. True" put_u64 get_u64 8
proof (rule word_codec)
  fix v :: u64 and rest
  have "drop_bit 64 v = 0" by (rule bit_word_eqI) (auto simp: bit_drop_bit_eq dest: bit_imp_le_length)
  with get_put_u64_loop [of 8 0 v rest] show "get_u64 (put_u64 v @ rest) = (v, rest)"
    by (simp add: get_u64_def put_u64_def del: put_u64_loop.simps get_u64_loop.simps)
qed (simp_all add: put_u64_def del: put_u64_loop.simps)

section \<open>Endpoint information\<close>

record QpEndpointInfo =
  qi_rank :: u32
  qi_qp_num :: u32
  qi_psn :: u32
  qi_lid :: u16
  qi_port_num :: byte
  qi_mtu :: byte
  qi_gid_index :: byte
  qi_gid :: "byte list"
  qi_rkey :: u32
  qi_addr :: u64
  qi_buf_len :: u64

text \<open>\<^verbatim>\<open>ibv_gid\<close> is an array of 16 bytes.\<close>

definition info_wf :: "QpEndpointInfo \<Rightarrow> bool" where
  "info_wf info \<longleftrightarrow> length (qi_gid info) = 16"

definition kEndpointInfoWireSize :: nat where
  "kEndpointInfoWireSize = 4 + 4 + 4 + 2 + 1 + 1 + 1 + 16 + 4 + 8 + 8"

definition encode_endpoint_info :: "QpEndpointInfo \<Rightarrow> byte list" where
  "encode_endpoint_info info =
     put_u32 (qi_rank info) @ put_u32 (qi_qp_num info) @ put_u32 (qi_psn info) @
     put_u16 (qi_lid info) @ put_u8 (qi_port_num info) @ put_u8 (qi_mtu info) @
     put_u8 (qi_gid_index info) @ qi_gid info @ put_u32 (qi_rkey info) @
     put_u64 (qi_addr info) @ put_u64 (qi_buf_len info)"

text \<open>The cursor is threaded through the reads; \<open>decode_cursor\<close> also returns where it ends.\<close>

definition decode_cursor :: "byte list \<Rightarrow> QpEndpointInfo \<times> byte list" where
  "decode_cursor p =
     (let (rank, p) = get_u32 p; (qp_num, p) = get_u32 p; (psn, p) = get_u32 p;
          (lid, p) = get_u16 p; (port_num, p) = get_u8 p; (mtu, p) = get_u8 p;
          (gid_index, p) = get_u8 p; gid = take 16 p; p = drop 16 p;
          (rkey, p) = get_u32 p; (addr, p) = get_u64 p; (buf_len, p) = get_u64 p
      in (\<lparr>qi_rank = rank, qi_qp_num = qp_num, qi_psn = psn, qi_lid = lid, qi_port_num = port_num,
           qi_mtu = mtu, qi_gid_index = gid_index, qi_gid = gid, qi_rkey = rkey, qi_addr = addr,
           qi_buf_len = buf_len\<rparr>, p))"

definition decode_endpoint_info :: "byte list \<Rightarrow> QpEndpointInfo" where
  "decode_endpoint_info bytes = fst (decode_cursor bytes)"

lemmas codec_simps [simp] =
  u8.dec_enc [OF TrueI] u16.dec_enc [OF TrueI] u32.dec_enc [OF TrueI] u64.dec_enc [OF TrueI]
  u8.enc_size [OF TrueI] u16.enc_size [OF TrueI] u32.enc_size [OF TrueI] u64.enc_size [OF TrueI]

interpretation info: codec info_wf encode_endpoint_info decode_cursor kEndpointInfoWireSize
proof unfold_locales
  fix x rest and bs :: "byte list"
  show "info_wf x \<Longrightarrow> length (encode_endpoint_info x) = kEndpointInfoWireSize"
    by (simp add: encode_endpoint_info_def kEndpointInfoWireSize_def info_wf_def)
  show "info_wf x \<Longrightarrow> decode_cursor (encode_endpoint_info x @ rest) = (x, rest)"
    by (simp add: decode_cursor_def encode_endpoint_info_def info_wf_def)
  assume bs: "length bs = kEndpointInfoWireSize"
  then have l: "length bs = 53" by (simp add: kEndpointInfoWireSize_def)
  obtain rank b1 where 1: "bs = put_u32 rank @ b1" "length b1 = 49"
    by (rule u32.split_enc [of bs 49]) (use l in auto)
  obtain qpn b2 where 2: "b1 = put_u32 qpn @ b2" "length b2 = 45"
    by (rule u32.split_enc [of b1 45]) (use 1 in auto)
  obtain psn b3 where 3: "b2 = put_u32 psn @ b3" "length b3 = 41"
    by (rule u32.split_enc [of b2 41]) (use 2 in auto)
  obtain lid b4 where 4: "b3 = put_u16 lid @ b4" "length b4 = 39"
    by (rule u16.split_enc [of b3 39]) (use 3 in auto)
  obtain pn b5 where 5: "b4 = put_u8 pn @ b5" "length b5 = 38"
    by (rule u8.split_enc [of b4 38]) (use 4 in auto)
  obtain mtu b6 where 6: "b5 = put_u8 mtu @ b6" "length b6 = 37"
    by (rule u8.split_enc [of b5 37]) (use 5 in auto)
  obtain gi b7 where 7: "b6 = put_u8 gi @ b7" "length b7 = 36"
    by (rule u8.split_enc [of b6 36]) (use 6 in auto)
  have 8: "b7 = take 16 b7 @ drop 16 b7" "length (drop 16 b7) = 20" using 7(2) by simp_all
  obtain rkey b9 where 9: "drop 16 b7 = put_u32 rkey @ b9" "length b9 = 16"
    by (rule u32.split_enc [of "drop 16 b7" 16]) (use 8(2) in auto)
  obtain addr b10 where 10: "b9 = put_u64 addr @ b10" "length b10 = 8"
    by (rule u64.split_enc [of b9 8]) (use 9 in auto)
  obtain len b11 where 11: "b10 = put_u64 len @ b11" "length b11 = 0"
    by (rule u64.split_enc [of b10 0]) (use 10 in auto)
  let ?x = "\<lparr>qi_rank = rank, qi_qp_num = qpn, qi_psn = psn, qi_lid = lid, qi_port_num = pn, qi_mtu = mtu,
    qi_gid_index = gi, qi_gid = take 16 b7, qi_rkey = rkey, qi_addr = addr, qi_buf_len = len\<rparr>"
  have "encode_endpoint_info ?x = bs"
    using 8(1) 11 unfolding encode_endpoint_info_def 1(1) 2(1) 3(1) 4(1) 5(1) 6(1) 7(1) 9(1) 10(1) by simp
  moreover have "info_wf ?x" using 7(2) by (simp add: info_wf_def)
  ultimately show "\<exists>x. info_wf x \<and> encode_endpoint_info x = bs" by blast
qed

section \<open>Properties\<close>

text \<open>
  C18: the wire format is a bijection between endpoint information and 53-byte strings: encoding
  gives exactly \<^verbatim>\<open>kEndpointInfoWireSize\<close> = 53 bytes, decoding what was encoded gives the same
  information back field by field, and every 53-byte string decodes to information whose
  encoding is that string.
\<close>

theorem endpoint_info_roundtrip:
  "kEndpointInfoWireSize = 53 \<and>
   (info_wf info \<longrightarrow> length (encode_endpoint_info info) = kEndpointInfoWireSize \<and>
      decode_endpoint_info (encode_endpoint_info info) = info) \<and>
   (length bytes = kEndpointInfoWireSize \<longrightarrow>
      info_wf (decode_endpoint_info bytes) \<and> encode_endpoint_info (decode_endpoint_info bytes) = bytes)"
proof (intro conjI impI)
  show "kEndpointInfoWireSize = 53" by (simp add: kEndpointInfoWireSize_def)
  show "length (encode_endpoint_info info) = kEndpointInfoWireSize" if "info_wf info"
    by (rule info.enc_size [OF that])
  show "decode_endpoint_info (encode_endpoint_info info) = info" if "info_wf info"
    using info.dec_enc [OF that, of "[]"] by (simp add: decode_endpoint_info_def)
  show "info_wf (decode_endpoint_info bytes)" "encode_endpoint_info (decode_endpoint_info bytes) = bytes"
    if "length bytes = kEndpointInfoWireSize"
    using info.dec_any [of bytes] that by (simp_all add: decode_endpoint_info_def)
qed

definition sample_info :: QpEndpointInfo where
  "sample_info = \<lparr>qi_rank = 1, qi_qp_num = 0x1234, qi_psn = 0xABCDEF, qi_lid = 0x102, qi_port_num = 1,
     qi_mtu = 3, qi_gid_index = 2, qi_gid = replicate 16 0xFE, qi_rkey = 0, qi_addr = 0, qi_buf_len = 0\<rparr>"

theorem endpoint_info_roundtrip_witness:
  "decode_endpoint_info (encode_endpoint_info sample_info) = sample_info \<and>
   encode_endpoint_info (decode_endpoint_info (replicate 53 7)) = replicate 53 7"
  using endpoint_info_roundtrip [of sample_info "replicate 53 7"]
  by (simp add: sample_info_def info_wf_def)

end
