(* ===== verification/Bootstrap.thy ===== *)
theory Bootstrap
  imports Confluence Endpoint_Info
begin

text \<open>
  \<^verbatim>\<open>TcpBootstrap::exchange\<close> of \<^verbatim>\<open>src/bootstrap/tcp_bootstrap.cc\<close> and \<^verbatim>\<open>Communicator::barrier\<close>. The code of
  one rank is a resumption over its sockets, so that the ranks of a job can be run under
  any interleaving. \<^verbatim>\<open>send_exact\<close> and \<^verbatim>\<open>recv_exact\<close> are transfers of one byte after the other: by
  theory \<open>Tcp_Stream\<close> they transfer exactly the bytes asked for, however the system splits them.
\<close>

section \<open>The code of one rank\<close>

datatype 'a bprog =
    BRet 'a
  | BThrow error
  | BPut int byte "'a bprog"
  | BGet int "byte \<Rightarrow> 'a bprog"

primrec put_bytes :: "int \<Rightarrow> byte list \<Rightarrow> 'a bprog \<Rightarrow> 'a bprog" where
  "put_bytes fd [] k = k"
| "put_bytes fd (b # bs) k = BPut fd b (put_bytes fd bs k)"

primrec get_bytes :: "int \<Rightarrow> nat \<Rightarrow> (byte list \<Rightarrow> 'a bprog) \<Rightarrow> 'a bprog" where
  "get_bytes fd 0 k = k []"
| "get_bytes fd (Suc n) k = BGet fd (\<lambda>b. get_bytes fd n (\<lambda>bs. k (b # bs)))"

text \<open>\<^verbatim>\<open>htonl\<close> followed by a copy writes the bytes of a number most significant first.\<close>

definition send_u32 :: "int \<Rightarrow> u32 \<Rightarrow> 'a bprog \<Rightarrow> 'a bprog" where
  "send_u32 fd v k = put_bytes fd (put_u32 v) k"

definition recv_u32 :: "int \<Rightarrow> (u32 \<Rightarrow> 'a bprog) \<Rightarrow> 'a bprog" where
  "recv_u32 fd k = get_bytes fd 4 (\<lambda>be. k (fst (get_u32 be)))"

type_synonym entry = "int \<times> QpEndpointInfo"

definition kEntryWireSize :: nat where
  "kEntryWireSize = 4 + kEndpointInfoWireSize"

definition entry_bytes :: "int \<Rightarrow> QpEndpointInfo \<Rightarrow> byte list" where
  "entry_bytes dst_rank info = put_u32 (word_of_int dst_rank) @ encode_endpoint_info info"

definition send_entry :: "int \<Rightarrow> int \<Rightarrow> QpEndpointInfo \<Rightarrow> 'a bprog \<Rightarrow> 'a bprog" where
  "send_entry fd dst_rank info k = put_bytes fd (entry_bytes dst_rank info) k"

definition recv_entry :: "int \<Rightarrow> (entry \<Rightarrow> 'a bprog) \<Rightarrow> 'a bprog" where
  "recv_entry fd k =
     get_bytes fd kEntryWireSize (\<lambda>buf.
       k (sint (fst (get_u32 (take 4 buf))), decode_endpoint_info (drop 4 buf)))"

section \<open>TcpBootstrap\<close>

record TcpBootstrap =
  bs_rank :: int
  bs_world_size :: int
  conn_fd :: int
  listen_fd :: int
  peer_fds :: "int list"

definition with_peer_fd :: "TcpBootstrap \<Rightarrow> nat \<Rightarrow> (int \<Rightarrow> 'a bprog) \<Rightarrow> 'a bprog" where
  "with_peer_fd b r k =
     (if r < length (peer_fds b) then k (peer_fds b ! r) else BThrow (Undefined ''peer_fds_''))"

fun send_entries :: "int \<Rightarrow> entry list \<Rightarrow> 'a bprog \<Rightarrow> 'a bprog" where
  "send_entries fd [] k = k"
| "send_entries fd ((dst, info) # es) k = send_entry fd dst info (send_entries fd es k)"

fun recv_entries :: "int \<Rightarrow> nat \<Rightarrow> entry list \<Rightarrow> (entry list \<Rightarrow> 'a bprog) \<Rightarrow> 'a bprog" where
  "recv_entries fd 0 table k = k table"
| "recv_entries fd (Suc n) table k = recv_entry fd (\<lambda>e. recv_entries fd n (table @ [e]) k)"

text \<open>The two loops of rank 0 over the other ranks.\<close>

fun collect_loop :: "TcpBootstrap \<Rightarrow> nat list \<Rightarrow> entry list \<Rightarrow> (entry list \<Rightarrow> 'a bprog) \<Rightarrow> 'a bprog" where
  "collect_loop b [] table k = k table"
| "collect_loop b (r # rs) table k =
     with_peer_fd b r (\<lambda>fd. recv_u32 fd (\<lambda>count.
       recv_entries fd (unat count) table (\<lambda>table. collect_loop b rs table k)))"

fun reflect_loop :: "TcpBootstrap \<Rightarrow> nat list \<Rightarrow> entry list \<Rightarrow> 'a bprog \<Rightarrow> 'a bprog" where
  "reflect_loop b [] table k = k"
| "reflect_loop b (r # rs) table k =
     with_peer_fd b r (\<lambda>fd. send_u32 fd (of_nat (length table))
       (send_entries fd table (reflect_loop b rs table k)))"

definition inbox :: "int \<Rightarrow> entry list \<Rightarrow> (int \<rightharpoonup> QpEndpointInfo)" where
  "inbox rank table =
     foldl (\<lambda>m (dst, info). if dst = rank then m(sint (qi_rank info) \<mapsto> info) else m) Map.empty table"

text \<open>
  \<open>outgoing\<close> lists the map in its iteration order, which the language leaves open.
\<close>

definition exchange ::
    "TcpBootstrap \<Rightarrow> entry list \<Rightarrow> ((int \<rightharpoonup> QpEndpointInfo) \<Rightarrow> 'a bprog) \<Rightarrow> 'a bprog" where
  "exchange b outgoing k =
     (if bs_rank b = 0
      then (let others = [1..<nat (bs_world_size b)] in
            collect_loop b others outgoing (\<lambda>table.
              reflect_loop b others table (k (inbox (bs_rank b) table))))
      else send_u32 (conn_fd b) (of_nat (length outgoing))
             (send_entries (conn_fd b) outgoing
               (recv_u32 (conn_fd b) (\<lambda>total.
                 recv_entries (conn_fd b) (unat total) [] (\<lambda>table.
                   k (inbox (bs_rank b) table))))))"

definition barrier :: "TcpBootstrap \<Rightarrow> 'a bprog \<Rightarrow> 'a bprog" where
  "barrier b k = exchange b [] (\<lambda>_. k)"

section \<open>Ranks connected by TCP\<close>

text \<open>
  \<open>chan r q\<close> holds the bytes sent by \<open>r\<close> to \<open>q\<close> and not yet received; \<open>wire r fd\<close> is the rank at the
  other end of a socket of \<open>r\<close>. A step is one byte sent or received by a rank; a receive
  waits for a byte.
\<close>

record 'a bjob =
  bprocs :: "nat \<Rightarrow> 'a bprog"
  chan :: "nat \<Rightarrow> nat \<Rightarrow> byte list"

definition set_chan :: "nat \<Rightarrow> nat \<Rightarrow> byte list \<Rightarrow> (nat \<Rightarrow> nat \<Rightarrow> byte list) \<Rightarrow> nat \<Rightarrow> nat \<Rightarrow> byte list" where
  "set_chan r q bs c = c(r := (c r)(q := bs))"

definition bexec :: "(nat \<Rightarrow> int \<Rightarrow> nat) \<Rightarrow> nat \<Rightarrow> 'a bjob \<Rightarrow> 'a bjob option" where
  "bexec wire r w =
     (case bprocs w r of
        BRet _ \<Rightarrow> None
      | BThrow _ \<Rightarrow> None
      | BPut fd b k \<Rightarrow>
          Some (w\<lparr>bprocs := (bprocs w)(r := k),
            chan := set_chan r (wire r fd) (chan w r (wire r fd) @ [b]) (chan w)\<rparr>)
      | BGet fd k \<Rightarrow>
          (case chan w (wire r fd) r of
             [] \<Rightarrow> None
           | b # bs \<Rightarrow> Some (w\<lparr>bprocs := (bprocs w)(r := k b),
               chan := set_chan (wire r fd) r bs (chan w)\<rparr>)))"

lemma set_chan_simps [simp]:
  "set_chan r q bs c r q = bs"
  "(x, y) \<noteq> (r, q) \<Longrightarrow> set_chan r q bs c x y = c x y"
  by (auto simp: set_chan_def)

lemma set_chan_commute:
  "(x, y) \<noteq> (r, q) \<Longrightarrow> set_chan x y cs (set_chan r q bs c) = set_chan r q bs (set_chan x y cs c)"
  by (auto simp: set_chan_def fun_upd_twist)

lemma set_chan_twice [simp]: "set_chan r q cs (set_chan r q bs c) = set_chan r q cs c"
  by (simp add: set_chan_def)

text \<open>Two ranks' steps commute: a channel has one writer and one reader.\<close>

lemma bexec_diamond:
  assumes "bexec wire a s = Some t" "bexec wire b s = Some u" "a \<noteq> b"
  shows "\<exists>v. bexec wire b t = Some v \<and> bexec wire a u = Some v"
proof (cases "bprocs s a"; cases "bprocs s b")
  fix fd x k fd' x' k'
  assume "bprocs s a = BPut fd x k" "bprocs s b = BPut fd' x' k'"
  with assms show ?thesis by (auto simp: bexec_def fun_upd_twist set_chan_commute)
next
  fix fd x k fd' k'
  assume "bprocs s a = BPut fd x k" "bprocs s b = BGet fd' k'"
  with assms show ?thesis
    by (cases "wire b fd' = a \<and> wire a fd = b")
      (auto simp: bexec_def fun_upd_twist set_chan_commute split: list.splits)
next
  fix fd k fd' x' k'
  assume "bprocs s a = BGet fd k" "bprocs s b = BPut fd' x' k'"
  with assms show ?thesis
    by (cases "wire a fd = b \<and> wire b fd' = a")
      (auto simp: bexec_def fun_upd_twist set_chan_commute split: list.splits)
next
  fix fd k fd' k'
  assume "bprocs s a = BGet fd k" "bprocs s b = BGet fd' k'"
  with assms show ?thesis by (auto simp: bexec_def fun_upd_twist set_chan_commute split: list.splits)
qed (use assms in \<open>simp_all add: bexec_def\<close>)

interpretation tcp: diamond_system "bexec wire" "\<lambda>_. True" for wire :: "nat \<Rightarrow> int \<Rightarrow> nat"
  by unfold_locales (use bexec_diamond in blast)+

section \<open>Schedules of a star\<close>

text \<open>
  A job in which rank 0 runs \<open>p\<close> and every other rank \<open>r\<close> is given by \<open>loc r\<close>: its program, the bytes
  on their way to rank 0 and the bytes on their way from rank 0.
\<close>

type_synonym 'a client = "'a bprog \<times> byte list \<times> byte list"

definition star :: "'a bprog \<Rightarrow> (nat \<Rightarrow> 'a client) \<Rightarrow> 'a bjob" where
  "star p loc =
     \<lparr>bprocs = (\<lambda>r. if r = 0 then p else fst (loc r)),
      chan = (\<lambda>x y. if x \<noteq> 0 \<and> y = 0 then fst (snd (loc x))
                    else if x = 0 \<and> y \<noteq> 0 then snd (snd (loc y)) else [])\<rparr>"

definition reach :: "(nat \<Rightarrow> int \<Rightarrow> nat) \<Rightarrow> 'a bjob \<Rightarrow> 'a bjob \<Rightarrow> bool" where
  "reach wire w w' \<longleftrightarrow> (\<exists>ls. run (bexec wire) ls w = Some w')"

lemma reach_refl [simp]: "reach wire w w"
  unfolding reach_def by (rule exI [of _ "[]"]) simp

lemma reach_step: "bexec wire r w = Some w' \<Longrightarrow> reach wire w' w'' \<Longrightarrow> reach wire w w''"
  unfolding reach_def by (metis option.simps(5) run.simps(2))

lemma reach_trans [trans]: "reach wire w w' \<Longrightarrow> reach wire w' w'' \<Longrightarrow> reach wire w w''"
  unfolding reach_def by (metis run_appendI)

lemma client_put:
  assumes "r \<noteq> 0" "wire r fd = 0"
  shows "loc r = (put_bytes fd bs k, u, d) \<Longrightarrow> reach wire (star p loc) (star p (loc(r := (k, u @ bs, d))))"
proof (induction bs arbitrary: loc u)
  case Nil
  then have "loc(r := (k, u @ [], d)) = loc" by auto
  then show ?case by simp
next
  case (Cons b bs)
  have "bexec wire r (star p loc) = Some (star p (loc(r := (put_bytes fd bs k, u @ [b], d))))"
    using Cons.prems assms by (auto simp: bexec_def star_def set_chan_def fun_eq_iff)
  from reach_step [OF this Cons.IH [where u = "u @ [b]"]] show ?case by (simp del: fun_upd_apply add: fun_upd_same)
qed

lemma root_put:
  assumes "r \<noteq> 0" "wire 0 fd = r"
  shows "loc r = (q, u, d) \<Longrightarrow> reach wire (star (put_bytes fd bs k) loc) (star k (loc(r := (q, u, d @ bs))))"
proof (induction bs arbitrary: loc d)
  case Nil
  then have "loc(r := (q, u, d @ [])) = loc" by auto
  then show ?case by simp
next
  case (Cons b bs)
  have "bexec wire 0 (star (put_bytes fd (b # bs) k) loc) =
      Some (star (put_bytes fd bs k) (loc(r := (q, u, d @ [b]))))"
    using Cons.prems assms by (auto simp: bexec_def star_def set_chan_def fun_eq_iff)
  from reach_step [OF this Cons.IH [where d = "d @ [b]"]] show ?case by (simp del: fun_upd_apply add: fun_upd_same)
qed

text \<open>What the clients do on their own they can all do.\<close>

lemma clients_all:
  assumes "\<And>r p loc. r \<in> set rs \<Longrightarrow> loc r = a r \<Longrightarrow> reach wire (star p loc) (star p (loc(r := b r)))"
    and "distinct rs"
  shows "\<forall>r\<in>set rs. loc r = a r \<Longrightarrow>
    reach wire (star p loc) (star p (\<lambda>r. if r \<in> set rs then b r else loc r))"
  using assms
proof (induction rs arbitrary: loc)
  case (Cons r rs)
  have "reach wire (star p loc) (star p (loc(r := b r)))" using Cons.prems(1) by (intro Cons.prems(2)) simp_all
  also have "reach wire (star p (loc(r := b r)))
      (star p (\<lambda>x. if x \<in> set rs then b x else (loc(r := b r)) x))"
    using Cons.prems by (intro Cons.IH) auto
  also have "(\<lambda>x. if x \<in> set rs then b x else (loc(r := b r)) x) = (\<lambda>x. if x \<in> set (r # rs) then b x else loc x)"
    using Cons.prems(3) by auto
  finally show ?case .
qed simp

section \<open>Messages\<close>

text \<open>A message is a counted list of entries.\<close>

definition table_bytes :: "entry list \<Rightarrow> byte list" where
  "table_bytes es = put_u32 (of_nat (length es)) @ concat (map (\<lambda>(dst, info). entry_bytes dst info) es)"

definition entry_ok :: "entry \<Rightarrow> bool" where
  "entry_ok e \<longleftrightarrow> - (2 ^ 31) \<le> fst e \<and> fst e < 2 ^ 31 \<and> info_wf (snd e)"

lemma put_bytes_append: "put_bytes fd (bs @ cs) k = put_bytes fd bs (put_bytes fd cs k)"
  by (induction bs) simp_all

lemma send_entries_put:
  "send_entries fd es k = put_bytes fd (concat (map (\<lambda>(dst, info). entry_bytes dst info) es)) k"
  by (induction fd es k rule: send_entries.induct) (simp_all add: send_entry_def put_bytes_append)

lemma send_table_put: "send_u32 fd (of_nat (length es)) (send_entries fd es k) = put_bytes fd (table_bytes es) k"
  by (simp add: send_u32_def table_bytes_def put_bytes_append send_entries_put)

text \<open>
  Reading undoes writing. \<open>feeds fd p bs q\<close>: a program that does nothing but read \<open>bs\<close> from \<open>fd\<close>
  turns from \<open>p\<close> into \<open>q\<close>.
\<close>

inductive feeds :: "int \<Rightarrow> 'a bprog \<Rightarrow> byte list \<Rightarrow> 'a bprog \<Rightarrow> bool" for fd where
  feeds_done: "feeds fd p [] p"
| feeds_get: "feeds fd (k b) bs q \<Longrightarrow> feeds fd (BGet fd k) (b # bs) q"

lemma feeds_append: "feeds fd p bs q \<Longrightarrow> feeds fd q cs q' \<Longrightarrow> feeds fd p (bs @ cs) q'"
  by (induction rule: feeds.induct) (auto intro: feeds.intros)

lemma feeds_get_bytes: "feeds fd (get_bytes fd (length bs) k) bs (k bs)"
  by (induction bs arbitrary: k) (auto intro: feeds.intros)

lemma feeds_u32: "feeds fd (recv_u32 fd k) (put_u32 v) (k v)"
  using feeds_get_bytes [of fd "put_u32 v" "\<lambda>be. k (fst (get_u32 be))"] u32.dec_enc [OF TrueI, of v "[]"]
  by (simp add: recv_u32_def)

lemma feeds_entry:
  assumes "entry_ok e"
  shows "feeds fd (recv_entry fd k) (entry_bytes (fst e) (snd e)) (k e)"
proof -
  let ?bs = "entry_bytes (fst e) (snd e)"
  have wf: "info_wf (snd e)" "sint (word_of_int (fst e) :: u32) = fst e"
    using assms by (auto simp: entry_ok_def intro: sint_dst)
  have "length ?bs = kEntryWireSize"
    using info.enc_size [OF wf(1)] by (simp add: entry_bytes_def kEntryWireSize_def)
  moreover have "(sint (fst (get_u32 (take 4 ?bs))), decode_endpoint_info (drop 4 ?bs)) = e"
    using wf(2) info.dec_enc [OF wf(1), of "[]"] u32.dec_enc [OF TrueI, of "word_of_int (fst e)" "[]"]
    by (simp add: entry_bytes_def decode_endpoint_info_def)
  ultimately show ?thesis
    using feeds_get_bytes [of fd ?bs "\<lambda>buf. k (sint (fst (get_u32 (take 4 buf))), decode_endpoint_info (drop 4 buf))"]
    by (simp add: recv_entry_def)
qed

lemma feeds_entries:
  "\<forall>e\<in>set es. entry_ok e \<Longrightarrow>
   feeds fd (recv_entries fd (length es) table k) (concat (map (\<lambda>(dst, info). entry_bytes dst info) es)) (k (table @ es))"
proof (induction es arbitrary: table)
  case (Cons e es)
  have "feeds fd (recv_entry fd (\<lambda>e. recv_entries fd (length es) (table @ [e]) k)) (entry_bytes (fst e) (snd e))
      (recv_entries fd (length es) (table @ [e]) k)"
    using Cons.prems by (intro feeds_entry) simp
  from feeds_append [OF this Cons.IH [of "table @ [e]"]] Cons.prems show ?case by (simp add: case_prod_beta)
qed (simp add: feeds_done)

lemma feeds_table:
  assumes "\<forall>e\<in>set es. entry_ok e" "length es < 2 ^ 32"
  shows "feeds fd (recv_u32 fd (\<lambda>count. recv_entries fd (unat count) table k)) (table_bytes es) (k (table @ es))"
proof -
  have n: "unat (of_nat (length es) :: u32) = length es" using assms(2) by (simp add: unat_of_nat)
  have "feeds fd (recv_u32 fd (\<lambda>count. recv_entries fd (unat count) table k)) (put_u32 (of_nat (length es)))
      (recv_entries fd (length es) table k)"
    using feeds_u32 [of fd "\<lambda>count. recv_entries fd (unat count) table k" "of_nat (length es)"] n by simp
  from feeds_append [OF this feeds_entries [OF assms(1)]] show ?thesis by (simp add: table_bytes_def)
qed

lemma client_feed:
  assumes "feeds fd q bs q'" "r \<noteq> 0" "wire r fd = 0" "loc r = (q, u, bs @ d)"
  shows "reach wire (star p loc) (star p (loc(r := (q', u, d))))"
  using assms(1,4)
proof (induction arbitrary: loc rule: feeds.induct)
  case (feeds_done p')
  then have "loc(r := (p', u, d)) = loc" by auto
  then show ?case by simp
next
  case (feeds_get k b bs q')
  have "bexec wire r (star p loc) = Some (star p (loc(r := (k b, u, bs @ d))))"
    using feeds_get.prems assms(2,3) by (auto simp: bexec_def star_def set_chan_def fun_eq_iff)
  from reach_step [OF this feeds_get.IH] show ?case by (simp del: fun_upd_apply add: fun_upd_same)
qed

lemma root_feed:
  assumes "feeds fd p bs p'" "r \<noteq> 0" "wire 0 fd = r" "loc r = (q, bs @ u, d)"
  shows "reach wire (star p loc) (star p' (loc(r := (q, u, d))))"
  using assms(1,4)
proof (induction arbitrary: loc rule: feeds.induct)
  case (feeds_done p')
  then have "loc(r := (q, u, d)) = loc" by auto
  then show ?case by simp
next
  case (feeds_get k b bs p')
  have "bexec wire 0 (star (BGet fd k) loc) = Some (star (k b) (loc(r := (q, bs @ u, d))))"
    using feeds_get.prems assms(2,3) by (auto simp: bexec_def star_def set_chan_def fun_eq_iff)
  from reach_step [OF this feeds_get.IH] show ?case by (simp del: fun_upd_apply add: fun_upd_same)
qed

section \<open>The exchange\<close>

text \<open>
  What the constructors leave behind: rank numbers, world size, and sockets that connect
  rank 0 with every other rank.
\<close>

definition wired :: "(nat \<Rightarrow> int \<Rightarrow> nat) \<Rightarrow> nat \<Rightarrow> (nat \<Rightarrow> TcpBootstrap) \<Rightarrow> bool" where
  "wired wire P B \<longleftrightarrow>
     0 < P \<and> (\<forall>r<P. bs_rank (B r) = int r \<and> bs_world_size (B r) = int P) \<and>
     length (peer_fds (B 0)) = P \<and>
     (\<forall>r\<in>{1..<P}. wire 0 (peer_fds (B 0) ! r) = r \<and> wire r (conn_fd (B r)) = 0)"

lemma upd_set_Cons:
  "r \<notin> set rs \<Longrightarrow> (\<lambda>x. if x \<in> set rs then f x else (g(r := f r)) x) = (\<lambda>x. if x \<in> set (r # rs) then f x else g x)"
  by auto

lemma collect_reach:
  assumes "wired wire P B" "\<forall>r\<in>{1..<P}. (\<forall>e\<in>set (out r). entry_ok e) \<and> length (out r) < 2 ^ 32"
  shows "set rs \<subseteq> {1..<P} \<Longrightarrow> distinct rs \<Longrightarrow> \<forall>r\<in>set rs. loc r = (q r, table_bytes (out r), d r) \<Longrightarrow>
    reach wire (star (collect_loop (B 0) rs table k) loc)
      (star (k (table @ concat (map out rs))) (\<lambda>r. if r \<in> set rs then (q r, [], d r) else loc r))"
proof (induction rs arbitrary: table loc)
  case (Cons r rs)
  let ?fd = "peer_fds (B 0) ! r" and ?loc = "loc(r := (q r, [], d r))"
  have r: "r \<noteq> 0" "r < P" "wire 0 ?fd = r" "r < length (peer_fds (B 0))"
    using Cons.prems(1) assms(1) by (auto simp: wired_def)
  then have o: "\<forall>e\<in>set (out r). entry_ok e" "length (out r) < 2 ^ 32" using assms(2) by auto
  have "feeds ?fd (collect_loop (B 0) (r # rs) table k) (table_bytes (out r)) (collect_loop (B 0) rs (table @ out r) k)"
    using feeds_table [of "out r" ?fd table "\<lambda>table. collect_loop (B 0) rs table k"] o r
    by (simp add: with_peer_fd_def)
  then have "reach wire (star (collect_loop (B 0) (r # rs) table k) loc) (star (collect_loop (B 0) rs (table @ out r) k) ?loc)"
    using r(1,3) by (rule root_feed) (use Cons.prems(3) in simp)
  also have "reach wire (star (collect_loop (B 0) rs (table @ out r) k) ?loc)
      (star (k ((table @ out r) @ concat (map out rs))) (\<lambda>x. if x \<in> set rs then (q x, [], d x) else ?loc x))"
    using Cons.prems by (intro Cons.IH) auto
  finally show ?case using upd_set_Cons [of r rs "\<lambda>x. (q x, [], d x)" loc] Cons.prems(2) by simp
qed simp

lemma reflect_reach:
  assumes "wired wire P B"
  shows "set rs \<subseteq> {1..<P} \<Longrightarrow> distinct rs \<Longrightarrow> \<forall>r\<in>set rs. loc r = (q r, u r, d r) \<Longrightarrow>
    reach wire (star (reflect_loop (B 0) rs table k) loc)
      (star k (\<lambda>r. if r \<in> set rs then (q r, u r, d r @ table_bytes table) else loc r))"
proof (induction rs arbitrary: loc)
  case (Cons r rs)
  let ?fd = "peer_fds (B 0) ! r" and ?loc = "loc(r := (q r, u r, d r @ table_bytes table))"
  have r: "r \<noteq> 0" "r < P" "wire 0 ?fd = r" "r < length (peer_fds (B 0))"
    using Cons.prems(1) assms(1) by (auto simp: wired_def)
  have "reflect_loop (B 0) (r # rs) table k = put_bytes ?fd (table_bytes table) (reflect_loop (B 0) rs table k)"
    using r by (simp add: with_peer_fd_def send_table_put)
  then have "reach wire (star (reflect_loop (B 0) (r # rs) table k) loc) (star (reflect_loop (B 0) rs table k) ?loc)"
    using root_put [of r wire ?fd loc "q r" "u r" "d r"] r Cons.prems(3) by simp
  also have "reach wire (star (reflect_loop (B 0) rs table k) ?loc)
      (star k (\<lambda>x. if x \<in> set rs then (q x, u x, d x @ table_bytes table) else ?loc x))"
    using Cons.prems by (intro Cons.IH) auto
  finally show ?case using upd_set_Cons [of r rs "\<lambda>x. (q x, u x, d x @ table_bytes table)" loc] Cons.prems(2) by simp
qed simp

text \<open>Everything that was submitted, as rank 0 assembles it.\<close>

definition full_table :: "nat \<Rightarrow> (nat \<Rightarrow> entry list) \<Rightarrow> entry list" where
  "full_table P out = concat (map out [0..<P])"

definition submissions_ok :: "nat \<Rightarrow> (nat \<Rightarrow> entry list) \<Rightarrow> bool" where
  "submissions_ok P out \<longleftrightarrow>
     (\<forall>r<P. \<forall>e\<in>set (out r). entry_ok e) \<and> length (full_table P out) < 2 ^ 32"

lemma submission_le: "r < P \<Longrightarrow> length (out r) \<le> length (full_table P out)"
  by (simp add: full_table_def length_concat comp_def member_le_sum_list)

lemma full_table_split: "0 < P \<Longrightarrow> full_table P out = out 0 @ concat (map out [1..<P])"
  by (simp add: full_table_def upt_conv_Cons)

lemma exchange_reach:
  assumes wired: "wired wire P B" and out: "submissions_ok P out"
    and loc: "\<forall>r\<in>{1..<P}. loc r = (exchange (B r) (out r) (k r), [], [])"
  shows "reach wire (star (exchange (B 0) (out 0) (k 0)) loc)
    (star (k 0 (inbox 0 (full_table P out)))
      (\<lambda>r. if r \<in> {1..<P} then (k r (inbox (int r) (full_table P out)), [], []) else loc r))"
proof -
  let ?rs = "[1..<P]" and ?T = "full_table P out"
  define R where "R r = recv_u32 (conn_fd (B r)) (\<lambda>total. recv_entries (conn_fd (B r)) (unat total) []
      (\<lambda>table. k r (inbox (bs_rank (B r)) table)))" for r
  have P: "0 < P" and rank: "\<And>r. r < P \<Longrightarrow> bs_rank (B r) = int r" and size: "bs_world_size (B 0) = int P"
    and wire: "\<And>r. r \<in> {1..<P} \<Longrightarrow> wire r (conn_fd (B r)) = 0"
    using wired by (auto simp: wired_def)
  have ok: "\<forall>r\<in>{1..<P}. (\<forall>e\<in>set (out r). entry_ok e) \<and> length (out r) < 2 ^ 32"
    using out submission_le [of _ P out] unfolding submissions_ok_def by fastforce
  have T: "\<forall>e\<in>set ?T. entry_ok e" "length ?T < 2 ^ 32"
    using out by (auto simp: submissions_ok_def full_table_def)
  let ?l1 = "\<lambda>r. if r \<in> set ?rs then (R r, table_bytes (out r), []) else loc r"
  let ?l2 = "\<lambda>r. if r \<in> set ?rs then (R r, [], []) else ?l1 r"
  let ?l3 = "\<lambda>r. if r \<in> set ?rs then (R r, [], [] @ table_bytes ?T) else ?l2 r"
  let ?l4 = "\<lambda>r. if r \<in> set ?rs then (k r (inbox (int r) ?T), [], []) else ?l3 r"
  let ?reflect = "\<lambda>table. reflect_loop (B 0) ?rs table (k 0 (inbox 0 table))"
  have client: "exchange (B r) (out r) (k r) = put_bytes (conn_fd (B r)) (table_bytes (out r)) (R r)"
    if "r \<in> {1..<P}" for r
    using that rank [of r] by (simp add: exchange_def R_def send_table_put)
  have root: "exchange (B 0) (out 0) (k 0) = collect_loop (B 0) ?rs (out 0) ?reflect"
    using rank [of 0] P size by (simp add: exchange_def Let_def)
  have "reach wire (star p loc) (star p ?l1)" for p
  proof (rule clients_all)
    show "reach wire (star p loc) (star p (loc(r := (R r, table_bytes (out r), []))))"
      if "r \<in> set ?rs" "loc r = (put_bytes (conn_fd (B r)) (table_bytes (out r)) (R r), [], [])" for r p loc
      using client_put [where loc = loc, OF _ _ that(2)] wire [of r] that(1) by simp
  qed (use loc client in auto)
  then have "reach wire (star (exchange (B 0) (out 0) (k 0)) loc) (star (collect_loop (B 0) ?rs (out 0) ?reflect) ?l1)"
    unfolding root by blast
  also have "reach wire (star (collect_loop (B 0) ?rs (out 0) ?reflect) ?l1)
      (star (?reflect (out 0 @ concat (map out ?rs))) ?l2)"
    by (rule collect_reach [OF wired ok]) auto
  also have "star (?reflect (out 0 @ concat (map out ?rs))) ?l2 = star (?reflect ?T) ?l2"
    using full_table_split [OF P] by simp
  also have "reach wire (star (?reflect ?T) ?l2) (star (k 0 (inbox 0 ?T)) ?l3)"
    by (rule reflect_reach [OF wired]) auto
  also have "reach wire (star (k 0 (inbox 0 ?T)) ?l3) (star (k 0 (inbox 0 ?T)) ?l4)"
  proof (rule clients_all)
    show "reach wire (star p loc) (star p (loc(r := (k r (inbox (int r) ?T), [], []))))"
      if "r \<in> set ?rs" "loc r = (R r, [], table_bytes ?T)" for r p loc
    proof (rule client_feed)
      show "feeds (conn_fd (B r)) (R r) (table_bytes ?T) (k r (inbox (int r) ?T))"
        using feeds_table [OF T, of "conn_fd (B r)" "[]"] rank [of r] that(1) by (simp add: R_def)
    qed (use that wire [of r] in auto)
  qed auto
  also have "?l4 = (\<lambda>r. if r \<in> {1..<P} then (k r (inbox (int r) ?T), [], []) else loc r)"
    by auto
  finally show ?thesis .
qed

subsection \<open>What each rank receives\<close>

lemma inbox_snoc_rank:
  assumes "\<forall>e\<in>set es. qi_rank (snd e) = of_nat r" "distinct (map fst es)" "r < 2 ^ 31"
  shows "foldl (\<lambda>m (dst, info). if dst = q then m(sint (qi_rank info) \<mapsto> info) else m) m es =
    (case map_of es q of None \<Rightarrow> m | Some info \<Rightarrow> m(int r \<mapsto> info))"
proof -
  have "sint (of_nat r :: u32) = int r" using sint_dst [of "int r"] assms(3) by simp
  with assms(1,2) show ?thesis
  proof (induction es arbitrary: m)
    case (Cons e es)
    obtain dst info where e: "e = (dst, info)" by force
    show ?case
    proof (cases "dst = q")
      case True
      then have "map_of es q = None" using Cons.prems e by (auto simp: map_of_eq_None_iff)
      with Cons.IH [of "m(int r \<mapsto> info)"] Cons.prems True e show ?thesis
        by (simp del: fun_upd_apply add: fun_upd_same)
    qed (use Cons e in simp)
  qed simp
qed

lemma inbox_full_table:
  assumes "\<forall>r<P. (\<forall>e\<in>set (out r). qi_rank (snd e) = of_nat r) \<and> distinct (map fst (out r))" "P \<le> 2 ^ 31"
  shows "inbox q (full_table P out) = (\<lambda>s. if 0 \<le> s \<and> s < int P then map_of (out (nat s)) q else None)"
  using assms
proof (induction P)
  case 0
  then show ?case by (auto simp: inbox_def full_table_def fun_eq_iff)
next
  case (Suc P)
  have "inbox q (full_table (Suc P) out) =
      (case map_of (out P) q of None \<Rightarrow> inbox q (full_table P out)
       | Some info \<Rightarrow> (inbox q (full_table P out))(int P \<mapsto> info))"
    using inbox_snoc_rank [of "out P" P q "inbox q (full_table P out)"] Suc.prems
    by (simp add: inbox_def full_table_def)
  also have "\<dots> = (\<lambda>s. if 0 \<le> s \<and> s < int (Suc P) then map_of (out (nat s)) q else None)"
  proof
    have IH: "inbox q (full_table P out) = (\<lambda>s. if 0 \<le> s \<and> s < int P then map_of (out (nat s)) q else None)"
      using Suc by simp
    show "(case map_of (out P) q of None \<Rightarrow> inbox q (full_table P out)
        | Some info \<Rightarrow> (inbox q (full_table P out))(int P \<mapsto> info)) s =
      (if 0 \<le> s \<and> s < int (Suc P) then map_of (out (nat s)) q else None)" for s
      unfolding IH by (cases "s = int P") (auto split: option.splits)
  qed
  finally show ?case .
qed

text \<open>A job whose channels are empty and whose ranks from \<open>P\<close> on are idle.\<close>

definition tcp_job :: "nat \<Rightarrow> (nat \<Rightarrow> 'a bprog) \<Rightarrow> 'a \<Rightarrow> 'a bjob" where
  "tcp_job P p z = \<lparr>bprocs = (\<lambda>r. if r < P then p r else BRet z), chan = (\<lambda>_ _. [])\<rparr>"

lemma tcp_job_star: "0 < P \<Longrightarrow> tcp_job P p z = star (p 0) (\<lambda>r. (if r < P then p r else BRet z, [], []))"
  by (auto simp: tcp_job_def star_def fun_eq_iff)

lemma exchange_ends:
  assumes "wired wire P B" "submissions_ok P out"
    and final: "\<And>r m. r < P \<Longrightarrow> \<exists>x y. k r m = BRet x \<or> k r m = BThrow y"
  shows "always_ends (bexec wire) (tcp_job P (\<lambda>r. exchange (B r) (out r) (k r)) z)
    (\<lambda>f. f = tcp_job P (\<lambda>r. k r (inbox (int r) (full_table P out))) z)"
proof -
  let ?T = "full_table P out" and ?loc = "\<lambda>r. (if r < P then exchange (B r) (out r) (k r) else BRet z, [], [])"
  let ?f = "tcp_job P (\<lambda>r. k r (inbox (int r) ?T)) z"
  have P: "0 < P" using assms(1) by (simp add: wired_def)
  have "reach wire (star (exchange (B 0) (out 0) (k 0)) ?loc)
      (star (k 0 (inbox 0 ?T)) (\<lambda>r. if r \<in> {1..<P} then (k r (inbox (int r) ?T), [], []) else ?loc r))"
    by (rule exchange_reach [OF assms(1,2)]) auto
  also have "star (k 0 (inbox 0 ?T)) (\<lambda>r. if r \<in> {1..<P} then (k r (inbox (int r) ?T), [], []) else ?loc r) = ?f"
    unfolding tcp_job_star [OF P] using P by (auto simp: star_def fun_eq_iff)
  finally obtain ls where "run (bexec wire) ls (tcp_job P (\<lambda>r. exchange (B r) (out r) (k r)) z) = Some ?f"
    unfolding tcp_job_star [OF P] reach_def by blast
  moreover have "stuck (bexec wire) ?f"
    unfolding stuck_def
  proof
    show "bexec wire r ?f = None" for r
      using final [of r "inbox (int r) ?T"] by (cases "r < P") (auto simp: bexec_def tcp_job_def)
  qed
  ultimately show ?thesis by (rule tcp.one_schedule_suffices [OF TrueI]) simp
qed

section \<open>The barrier\<close>

lemma collect_loop_append:
  "collect_loop b (rs @ qs) table k = collect_loop b rs table (\<lambda>table. collect_loop b qs table k)"
  by (induction b rs table k rule: collect_loop.induct) (simp_all add: with_peer_fd_def)

lemma recv_u32_waits: "\<exists>k'. recv_u32 fd k = BGet fd k'"
  by (simp add: recv_u32_def eval_nat_numeral)

lemma returned_stays: "run (bexec wire) ls t = Some f \<Longrightarrow> bprocs t r = BRet v \<Longrightarrow> bprocs f r = BRet v"
proof (induction ls arbitrary: t)
  case (Cons l ls)
  then obtain t' where "bexec wire l t = Some t'" "run (bexec wire) ls t' = Some f" by (auto split: option.splits)
  moreover from this Cons.prems(2) have "bprocs t' r = BRet v"
    by (cases "l = r") (auto simp: bexec_def split: bprog.splits list.splits)
  ultimately show ?case using Cons.IH by blast
qed simp

text \<open>With rank \<open>x\<close> absent every other rank ends up waiting for a byte.\<close>

definition waiting :: "(nat \<Rightarrow> int \<Rightarrow> nat) \<Rightarrow> nat \<Rightarrow> 'a bjob \<Rightarrow> bool" where
  "waiting wire r f \<longleftrightarrow> (\<exists>fd k. bprocs f r = BGet fd k \<and> chan f (wire r fd) r = [])"

lemma bprocs_star: "bprocs (star p loc) r = (if r = 0 then p else fst (loc r))"
  by (simp add: star_def)

lemma client_waiting: "r \<noteq> 0 \<Longrightarrow> wire r fd = 0 \<Longrightarrow> \<exists>k. fst (loc r) = BGet fd k \<Longrightarrow> snd (snd (loc r)) = [] \<Longrightarrow>
    waiting wire r (star p loc)"
  by (auto simp: waiting_def star_def)

lemma root_waiting: "wire 0 fd = x \<Longrightarrow> x \<noteq> 0 \<Longrightarrow> fst (snd (loc x)) = [] \<Longrightarrow> waiting wire 0 (star (BGet fd k) loc)"
  by (simp add: waiting_def star_def)

lemma barrier_blocks:
  assumes wired: "wired wire P B" and x: "x < P"
  shows "\<exists>f. reach wire (tcp_job P (\<lambda>r. if r = x then BRet z else barrier (B r) (BRet y)) z) f \<and>
    (\<forall>r. if r < P \<and> r \<noteq> x then waiting wire r f else bprocs f r = BRet z)"
proof -
  let ?p = "\<lambda>r. if r = x then BRet z else barrier (B r) (BRet y)"
  let ?loc = "\<lambda>r. (if r < P then ?p r else BRet z, [], [])"
  let ?cs = "filter (\<lambda>r. r \<noteq> x) [1..<P]"
  define R where "R r = recv_u32 (conn_fd (B r)) (\<lambda>total. recv_entries (conn_fd (B r)) (unat total) []
      (\<lambda>table. BRet y))" for r
  have P: "0 < P" and rank: "\<And>r. r < P \<Longrightarrow> bs_rank (B r) = int r" and size: "bs_world_size (B 0) = int P"
    and wire: "\<And>r. r \<in> {1..<P} \<Longrightarrow> wire r (conn_fd (B r)) = 0 \<and> wire 0 (peer_fds (B 0) ! r) = r \<and>
      r < length (peer_fds (B 0))"
    using wired by (auto simp: wired_def)
  have K: "\<exists>k. R r = BGet (conn_fd (B r)) k" for r unfolding R_def by (rule recv_u32_waits)
  have client: "barrier (B r) (BRet y) = put_bytes (conn_fd (B r)) (table_bytes []) (R r)" if "r \<in> {1..<P}" for r
    using that rank [of r] by (simp add: barrier_def exchange_def R_def send_u32_def table_bytes_def)
  let ?l1 = "\<lambda>r. if r \<in> set ?cs then (R r, table_bytes [], []) else ?loc r"
  have sent: "reach wire (star (?p 0) ?loc) (star (?p 0) ?l1)"
  proof (rule clients_all)
    show "reach wire (star p loc) (star p (loc(r := (R r, table_bytes [], []))))"
      if "r \<in> set ?cs" "loc r = (put_bytes (conn_fd (B r)) (table_bytes []) (R r), [], [])" for r p loc
      using client_put [where loc = loc, OF _ _ that(2)] wire [of r] that(1) by simp
  qed (use client in auto)
  show ?thesis
  proof (cases "x = 0")
    case True
    have "if r < P \<and> r \<noteq> x then waiting wire r (star (?p 0) ?l1) else bprocs (star (?p 0) ?l1) r = BRet z" for r
      using True wire [of r] K [of r]
      by (cases "r < P \<and> r \<noteq> x") (auto simp: bprocs_star intro!: client_waiting [where fd = "conn_fd (B r)"])
    with sent show ?thesis unfolding tcp_job_star [OF P] by blast
  next
    case False
    let ?after = "\<lambda>table. reflect_loop (B 0) [1..<P] table (BRet y)"
    let ?l2 = "\<lambda>r. if r \<in> set [1..<x] then (R r, [], []) else ?l1 r"
    have "[1..<P] = [1..<x] @ x # [Suc x..<P]"
      using upt_add_eq_append [of 1 x "P - x"] upt_conv_Cons [OF x] False x by simp
    then have start: "?p 0 = collect_loop (B 0) [1..<x] [] (\<lambda>table. collect_loop (B 0) (x # [Suc x..<P]) table ?after)"
      using False rank [of 0] P size by (simp add: barrier_def exchange_def Let_def collect_loop_append)
    let ?rest = "collect_loop (B 0) (x # [Suc x..<P]) ([] @ concat (map (\<lambda>_. []) [1..<x])) ?after"
    have "\<exists>k. ?rest = BGet (peer_fds (B 0) ! x) k"
      using wire [of x] x False by (simp add: with_peer_fd_def recv_u32_waits)
    then obtain k where k: "?rest = BGet (peer_fds (B 0) ! x) k" by blast
    have "reach wire (star (?p 0) ?l1) (star ?rest ?l2)"
      unfolding start by (rule collect_reach [OF wired, where d = "\<lambda>_. []"]) (use x in auto)
    then have "reach wire (star (?p 0) ?loc) (star (BGet (peer_fds (B 0) ! x) k) ?l2)" (is "reach _ _ ?f")
      unfolding k by (rule reach_trans [OF sent])
    moreover have "if r < P \<and> r \<noteq> x then waiting wire r ?f else bprocs ?f r = BRet z" for r
    proof (cases "r = 0")
      case True
      have "waiting wire 0 ?f" by (rule root_waiting [where x = x]) (use wire [of x] False x in auto)
      with True False P show ?thesis by simp
    next
      case False
      with wire [of r] K [of r] x show ?thesis
        by (cases "r < P \<and> r \<noteq> x") (auto simp: bprocs_star intro!: client_waiting [where fd = "conn_fd (B r)"])
    qed
    ultimately show ?thesis unfolding tcp_job_star [OF P] by blast
  qed
qed

section \<open>What an exchange can return\<close>

text \<open>Whatever bytes arrive, the code goes on with its continuation or throws.\<close>

lemma set_put_bytes [simp]: "set_bprog (put_bytes fd bs k) = set_bprog k"
  by (induction bs) simp_all

lemma set_get_bytes: "set_bprog (get_bytes fd n k) \<subseteq> (\<Union>bs. set_bprog (k bs))"
proof (induction n arbitrary: k)
  case (Suc n)
  have "set_bprog (get_bytes fd n (\<lambda>bs. k (b # bs))) \<subseteq> (\<Union>bs. set_bprog (k bs))" for b
    using Suc.IH [of "\<lambda>bs. k (b # bs)"] by blast
  then show ?case by auto
qed auto

lemma set_recv_u32: "set_bprog (recv_u32 fd k) \<subseteq> (\<Union>v. set_bprog (k v))"
  unfolding recv_u32_def by (rule order_trans [OF set_get_bytes]) blast

lemma set_recv_entries: "set_bprog (recv_entries fd n table k) \<subseteq> (\<Union>t. set_bprog (k t))"
proof (induction n arbitrary: table)
  case (Suc n)
  then show ?case
    unfolding recv_entries.simps recv_entry_def by (intro order_trans [OF set_get_bytes]) blast
qed auto

lemma set_collect_loop: "set_bprog (collect_loop b rs table k) \<subseteq> (\<Union>t. set_bprog (k t))"
proof (induction rs arbitrary: table)
  case (Cons r rs)
  have "set_bprog (recv_entries fd n table (\<lambda>table. collect_loop b rs table k)) \<subseteq> (\<Union>t. set_bprog (k t))" for fd n
    using Cons.IH by (intro order_trans [OF set_recv_entries]) blast
  then show ?case
    unfolding collect_loop.simps with_peer_fd_def by (auto dest!: subsetD [OF set_recv_u32])
qed auto

lemma set_reflect_loop: "set_bprog (reflect_loop b rs table k) \<subseteq> set_bprog k"
  by (induction rs) (auto simp: with_peer_fd_def send_table_put)

lemma set_exchange: "set_bprog (exchange b out k) \<subseteq> (\<Union>m. set_bprog (k m))"
  unfolding exchange_def Let_def send_table_put
  by (auto dest!: subsetD [OF set_collect_loop] subsetD [OF set_recv_u32] subsetD [OF set_reflect_loop] subsetD [OF set_recv_entries])

section \<open>Properties\<close>

text \<open>
  C5: when every rank of a connected job calls \<^verbatim>\<open>exchange\<close>, every interleaving of the ranks
  ends with every call returned and no byte left in a socket; rank \<open>q\<close> gets, for every rank
  \<open>s\<close>, exactly the information \<open>s\<close> addressed to \<open>q\<close>, and nothing else.
\<close>

theorem exchange_correct:
  assumes "wired wire P B" "P \<le> 2 ^ 31" "length (full_table P out) < 2 ^ 32"
    and "\<forall>r<P. distinct (map fst (out r)) \<and> (\<forall>e\<in>set (out r). entry_ok e \<and> qi_rank (snd e) = of_nat r)"
  shows "always_ends (bexec wire) (tcp_job P (\<lambda>r. exchange (B r) (out r) BRet) Map.empty)
    (\<lambda>f. (\<forall>q<P. bprocs f q = BRet (\<lambda>s. if 0 \<le> s \<and> s < int P then map_of (out (nat s)) (int q) else None)) \<and>
         chan f = (\<lambda>_ _. []))"
proof -
  have "inbox (int q) (full_table P out) = (\<lambda>s. if 0 \<le> s \<and> s < int P then map_of (out (nat s)) (int q) else None)" for q
    by (rule inbox_full_table) (use assms(2,4) in auto)
  moreover have "submissions_ok P out" using assms(3,4) by (simp add: submissions_ok_def)
  ultimately show ?thesis
    by (intro always_ends_mono [OF exchange_ends [OF assms(1)]]) (auto simp: tcp_job_def)
qed

text \<open>Two ranks that each submit one entry for the other.\<close>

definition sample_bootstrap :: "nat \<Rightarrow> nat \<Rightarrow> TcpBootstrap" where
  "sample_bootstrap P r = \<lparr>bs_rank = int r, bs_world_size = int P, conn_fd = if r = 0 then -1 else 4,
     listen_fd = if r = 0 then 3 else -1, peer_fds = if r = 0 then map (\<lambda>q. if q = 0 then -1 else 9 + int q) [0..<P] else []\<rparr>"

definition sample_wire :: "nat \<Rightarrow> int \<Rightarrow> nat" where
  "sample_wire r fd = (if r = 0 then nat (fd - 9) else 0)"

lemma sample_wired: "0 < P \<Longrightarrow> wired sample_wire P (sample_bootstrap P)"
  by (auto simp: wired_def sample_wire_def sample_bootstrap_def)

theorem exchange_correct_witness:
  "always_ends (bexec sample_wire)
     (tcp_job 2 (\<lambda>r. exchange (sample_bootstrap 2 r) [(1 - int r, sample_info\<lparr>qi_rank := of_nat r\<rparr>)] BRet) Map.empty)
     (\<lambda>f. bprocs f 1 = BRet [0 \<mapsto> sample_info\<lparr>qi_rank := 0\<rparr>])"
proof -
  let ?out = "\<lambda>r. [(1 - int r, sample_info\<lparr>qi_rank := of_nat r\<rparr>)]"
  have "(\<lambda>s. if 0 \<le> s \<and> s < int 2 then map_of (?out (nat s)) (int 1) else None) = [0 \<mapsto> sample_info\<lparr>qi_rank := 0\<rparr>]"
    by (auto simp: fun_eq_iff)
  moreover have "length (full_table 2 ?out) < 2 ^ 32" by (simp add: full_table_def)
  ultimately show ?thesis
    by (intro always_ends_mono [OF exchange_correct [OF sample_wired, of 2 ?out]])
      (auto simp: entry_ok_def info_wf_def sample_info_def)
qed

text \<open>
  C14: a barrier lets every rank through once all have called it, under every interleaving, and
  while one rank has not called it no other rank gets past, in any reachable state.
\<close>

theorem barrier_correct:
  assumes "wired wire P B"
  shows "always_ends (bexec wire) (tcp_job P (\<lambda>r. barrier (B r) (BRet y)) z) (\<lambda>f. \<forall>r<P. bprocs f r = BRet y) \<and>
    (\<forall>x<P. \<forall>ls t. run (bexec wire) ls (tcp_job P (\<lambda>r. if r = x then BRet z else barrier (B r) (BRet y)) z) = Some t \<longrightarrow>
      (\<forall>r<P. r \<noteq> x \<longrightarrow> (\<forall>v. bprocs t r \<noteq> BRet v)))"
proof (intro conjI allI impI)
  show "always_ends (bexec wire) (tcp_job P (\<lambda>r. barrier (B r) (BRet y)) z) (\<lambda>f. \<forall>r<P. bprocs f r = BRet y)"
    unfolding barrier_def
    by (rule always_ends_mono [OF exchange_ends [OF assms]])
      (auto simp: submissions_ok_def full_table_def tcp_job_def length_concat comp_def)
next
  fix x ls t r v
  assume x: "x < P" and r: "r < P" "r \<noteq> x"
    and t: "run (bexec wire) ls (tcp_job P (\<lambda>r. if r = x then BRet z else barrier (B r) (BRet y)) z) = Some t"
  obtain f ks where f: "run (bexec wire) ks (tcp_job P (\<lambda>r. if r = x then BRet z else barrier (B r) (BRet y)) z) = Some f"
    and waits: "\<And>r. if r < P \<and> r \<noteq> x then waiting wire r f else bprocs f r = BRet z"
    using barrier_blocks [OF assms x, of z y] unfolding reach_def by blast
  have "bexec wire q f = None" for q
    using waits [of q] by (auto simp: bexec_def waiting_def split: if_splits)
  then obtain ms where "run (bexec wire) ms t = Some f"
    using tcp.schedule_independent [OF TrueI f _ t] unfolding stuck_def by blast
  then show "bprocs t r \<noteq> BRet v"
    using returned_stays [of wire ms t f r v] waits [of r] r by (auto simp: waiting_def)
qed

theorem barrier_correct_witness:
  "always_ends (bexec sample_wire) (tcp_job 3 (\<lambda>r. barrier (sample_bootstrap 3 r) (BRet True)) False)
     (\<lambda>f. \<forall>r<3. bprocs f r = BRet True) \<and>
   (\<exists>t. run (bexec sample_wire) [1, 1, 1, 1, 0, 0, 0, 0]
        (tcp_job 3 (\<lambda>r. if r = 2 then BRet False else barrier (sample_bootstrap 3 r) (BRet True)) False) = Some t \<and>
      bprocs t 0 \<noteq> BRet True \<and> bprocs t 1 \<noteq> BRet True)"
proof -
  let ?job = "tcp_job 3 (\<lambda>r. if r = 2 then BRet False else barrier (sample_bootstrap 3 r) (BRet True)) False"
  have lt: "0 < (3::nat)" "1 < (3::nat)" "2 < (3::nat)" "(0::nat) \<noteq> 2" "(1::nat) \<noteq> 2" by simp_all
  have r0: "bprocs ?job 0 = collect_loop (sample_bootstrap 3 0) [1, 2] []
      (\<lambda>table. reflect_loop (sample_bootstrap 3 0) [1, 2] table (BRet True))"
    by (simp add: tcp_job_def barrier_def exchange_def sample_bootstrap_def Let_def upt_rec numeral_2_eq_2)
  have r1: "bprocs ?job 1 = put_bytes 4 (put_u32 0) (recv_u32 4 (\<lambda>total.
      recv_entries 4 (unat total) [] (\<lambda>table. BRet True)))"
    by (simp add: tcp_job_def barrier_def exchange_def sample_bootstrap_def send_u32_def)
  have c: "chan ?job = (\<lambda>_ _. [])" by (simp add: tcp_job_def)
  have "\<exists>t. run (bexec sample_wire) [1, 1, 1, 1, 0, 0, 0, 0] ?job = Some t"
    using r0 r1 c
    by (simp add: bexec_def put_u32_def recv_u32_def with_peer_fd_def sample_bootstrap_def sample_wire_def set_chan_def
        eval_nat_numeral)
  then obtain t where t: "run (bexec sample_wire) [1, 1, 1, 1, 0, 0, 0, 0] ?job = Some t" by blast
  note bar = barrier_correct [OF sample_wired [OF lt(1)], of True False]
  from conjunct2 [OF bar, rule_format, OF lt(3) t] lt
  have "bprocs t 0 \<noteq> BRet True" "bprocs t 1 \<noteq> BRet True" by blast+
  with conjunct1 [OF bar] t show ?thesis by blast
qed

end
