(* ===== verification/Rank_Process.thy ===== *)
theory Rank_Process
  imports Mesh Bootstrap
begin

text \<open>
  Whole rank processes. The main programs of the repository alternate between two kinds of work: calls on the bootstrap's
  sockets (the constructor of \<^verbatim>\<open>Communicator\<close>, barriers) and calls into the RDMA library (collectives), with
  looks at their own memory in between. \<open>mprog\<close> strings such phases together; a world runs the processes of all ranks,
  the network cards and the sockets under any interleaving. Steps of different ranks still commute, so a phase-by-phase
  schedule decides what every schedule does.
\<close>

section \<open>Programs and worlds\<close>

text \<open>
  A process returns an exit code, ends with an exception, loops forever on its own, runs a phase over its sockets whose result the rest
  depends on, runs a phase over the fabric, or inspects its memory.
\<close>

datatype 't mprog =
    Exit int
  | Fail error
  | Spin
  | Tcp "'t bprog" "'t \<Rightarrow> 't mprog"
  | Rdma rprog "'t mprog"
  | Inspect "mem \<Rightarrow> 't mprog"

record ('t, 'n) world =
  mprocs :: "nat \<Rightarrow> 't mprog"
  wmems :: "nat \<Rightarrow> mem"
  wnet :: 'n
  wchan :: "nat \<Rightarrow> nat \<Rightarrow> byte list"

text \<open>What the fabric and the sockets see of a process: the phase it is in.\<close>

fun rview :: "'t mprog \<Rightarrow> rprog" where
  "rview (Rdma p k) = p"
| "rview (Fail e) = Throw e"
| "rview _ = Return"

fun tview :: "'t mprog \<Rightarrow> 't bprog" where
  "tview (Tcp p k) = p"
| "tview _ = BThrow OutOfRange"

definition rjob :: "('t, 'n) world \<Rightarrow> 'n job" where
  "rjob w = \<lparr>procs = (\<lambda>r. rview (mprocs w r)), mems = wmems w, net = wnet w\<rparr>"

definition tjob :: "('t, 'n) world \<Rightarrow> 't bjob" where
  "tjob w = \<lparr>bprocs = (\<lambda>r. tview (mprocs w r)), chan = wchan w\<rparr>"

lemma job_sel [simp]:
  "procs (rjob w) r = rview (mprocs w r)" "mems (rjob w) = wmems w" "net (rjob w) = wnet w"
  "bprocs (tjob w) r = tview (mprocs w r)" "chan (tjob w) = wchan w"
  by (simp_all add: rjob_def tjob_def)

text \<open>The end of a phase, and an inspection: steps of the process alone.\<close>

fun switch :: "'t mprog \<Rightarrow> mem \<Rightarrow> 't mprog option" where
  "switch (Inspect f) m = Some (f m)"
| "switch (Tcp (BRet x) k) m = Some (k x)"
| "switch (Tcp (BThrow e) k) m = Some (Fail e)"
| "switch (Rdma Return k) m = Some k"
| "switch (Rdma (Throw e) k) m = Some (Fail e)"
| "switch _ m = None"

fun mexec :: "'n fabric \<Rightarrow> (nat \<Rightarrow> int \<Rightarrow> nat) \<Rightarrow> action \<Rightarrow> ('t, 'n) world \<Rightarrow> ('t, 'n) world option" where
  "mexec F wire (Run r) w =
     (case switch (mprocs w r) (wmems w r) of
        Some m \<Rightarrow> Some (w\<lparr>mprocs := (mprocs w)(r := m)\<rparr>)
      | None \<Rightarrow> (case mprocs w r of
          Tcp p k \<Rightarrow> map_option (\<lambda>b. w\<lparr>mprocs := (mprocs w)(r := Tcp (bprocs b r) k), wchan := chan b\<rparr>)
            (bexec wire r (tjob w))
        | Rdma p k \<Rightarrow> map_option (\<lambda>j. w\<lparr>mprocs := (mprocs w)(r := Rdma (procs j r) k), wmems := mems j, wnet := net j\<rparr>)
            (exec F (Run r) (rjob w))
        | _ \<Rightarrow> None))"
| "mexec F wire (Nic p q) w =
     map_option (\<lambda>j. w\<lparr>wmems := mems j, wnet := net j\<rparr>) (exec F (Nic p q) (rjob w))"

section \<open>Discipline of processes\<close>

text \<open>
  Every fabric phase a process may still enter is disciplined. \<open>set_bprog p\<close> holds the values that \<open>p\<close> may return, over all bytes
  it may receive.
\<close>

primrec mdisc :: "'t mprog \<Rightarrow> bool" where
  "mdisc (Exit c) = True"
| "mdisc (Fail e) = True"
| "mdisc Spin = True"
| "mdisc (Tcp p k) = (\<forall>x\<in>set_bprog p. mdisc (k x))"
| "mdisc (Rdma p k) = (disc p None None \<and> mdisc k)"
| "mdisc (Inspect f) = (\<forall>m. mdisc (f m))"

fun mrest :: "'t mprog \<Rightarrow> bool" where
  "mrest (Rdma p k) = mdisc k"
| "mrest m = mdisc m"

definition mdisciplined :: "('t, nat \<Rightarrow> endpoint) world \<Rightarrow> bool" where
  "mdisciplined w \<longleftrightarrow> disciplined (rjob w) \<and> (\<forall>r. mrest (mprocs w r))"

section \<open>Steps\<close>

text \<open>A step is a switch, a socket step, a fabric step of a rank, or a move of the hardware.\<close>

lemma mexec_cases:
  assumes "mexec F wire l w = Some w'"
  obtains (Switch) r m where "l = Run r" "switch (mprocs w r) (wmems w r) = Some m" "w' = w\<lparr>mprocs := (mprocs w)(r := m)\<rparr>"
  | (Socket) r p k b where "l = Run r" "mprocs w r = Tcp p k" "bexec wire r (tjob w) = Some b"
      "w' = w\<lparr>mprocs := (mprocs w)(r := Tcp (bprocs b r) k), wchan := chan b\<rparr>"
  | (Fabric) r p k j where "l = Run r" "mprocs w r = Rdma p k" "exec F (Run r) (rjob w) = Some j"
      "w' = w\<lparr>mprocs := (mprocs w)(r := Rdma (procs j r) k), wmems := mems j, wnet := net j\<rparr>"
  | (Move) p q j where "l = Nic p q" "exec F (Nic p q) (rjob w) = Some j" "w' = w\<lparr>wmems := mems j, wnet := net j\<rparr>"
proof (cases l)
  case (Run r)
  with assms show thesis
  proof (cases "switch (mprocs w r) (wmems w r)")
    case None
    with assms Run show thesis by (cases "mprocs w r") (auto intro: that(2,3))
  qed (auto intro: that(1))
next
  case (Nic p q)
  with assms show thesis by (auto intro: that(4))
qed

lemma switch_None:
  "bexec wire r (tjob w) = Some b \<Longrightarrow> mprocs w r = Tcp p k \<Longrightarrow> switch (Tcp p k) m = None"
  "exec F (Run r) (rjob w) = Some j \<Longrightarrow> mprocs w r = Rdma p' k' \<Longrightarrow> switch (Rdma p' k') m = None"
  by (cases p; simp add: bexec_def) (cases p'; simp add: exec.simps)

lemma bexec_frame: "bexec wire r s = Some t \<Longrightarrow> q \<noteq> r \<Longrightarrow> bprocs t q = bprocs s q"
  by (auto simp: bexec_def split: bprog.splits list.splits)

lemma bexec_results: "bexec wire r s = Some t \<Longrightarrow> set_bprog (bprocs t r) \<subseteq> set_bprog (bprocs s r)"
  by (auto simp: bexec_def split: bprog.splits list.splits)

lemma exec_frame:
  "exec rc_fabric (Run r) s = Some t \<Longrightarrow> q \<noteq> r \<Longrightarrow> procs t q = procs s q \<and> mems t q = mems s q \<and> net t q = net s q"
  by (auto simp: exec_Run upd_def)

lemma exec_Nic_procs: "exec rc_fabric (Nic p q) s = Some t \<Longrightarrow> procs t = procs s"
  by (auto simp: exec_Nic)

lemma bexec_local:
  "tview (mprocs w r) = tview (mprocs w' r) \<Longrightarrow> wchan w = wchan w' \<Longrightarrow> bexec wire r (tjob w) = Some b \<Longrightarrow>
   \<exists>b'. bexec wire r (tjob w') = Some b' \<and> bprocs b' r = bprocs b r \<and> chan b' = chan b"
  by (auto simp: bexec_def split: bprog.splits list.splits)

lemma exec_local:
  "rview (mprocs w r) = rview (mprocs w' r) \<Longrightarrow> wmems w = wmems w' \<Longrightarrow> wnet w = wnet w' \<Longrightarrow>
   exec rc_fabric (Run r) (rjob w) = Some j \<Longrightarrow>
   \<exists>j'. exec rc_fabric (Run r) (rjob w') = Some j' \<and> procs j' r = procs j r \<and> mems j' = mems j \<and> net j' = net j"
  by (auto simp: exec_Run view_def upd_def)

lemma exec_Nic_local:
  "wmems w = wmems w' \<Longrightarrow> wnet w = wnet w' \<Longrightarrow> exec rc_fabric (Nic p q) (rjob w) = Some j \<Longrightarrow>
   \<exists>j'. exec rc_fabric (Nic p q) (rjob w') = Some j' \<and> mems j' = mems j \<and> net j' = net j"
  by (auto simp: exec_Nic)

text \<open>The jobs after a step.\<close>

lemma rjob_Socket:
  "mprocs w r = Tcp p k \<Longrightarrow> rjob (w\<lparr>mprocs := (mprocs w)(r := Tcp p' k), wchan := c\<rparr>) = rjob w"
  by (auto simp: rjob_def fun_eq_iff)

lemma tjob_Socket:
  "mprocs w r = Tcp p k \<Longrightarrow> bexec wire r (tjob w) = Some b \<Longrightarrow>
   tjob (w\<lparr>mprocs := (mprocs w)(r := Tcp (bprocs b r) k), wchan := chan b\<rparr>) = b"
  by (cases b) (auto simp: tjob_def fun_eq_iff dest: bexec_frame)

lemma rjob_Fabric:
  "mprocs w r = Rdma p k \<Longrightarrow> exec rc_fabric (Run r) (rjob w) = Some j \<Longrightarrow>
   rjob (w\<lparr>mprocs := (mprocs w)(r := Rdma (procs j r) k), wmems := mems j, wnet := net j\<rparr>) = j"
  by (cases j) (auto simp: rjob_def fun_eq_iff dest: exec_frame)

lemma tjob_Fabric:
  "mprocs w r = Rdma p k \<Longrightarrow> tjob (w\<lparr>mprocs := (mprocs w)(r := Rdma p' k), wmems := m, wnet := n\<rparr>) = tjob w"
  by (auto simp: tjob_def fun_eq_iff)

lemma rjob_Move:
  "exec rc_fabric (Nic p q) (rjob w) = Some j \<Longrightarrow> rjob (w\<lparr>wmems := mems j, wnet := net j\<rparr>) = j"
  by (cases j) (auto simp: rjob_def dest: exec_Nic_procs)

section \<open>Preservation of the discipline\<close>

lemma idle_views: "rank_ok Return e \<longleftrightarrow> send_view e None \<and> recv_view e None"
  by (auto simp: rank_ok_def)

lemma switch_ok:
  assumes "switch p m = Some p'" "rank_ok (rview p) e" "mrest p"
  shows "rank_ok (rview p') e" "mrest p'"
proof -
  have fail: "rank_ok (Throw y) e" if "rank_ok Return e" for y
    using that by (auto simp: idle_views intro!: rank_okI [where s = None and v = None])
  have idle: "rank_ok (rview x) e" if "rank_ok Return e" "mdisc x" for x :: "'t mprog"
    using that fail by (cases x) (auto simp: idle_views intro!: rank_okI [where s = None and v = None])
  have rest: "mdisc x \<Longrightarrow> mrest x" for x :: "'t mprog" by (cases x) simp_all
  show "rank_ok (rview p') e" "mrest p'"
    using assms idle fail rest by (cases rule: switch.cases [of "(p, m)"]; auto)+
qed

lemma mexec_disciplined:
  assumes w: "mdisciplined w" and step: "mexec rc_fabric wire l w = Some w'"
  shows "mdisciplined w'"
  using step
proof (cases rule: mexec_cases)
  case (Switch r m)
  have "rank_ok (rview (mprocs w r)) (wnet w r)" "mrest (mprocs w r)"
    using w by (auto simp: mdisciplined_def disciplined_def)
  from switch_ok [OF Switch(2) this] w show ?thesis
    by (auto simp: Switch(3) mdisciplined_def disciplined_def)
next
  case (Socket r p k b)
  have "set_bprog (bprocs b r) \<subseteq> set_bprog p" using bexec_results [OF Socket(3)] Socket(2) by simp
  moreover have "mrest (Tcp p k)" using w Socket(2) by (metis mdisciplined_def)
  ultimately show ?thesis using w Socket by (auto simp: mdisciplined_def rjob_Socket)
next
  case (Fabric r p k j)
  have "disciplined j" using w exec_disciplined [OF _ Fabric(3)] by (simp add: mdisciplined_def)
  with w Fabric show ?thesis by (auto simp: mdisciplined_def rjob_Fabric dest: spec [of _ r])
next
  case (Move p q j)
  have "disciplined j" using w exec_disciplined [OF _ Move(2)] by (simp add: mdisciplined_def)
  with w Move show ?thesis by (auto simp: mdisciplined_def rjob_Move)
qed

section \<open>Steps commute\<close>

lemma move_keeps_idle:
  assumes "exec rc_fabric (Nic p q) (rjob w) = Some j" "rank_ok Return (wnet w r)"
  shows "mems j r = wmems w r"
  using assms by (auto simp: exec_Nic_eq_Some nic_job_def idle_views)

lemma switch_other:
  assumes "switch p m = Some p'" "\<nexists>f. p = Inspect f"
  shows "switch p m' = Some p'"
  using assms by (cases rule: switch.cases [of "(p, m)"]) auto

text \<open>A switch of one rank and any other step.\<close>

lemma switch_commutes:
  assumes w: "mdisciplined w" and sw: "switch (mprocs w r) (wmems w r) = Some m"
    and step: "mexec rc_fabric wire l w = Some u" and ne: "l \<noteq> Run r"
  shows "\<exists>v. mexec rc_fabric wire l (w\<lparr>mprocs := (mprocs w)(r := m)\<rparr>) = Some v \<and> mexec rc_fabric wire (Run r) u = Some v"
proof -
  let ?t = "w\<lparr>mprocs := (mprocs w)(r := m)\<rparr>"
  have own: "rank_ok Return (wnet w r)" if "mprocs w r = Inspect f" for f
    using w that unfolding mdisciplined_def disciplined_def by (metis job_sel(1,3) rview.simps(6))
  show ?thesis
    using step
  proof (cases rule: mexec_cases)
    case (Switch r' m')
    with ne sw show ?thesis by (auto simp: fun_upd_twist)
  next
    case (Socket r' p k b)
    have rr: "r' \<noteq> r" using ne Socket(1) by auto
    obtain b' where "bexec wire r' (tjob ?t) = Some b'" "bprocs b' r' = bprocs b r'" "chan b' = chan b"
      using bexec_local [OF _ _ Socket(3), of ?t] rr by auto
    with Socket sw rr show ?thesis
      using switch_None(1) [OF Socket(3,2)] by (auto simp: fun_upd_twist)
  next
    case (Fabric r' p k j)
    have rr: "r' \<noteq> r" using ne Fabric(1) by auto
    obtain j' where "exec rc_fabric (Run r') (rjob ?t) = Some j'" "procs j' r' = procs j r'" "mems j' = mems j" "net j' = net j"
      using exec_local [OF _ _ _ Fabric(3), of ?t] rr by auto
    moreover have "mems j r = wmems w r" using exec_frame [OF Fabric(3), of r] rr by simp
    ultimately show ?thesis
      using Fabric sw rr switch_None(2) [OF Fabric(3,2)] by (auto simp: fun_upd_twist)
  next
    case (Move p q j)
    obtain j' where "exec rc_fabric (Nic p q) (rjob ?t) = Some j'" "mems j' = mems j" "net j' = net j"
      using exec_Nic_local [OF _ _ Move(2), of ?t] by auto
    moreover have "switch (mprocs w r) (mems j r) = Some m"
    proof (cases "\<exists>f. mprocs w r = Inspect f")
      case True
      then show ?thesis using sw move_keeps_idle [OF Move(2)] own by auto
    qed (use switch_other [OF sw] in blast)
    ultimately show ?thesis using Move by auto
  qed
qed

lemma socket_commutes:
  assumes "mprocs w a = Tcp p k" "bexec wire a (tjob w) = Some b"
    and t: "t = w\<lparr>mprocs := (mprocs w)(a := Tcp (bprocs b a) k), wchan := chan b\<rparr>"
    and step: "mexec rc_fabric wire l w = Some u" and ne: "l \<noteq> Run a" and ns: "\<And>r. l = Run r \<Longrightarrow> switch (mprocs w r) (wmems w r) = None"
  shows "\<exists>v. mexec rc_fabric wire l t = Some v \<and> mexec rc_fabric wire (Run a) u = Some v"
  using step
proof (cases rule: mexec_cases)
  case (Switch r m)
  with ns show ?thesis by simp
next
  case (Socket r p' k' b')
  have ar: "a \<noteq> r" using ne Socket(1) by auto
  obtain c where c: "bexec wire r b = Some c" "bexec wire a b' = Some c"
    using bexec_diamond [OF assms(2) Socket(3) ar] by blast
  have tj: "tjob t = b" "tjob u = b'"
    using tjob_Socket [OF assms(1,2)] tjob_Socket [OF Socket(2,3)] by (simp_all add: t Socket(4))
  have "bprocs c a = bprocs b a" "bprocs c r = bprocs b' r"
    using bexec_frame [OF c(1), of a] bexec_frame [OF c(2), of r] ar by auto
  then show ?thesis
    using c ar Socket assms(1) switch_None(1) [OF assms(2,1)] switch_None(1) [OF Socket(3,2)] tj
      switch_None(1) [of wire r t c] switch_None(1) [of wire a u c]
    by (auto simp: t fun_upd_twist)
next
  case (Fabric r p' k' j)
  have ar: "a \<noteq> r" using ne Fabric(1) by auto
  show ?thesis
    using ar Fabric assms(1,2) switch_None(1) [OF assms(2,1)] switch_None(2) [OF Fabric(3,2)]
    by (auto simp: t fun_upd_twist rjob_Socket tjob_Fabric)
next
  case (Move x y j)
  have "tjob u = tjob w" by (simp add: Move(3) tjob_def)
  with Move assms(1,2) switch_None(1) [OF assms(2,1)] show ?thesis
    by (auto simp: t rjob_Socket)
qed

text \<open>Steps of the fabric: of a rank inside a collective, or of the hardware.\<close>

fun fabric_step :: "action \<Rightarrow> ('t, 'n) world \<Rightarrow> bool" where
  "fabric_step (Run r) w \<longleftrightarrow> (\<exists>p k. mprocs w r = Rdma p k)"
| "fabric_step (Nic p q) w \<longleftrightarrow> True"

fun set_rdma :: "rprog \<Rightarrow> 't mprog \<Rightarrow> 't mprog" where
  "set_rdma p (Rdma _ k) = Rdma p k"
| "set_rdma p m = m"

fun after_step :: "action \<Rightarrow> 'n job \<Rightarrow> ('t, 'n) world \<Rightarrow> ('t, 'n) world" where
  "after_step (Run r) j w = w\<lparr>mprocs := (mprocs w)(r := set_rdma (procs j r) (mprocs w r)), wmems := mems j, wnet := net j\<rparr>"
| "after_step (Nic p q) j w = w\<lparr>wmems := mems j, wnet := net j\<rparr>"

lemma mexec_fabric:
  assumes "exec rc_fabric l (rjob w) = Some j" "fabric_step l w"
  shows "mexec rc_fabric wire l w = Some (after_step l j w)" "rjob (after_step l j w) = j"
proof -
  show "mexec rc_fabric wire l w = Some (after_step l j w)"
    using assms switch_None(2) [of rc_fabric _ w j] by (cases l) auto
  show "rjob (after_step l j w) = j"
    using assms rjob_Fabric rjob_Move by (cases l) fastforce+
qed

lemma fabric_commutes:
  assumes w: "mdisciplined w" and fab: "fabric_step a w" "fabric_step b w" and ne: "a \<noteq> b"
    and ja: "exec rc_fabric a (rjob w) = Some ja" and jb: "exec rc_fabric b (rjob w) = Some jb"
  shows "\<exists>v. mexec rc_fabric wire b (after_step a ja w) = Some v \<and> mexec rc_fabric wire a (after_step b jb w) = Some v"
proof -
  have "disciplined (rjob w)" using w by (simp add: mdisciplined_def)
  then obtain j where j: "exec rc_fabric b ja = Some j" "exec rc_fabric a jb = Some j"
    using rc.diamond [OF _ ja jb ne] by blast
  have "fabric_step b (after_step a ja w)" "fabric_step a (after_step b jb w)"
    using fab ne by (cases a; cases b; auto)+
  moreover have "after_step b j (after_step a ja w) = after_step a j (after_step b jb w)"
  proof (cases a; cases b)
    fix r q assume l: "a = Run r" "b = Run q"
    then have "procs j r = procs ja r" "procs j q = procs jb q"
      using exec_frame [of q ja j r] exec_frame [of r jb j q] j ne by auto
    with l ne show ?thesis by (auto simp: fun_upd_twist)
  next
    fix r p q assume l: "a = Run r" "b = Nic p q"
    then have "procs j r = procs ja r" using exec_Nic_procs [of p q ja j] j by simp
    with l show ?thesis by simp
  next
    fix r p q assume l: "a = Nic p q" "b = Run r"
    then have "procs j r = procs jb r" using exec_Nic_procs [of p q jb j] j by simp
    with l show ?thesis by simp
  qed simp
  ultimately show ?thesis
    using mexec_fabric [OF ja fab(1)] mexec_fabric [OF jb fab(2)] mexec_fabric(1) [of b "after_step a ja w" j wire]
      mexec_fabric(1) [of a "after_step b jb w" j wire] j by simp
qed

text \<open>A step is a switch, a socket step, or a step of the fabric.\<close>

lemma mexec_kinds:
  assumes "mexec rc_fabric wire l w = Some w'"
  obtains (Switch) r m where "l = Run r" "switch (mprocs w r) (wmems w r) = Some m" "w' = w\<lparr>mprocs := (mprocs w)(r := m)\<rparr>"
  | (Socket) r p k b where "l = Run r" "mprocs w r = Tcp p k" "bexec wire r (tjob w) = Some b"
      "w' = w\<lparr>mprocs := (mprocs w)(r := Tcp (bprocs b r) k), wchan := chan b\<rparr>"
  | (Fab) j where "exec rc_fabric l (rjob w) = Some j" "fabric_step l w" "w' = after_step l j w"
  using assms by (cases rule: mexec_cases) (auto intro: that)

lemma mexec_diamond:
  assumes w: "mdisciplined w" and t: "mexec rc_fabric wire a w = Some t" and u: "mexec rc_fabric wire b w = Some u" and ne: "a \<noteq> b"
  shows "\<exists>v. mexec rc_fabric wire b t = Some v \<and> mexec rc_fabric wire a u = Some v"
  using t
proof (cases rule: mexec_kinds)
  case (Switch r m)
  with switch_commutes [OF w Switch(2) u] ne show ?thesis by auto
next
  case a: (Socket r p k c)
  have a_ne: "b \<noteq> Run r" using ne a(1) by simp
  show ?thesis
    using u
  proof (cases rule: mexec_kinds)
    case (Switch q m)
    with switch_commutes [OF w Switch(2) t] ne show ?thesis by auto
  next
    case (Socket q p' k' c')
    then have "switch (mprocs w q) (wmems w q) = None" using switch_None(1) by auto
    with Socket(1) show ?thesis using socket_commutes [OF a(2,3,4) u a_ne] a(1) by auto
  next
    case (Fab j)
    then have "\<And>q. b = Run q \<Longrightarrow> switch (mprocs w q) (wmems w q) = None" using switch_None(2) [of rc_fabric] by auto
    then show ?thesis using socket_commutes [OF a(2,3,4) u a_ne] a(1) by auto
  qed
next
  case a: (Fab j)
  show ?thesis
    using u
  proof (cases rule: mexec_kinds)
    case (Switch q m)
    with switch_commutes [OF w Switch(2) t] ne show ?thesis by auto
  next
    case (Socket q p' k' c')
    have "\<And>r. a = Run r \<Longrightarrow> switch (mprocs w r) (wmems w r) = None" using a switch_None(2) [of rc_fabric] by auto
    then show ?thesis using socket_commutes [OF Socket(2,3,4) t] ne Socket(1) by auto
  next
    case (Fab j')
    then show ?thesis using fabric_commutes [OF w a(2) Fab(2) ne a(1) Fab(1)] a(3) Fab(3) by simp
  qed
qed

interpretation ranks_system: diamond_system "mexec rc_fabric wire" mdisciplined for wire
proof
  fix s :: "('t, nat \<Rightarrow> endpoint) world" and l t
  assume "mdisciplined s" "mexec rc_fabric wire l s = Some t"
  then show "mdisciplined t" by (rule mexec_disciplined)
next
  fix s :: "('t, nat \<Rightarrow> endpoint) world" and a b t u
  assume "mdisciplined s" "mexec rc_fabric wire a s = Some t" "mexec rc_fabric wire b s = Some u" "a \<noteq> b"
  then show "\<exists>v. mexec rc_fabric wire b t = Some v \<and> mexec rc_fabric wire a u = Some v" by (rule mexec_diamond)
qed

section \<open>Any fabric that keeps the contract\<close>

definition abs_world :: "('n \<Rightarrow> 'm) \<Rightarrow> ('t, 'n) world \<Rightarrow> ('t, 'm) world" where
  "abs_world \<alpha> w = \<lparr>mprocs = mprocs w, wmems = wmems w, wnet = \<alpha> (wnet w), wchan = wchan w\<rparr>"

lemma abs_world_sel [simp]:
  "mprocs (abs_world \<alpha> w) = mprocs w" "wmems (abs_world \<alpha> w) = wmems w" "wnet (abs_world \<alpha> w) = \<alpha> (wnet w)"
  "wchan (abs_world \<alpha> w) = wchan w" "tjob (abs_world \<alpha> w) = tjob w" "rjob (abs_world \<alpha> w) = abs_job \<alpha> (rjob w)"
  by (simp_all add: abs_world_def tjob_def rjob_def abs_job_def)

lemma abs_world_upd:
  "abs_world \<alpha> (w\<lparr>mprocs := p\<rparr>) = (abs_world \<alpha> w)\<lparr>mprocs := p\<rparr>"
  "abs_world \<alpha> (w\<lparr>mprocs := p, wchan := c\<rparr>) = (abs_world \<alpha> w)\<lparr>mprocs := p, wchan := c\<rparr>"
  "abs_world \<alpha> (w\<lparr>mprocs := p, wmems := m, wnet := n\<rparr>) = (abs_world \<alpha> w)\<lparr>mprocs := p, wmems := m, wnet := \<alpha> n\<rparr>"
  "abs_world \<alpha> (w\<lparr>wmems := m, wnet := n\<rparr>) = (abs_world \<alpha> w)\<lparr>wmems := m, wnet := \<alpha> n\<rparr>"
  by (simp_all add: abs_world_def)

sublocale rc_contract \<subseteq> whole: abstraction "mexec F wire" "mexec rc_fabric wire" "abs_world \<alpha>" for wire
proof
  fix a and w :: "('t, 'n) world"
  show "mexec rc_fabric wire a (abs_world \<alpha> w) = map_option (abs_world \<alpha>) (mexec F wire a w)"
    by (cases a) (auto simp: exec_abs option.map_comp comp_def abs_world_upd simp del: exec.simps split: option.splits mprog.splits)
qed

context rc_contract
begin

lemmas world_ends_abs = whole.always_ends_abs

end

section \<open>Phases of all ranks\<close>

text \<open>A world of \<open>P\<close> ranks, rank \<open>r\<close> running \<open>m r\<close>; the others have returned. Between phases the sockets are empty.\<close>

definition mranks :: "nat \<Rightarrow> (nat \<Rightarrow> 't mprog) \<Rightarrow> nat \<Rightarrow> 't mprog" where
  "mranks P m r = (if r < P then m r else Exit 0)"

lemma mranks_simps [simp]: "r < P \<Longrightarrow> mranks P m r = m r" "P \<le> r \<Longrightarrow> mranks P m r = Exit 0"
  by (simp_all add: mranks_def)

definition mstage ::
    "('t, nat \<Rightarrow> endpoint) world \<Rightarrow> nat \<Rightarrow> (nat \<Rightarrow> 't mprog) \<Rightarrow> (nat \<Rightarrow> mem) \<Rightarrow> (nat \<Rightarrow> endpoint) \<Rightarrow> bool" where
  "mstage w P m M E \<longleftrightarrow> mprocs w = mranks P m \<and> wmems w = M \<and> wnet w = E \<and> wchan w = (\<lambda>_ _. [])"

definition mreach :: "(nat \<Rightarrow> int \<Rightarrow> nat) \<Rightarrow> ('t, nat \<Rightarrow> endpoint) world \<Rightarrow> ('t, nat \<Rightarrow> endpoint) world \<Rightarrow> bool" where
  "mreach wire w w' \<longleftrightarrow> (\<exists>as. run (mexec rc_fabric wire) as w = Some w')"

lemma mreach_refl [simp]: "mreach wire w w"
  unfolding mreach_def by (rule exI [of _ "[]"]) simp

lemma mreach_step: "mexec rc_fabric wire l w = Some w' \<Longrightarrow> mreach wire w' w'' \<Longrightarrow> mreach wire w w''"
  unfolding mreach_def by (metis option.simps(5) run.simps(2))

lemma mreach_trans [trans]: "mreach wire w w' \<Longrightarrow> mreach wire w' w'' \<Longrightarrow> mreach wire w w''"
  unfolding mreach_def by (metis run_appendI)

text \<open>Every rank switches to what comes next.\<close>

lemma switch_all:
  assumes "\<And>r. r < P \<Longrightarrow> switch (m r) (M r) = Some (m' r)"
    and "mprocs w = mranks P m" "wmems w = M"
  shows "mreach wire w (w\<lparr>mprocs := mranks P m'\<rparr>)"
proof -
  have "mreach wire w (w\<lparr>mprocs := (\<lambda>r. if r < n then m' r else mranks P m r)\<rparr>)" if "n \<le> P" for n
    using that
  proof (induction n)
    case 0
    then show ?case using assms(2) by (simp flip: assms(2))
  next
    case (Suc n)
    let ?v = "w\<lparr>mprocs := (\<lambda>r. if r < n then m' r else mranks P m r)\<rparr>"
    have "(\<lambda>r. if r < n then m' r else mranks P m r)(n := m' n) = (\<lambda>r. if r < Suc n then m' r else mranks P m r)"
      by (auto simp: fun_eq_iff less_Suc_eq)
    then have "mexec rc_fabric wire (Run n) ?v = Some (w\<lparr>mprocs := (\<lambda>r. if r < Suc n then m' r else mranks P m r)\<rparr>)"
      using assms(1) [of n] Suc.prems by (simp add: assms(3))
    from mreach_trans [OF Suc.IH mreach_step [OF this mreach_refl]] Suc.prems show ?case by simp
  qed
  moreover have "(\<lambda>r. if r < P then m' r else mranks P m r) = mranks P m'" by (auto simp: mranks_def)
  ultimately show ?thesis by (metis order_refl)
qed

text \<open>A phase over the fabric.\<close>

definition in_rdma :: "nat \<Rightarrow> (nat \<Rightarrow> 't mprog) \<Rightarrow> ('t, 'n) world \<Rightarrow> bool" where
  "in_rdma P k w \<longleftrightarrow> (\<forall>r. if r < P then \<exists>p. mprocs w r = Rdma p (k r) else mprocs w r = Exit 0)"

lemma lift_rdma:
  "run (exec rc_fabric) as (rjob w) = Some j \<Longrightarrow> in_rdma P k w \<Longrightarrow>
   \<exists>w'. run (mexec rc_fabric wire) as w = Some w' \<and> rjob w' = j \<and> in_rdma P k w' \<and> wchan w' = wchan w"
proof (induction as arbitrary: w)
  case (Cons a as)
  then obtain j1 where j1: "exec rc_fabric a (rjob w) = Some j1" "run (exec rc_fabric) as j1 = Some j"
    by (auto split: option.splits)
  have fab: "fabric_step a w"
  proof (cases a)
    case (Run r)
    then have "rview (mprocs w r) \<noteq> Return" using j1(1) by (auto simp: exec.simps)
    with Run Cons.prems(2) show ?thesis by (auto simp: in_rdma_def dest: spec [of _ r] split: if_splits)
  qed simp
  have ch: "wchan (after_step a j1 w) = wchan w" by (cases a) simp_all
  have "in_rdma P k (after_step a j1 w)"
    unfolding in_rdma_def
  proof
    fix r show "if r < P then \<exists>p. mprocs (after_step a j1 w) r = Rdma p (k r) else mprocs (after_step a j1 w) r = Exit 0"
      using Cons.prems(2) [unfolded in_rdma_def, rule_format, of r] by (cases a) auto
  qed
  with Cons.IH [of "after_step a j1 w"] mexec_fabric(1) [OF j1(1) fab, of wire] mexec_fabric(2) [OF j1(1) fab] j1(2) ch show ?case by auto
qed simp

lemma phase_rdma:
  assumes w: "mstage w P (\<lambda>r. Rdma (p r) (k r)) M E"
    and one: "\<And>u. stage u (ranks P p) M E \<Longrightarrow>
      \<exists>as u' M'. run (exec rc_fabric) as u = Some u' \<and> stage u' (ranks P (\<lambda>_. Return)) M' E \<and> Q M'"
  shows "\<exists>w' M'. mreach wire w w' \<and> mstage w' P k M' E \<and> Q M'"
proof -
  have "stage (rjob w) (ranks P p) M E"
    using w by (auto simp: mstage_def stage_def view_def mranks_def ranks_def)
  from one [OF this] obtain as u' M' where u': "run (exec rc_fabric) as (rjob w) = Some u'"
    "stage u' (ranks P (\<lambda>_. Return)) M' E" "Q M'" by blast
  have "in_rdma P k w" using w by (auto simp: in_rdma_def mstage_def)
  from lift_rdma [OF u'(1) this, of wire] obtain v where v: "run (mexec rc_fabric wire) as w = Some v" "rjob v = u'"
    "in_rdma P k v" "wchan v = (\<lambda>_ _. [])" using w by (auto simp: mstage_def)
  have views: "rview (mprocs v r) = Return" "wmems v r = M' r" "wnet v r = E r" for r
    using u'(2) v(2) by (auto simp: stage_def view_def ranks_def)
  have "mprocs v = mranks P (\<lambda>r. Rdma Return (k r))"
  proof
    fix r show "mprocs v r = mranks P (\<lambda>r. Rdma Return (k r)) r"
      using v(3) [unfolded in_rdma_def, rule_format, of r] views(1) [of r] by (cases "r < P") auto
  qed
  from switch_all [OF _ this refl, of k wire] have "mreach wire v (v\<lparr>mprocs := mranks P k\<rparr>)" by simp
  moreover have "mreach wire w v" using v(1) unfolding mreach_def by blast
  moreover have "mstage (v\<lparr>mprocs := mranks P k\<rparr>) P k M' E"
    using v(4) views(2,3) by (auto simp: mstage_def)
  ultimately show ?thesis using u'(3) mreach_trans by blast
qed

text \<open>A phase over the sockets.\<close>

definition in_tcp :: "nat \<Rightarrow> (nat \<Rightarrow> 't \<Rightarrow> 't mprog) \<Rightarrow> 't bjob \<Rightarrow> ('t, 'n) world \<Rightarrow> bool" where
  "in_tcp P k b w \<longleftrightarrow> wchan w = chan b \<and>
     (\<forall>r. if r < P then mprocs w r = Tcp (bprocs b r) (k r) else mprocs w r = Exit 0 \<and> (\<exists>z. bprocs b r = BRet z))"

lemma lift_tcp:
  "run (bexec wire) ls b = Some c \<Longrightarrow> in_tcp P k b w \<Longrightarrow>
   \<exists>w'. mreach wire w w' \<and> in_tcp P k c w' \<and> wmems w' = wmems w \<and> wnet w' = wnet w"
proof (induction ls arbitrary: b w)
  case Nil
  then show ?case by (auto intro: exI [of _ w])
next
  case (Cons r ls)
  then obtain b1 where b1: "bexec wire r b = Some b1" "run (bexec wire) ls b1 = Some c"
    by (auto split: option.splits)
  have r: "r < P" using Cons.prems(2) b1(1) by (auto simp: in_tcp_def bexec_def dest!: spec [of _ r] split: if_splits)
  then have proc: "mprocs w r = Tcp (bprocs b r) (k r)" using Cons.prems(2) by (auto simp: in_tcp_def)
  obtain b' where b': "bexec wire r (tjob w) = Some b'" "bprocs b' r = bprocs b1 r" "chan b' = chan b1"
    using b1(1) proc Cons.prems(2) by (auto simp: bexec_def in_tcp_def split: bprog.splits list.splits)
  let ?w = "w\<lparr>mprocs := (mprocs w)(r := Tcp (bprocs b1 r) (k r)), wchan := chan b1\<rparr>"
  have "mexec rc_fabric wire (Run r) w = Some ?w"
    using b' proc switch_None(1) [OF b'(1) proc] by simp
  moreover have "in_tcp P k b1 ?w"
    using Cons.prems(2) r bexec_frame [OF b1(1)] by (auto simp: in_tcp_def)
  ultimately show ?case using Cons.IH [OF b1(2), of ?w] mreach_step by fastforce
qed

lemma phase_tcp:
  assumes w: "mstage w P (\<lambda>r. Tcp (p r) (k r)) M E"
    and one: "reach wire (tcp_job P p z) (tcp_job P (\<lambda>r. BRet (x r)) z)"
  shows "\<exists>w'. mreach wire w w' \<and> mstage w' P (\<lambda>r. k r (x r)) M E"
proof -
  obtain ls where "run (bexec wire) ls (tcp_job P p z) = Some (tcp_job P (\<lambda>r. BRet (x r)) z)"
    using one unfolding reach_def by blast
  moreover have "in_tcp P k (tcp_job P p z) w" using w by (auto simp: in_tcp_def mstage_def tcp_job_def)
  ultimately obtain v where v: "mreach wire w v" "in_tcp P k (tcp_job P (\<lambda>r. BRet (x r)) z) v"
    "wmems v = wmems w" "wnet v = wnet w" using lift_tcp by blast
  have "mprocs v = mranks P (\<lambda>r. Tcp (BRet (x r)) (k r))"
    using v(2) by (auto simp: in_tcp_def tcp_job_def mranks_def fun_eq_iff)
  from switch_all [OF _ this refl, of "\<lambda>r. k r (x r)" wire]
  have "mreach wire v (v\<lparr>mprocs := mranks P (\<lambda>r. k r (x r))\<rparr>)" by simp
  moreover have "mstage (v\<lparr>mprocs := mranks P (\<lambda>r. k r (x r))\<rparr>) P (\<lambda>r. k r (x r)) M E"
    using v w by (simp add: mstage_def in_tcp_def tcp_job_def)
  ultimately show ?thesis using v(1) mreach_trans by blast
qed

text \<open>A look at the memory.\<close>

lemma phase_inspect:
  assumes w: "mstage w P (\<lambda>r. Inspect (f r)) M E"
  shows "\<exists>w'. mreach wire w w' \<and> mstage w' P (\<lambda>r. f r (M r)) M E"
  using switch_all [of P "\<lambda>r. Inspect (f r)" M "\<lambda>r. f r (M r)" w wire] w
  by (intro exI [of _ "w\<lparr>mprocs := mranks P (\<lambda>r. f r (M r))\<rparr>"]) (simp add: mstage_def)

lemma phase_throw:
  assumes w: "mstage w P (\<lambda>r. Rdma (Throw (e r)) (k r)) M E"
  shows "\<exists>w'. mreach wire w w' \<and> mstage w' P (\<lambda>r. Fail (e r)) M E"
  using switch_all [of P "\<lambda>r. Rdma (Throw (e r)) (k r)" M "\<lambda>r. Fail (e r)" w wire] w
  by (intro exI [of _ "w\<lparr>mprocs := mranks P (\<lambda>r. Fail (e r))\<rparr>"]) (simp add: mstage_def)

section \<open>From phases to all schedules\<close>

fun ended :: "'t mprog \<Rightarrow> bool" where
  "ended (Exit c) = True"
| "ended (Fail e) = True"
| "ended _ = False"

lemma mdisc_idle:
  assumes "idle e" "mdisc m"
  shows "rank_ok (rview m) e" "mrest m"
  using assms by (cases m; auto intro!: idle_rank_ok; fail)+

text \<open>
  If every rank runs disciplined code over idle queues and empty sockets, and the phases bring all ranks to their ends with
  memories that satisfy \<open>Q\<close>, then every interleaving does, on every fabric that keeps the contract.
\<close>

lemma world_ends:
  assumes F: "rc_contract F \<alpha>" and procs: "mprocs w = mranks P m" and chan: "wchan w = (\<lambda>_ _. [])"
    and idle: "\<And>x. idle (\<alpha> (wnet w) x)" and disc: "\<And>r. r < P \<Longrightarrow> mdisc (m r)" and fin: "\<And>r. r < P \<Longrightarrow> ended (m' r)"
    and one: "\<And>u. mstage u P m (wmems w) (\<alpha> (wnet w)) \<Longrightarrow>
      \<exists>u' M. mreach wire u u' \<and> mstage u' P m' M (\<alpha> (wnet w)) \<and> Q M"
  shows "always_ends (mexec F wire) w (\<lambda>f. (\<forall>r<P. mprocs f r = m' r) \<and> Q (wmems f))"
proof -
  let ?u = "abs_world \<alpha> w" and ?E = "\<alpha> (wnet w)"
  have "mstage ?u P m (wmems w) ?E" by (simp add: mstage_def procs chan)
  from one [OF this] obtain as u' M where u': "run (mexec rc_fabric wire) as ?u = Some u'"
    "mstage u' P m' M ?E" "Q M" unfolding mreach_def by blast
  have "rank_ok (rview (mranks P m r)) (?E r) \<and> mrest (mranks P m r)" for r
    using mdisc_idle [OF idle, of "mranks P m r"] disc [of r] by (cases "r < P") simp_all
  then have dis: "mdisciplined ?u" by (simp add: mdisciplined_def disciplined_def procs)
  have "stuck (mexec rc_fabric wire) u'"
    unfolding stuck_def
  proof
    fix l show "mexec rc_fabric wire l u' = None"
    proof (cases l)
      case (Run r)
      have "ended (mranks P m' r)" using fin by (simp add: mranks_def)
      with Run u'(2) show ?thesis by (cases "mranks P m' r") (simp_all add: mstage_def)
    next
      case (Nic p q)
      with u'(2) idle [of p] show ?thesis by (simp add: exec_Nic rc_move_def mstage_def idle_def)
    qed
  qed
  then have "always_ends (mexec rc_fabric wire) ?u (\<lambda>f. (\<forall>r<P. mprocs f r = m' r) \<and> Q (wmems f))"
    by (rule ranks_system.one_schedule_suffices [OF dis u'(1)]) (use u'(2,3) in \<open>simp add: mstage_def\<close>)
  from rc_contract.world_ends_abs [OF F this] show ?thesis by simp
qed

text \<open>The usual end: all ranks exit.\<close>

lemma world_always_ends:
  assumes "rc_contract F \<alpha>" "mprocs w = mranks P m" "wchan w = (\<lambda>_ _. [])"
    and "\<And>x. idle (\<alpha> (wnet w) x)" "\<And>r. r < P \<Longrightarrow> mdisc (m r)"
    and "\<And>u. mstage u P m (wmems w) (\<alpha> (wnet w)) \<Longrightarrow>
      \<exists>u' M. mreach wire u u' \<and> mstage u' P (\<lambda>r. Exit (c r)) M (\<alpha> (wnet w)) \<and> Q M"
  shows "always_ends (mexec F wire) w (\<lambda>f. (\<forall>r<P. mprocs f r = Exit (c r)) \<and> Q (wmems f))"
  by (rule world_ends [OF assms(1-5) _ assms(6)]) simp_all

end
