(* ===== verification/Handles.thy ===== *)
theory Handles
  imports Prelude
begin

text \<open>
  Ownership of native verbs objects: the constructors, destructors and moves of
  \<^verbatim>\<open>ProtectionDomain\<close>, \<^verbatim>\<open>CompletionQueue\<close>, \<^verbatim>\<open>MemoryRegion\<close> and \<^verbatim>\<open>QueuePair\<close> (\<^verbatim>\<open>Device\<close> is in
  theory \<open>Device\<close>). An object is its native pointer, \<open>None\<close> for \<^verbatim>\<open>nullptr\<close>; an operation
  returns the release calls it makes. The interface \<open>owning_handle\<close> is what the operations
  promise; from it no sequence of moves and destructions releases a handle twice or
  loses one.
\<close>

type_synonym ptr = nat

datatype native_call =
    Ibv_close_device ptr
  | Ibv_dealloc_pd ptr
  | Ibv_destroy_cq ptr
  | Ibv_dereg_mr ptr
  | Ibv_destroy_qp ptr

section \<open>The classes\<close>

text \<open>
  Constructors: the verbs call is a parameter that gives the pointer or null, and \<^verbatim>\<open>errno\<close>.
\<close>

definition pd_ctor :: "(ptr \<Rightarrow> ptr option \<times> int) \<Rightarrow> ptr \<Rightarrow> ptr option result" where
  "pd_ctor ibv_alloc_pd context =
     (case ibv_alloc_pd context of (p, errno) \<Rightarrow>
        bind_res (check_ptr p errno ''ibv_alloc_pd'') (\<lambda>h. Inr (Some h)))"

definition cq_ctor :: "(ptr \<Rightarrow> int \<Rightarrow> ptr option \<times> int) \<Rightarrow> ptr \<Rightarrow> int \<Rightarrow> ptr option result" where
  "cq_ctor ibv_create_cq context capacity =
     (case ibv_create_cq context capacity of (p, errno) \<Rightarrow>
        bind_res (check_ptr p errno ''ibv_create_cq'') (\<lambda>h. Inr (Some h)))"

definition mr_ctor :: "(ptr \<Rightarrow> nat \<Rightarrow> nat \<Rightarrow> nat \<Rightarrow> ptr option \<times> int) \<Rightarrow> ptr \<Rightarrow> nat \<Rightarrow> nat \<Rightarrow> nat \<Rightarrow> ptr option result" where
  "mr_ctor ibv_reg_mr pd addr len access =
     (case ibv_reg_mr pd addr len access of (p, errno) \<Rightarrow>
        bind_res (check_ptr p errno ''ibv_reg_mr'') (\<lambda>h. Inr (Some h)))"

text \<open>
  Destructor: the release calls made. Move constructor: the new object and what is left of
  \<^verbatim>\<open>other\<close>. Move assignment, with \<open>self\<close> for \<^verbatim>\<open>this == &other\<close>: the release calls, \<^verbatim>\<open>this\<close> and \<^verbatim>\<open>other\<close>.
\<close>

definition pd_dtor :: "ptr option \<Rightarrow> native_call list" where
  "pd_dtor pd = (case pd of None \<Rightarrow> [] | Some h \<Rightarrow> [Ibv_dealloc_pd h])"

definition pd_move :: "ptr option \<Rightarrow> ptr option \<times> ptr option" where
  "pd_move other = (other, None)"

definition pd_assign :: "bool \<Rightarrow> ptr option \<Rightarrow> ptr option \<Rightarrow> native_call list \<times> ptr option \<times> ptr option" where
  "pd_assign self this other =
     (if \<not> self
      then (case this of None \<Rightarrow> [] | Some h \<Rightarrow> [Ibv_dealloc_pd h], other, None)
      else ([], this, other))"

definition cq_dtor :: "ptr option \<Rightarrow> native_call list" where
  "cq_dtor cq = (case cq of None \<Rightarrow> [] | Some h \<Rightarrow> [Ibv_destroy_cq h])"

definition cq_move :: "ptr option \<Rightarrow> ptr option \<times> ptr option" where
  "cq_move other = (other, None)"

definition cq_assign :: "bool \<Rightarrow> ptr option \<Rightarrow> ptr option \<Rightarrow> native_call list \<times> ptr option \<times> ptr option" where
  "cq_assign self this other =
     (if \<not> self
      then (case this of None \<Rightarrow> [] | Some h \<Rightarrow> [Ibv_destroy_cq h], other, None)
      else ([], this, other))"

definition mr_dtor :: "ptr option \<Rightarrow> native_call list" where
  "mr_dtor mr = (case mr of None \<Rightarrow> [] | Some h \<Rightarrow> [Ibv_dereg_mr h])"

definition mr_move :: "ptr option \<Rightarrow> ptr option \<times> ptr option" where
  "mr_move other = (other, None)"

definition mr_assign :: "bool \<Rightarrow> ptr option \<Rightarrow> ptr option \<Rightarrow> native_call list \<times> ptr option \<times> ptr option" where
  "mr_assign self this other =
     (if \<not> self
      then (case this of None \<Rightarrow> [] | Some h \<Rightarrow> [Ibv_dereg_mr h], other, None)
      else ([], this, other))"

definition qp_dtor :: "ptr option \<Rightarrow> native_call list" where
  "qp_dtor qp = (case qp of None \<Rightarrow> [] | Some h \<Rightarrow> [Ibv_destroy_qp h])"

definition qp_move :: "ptr option \<Rightarrow> ptr option \<times> ptr option" where
  "qp_move other = (other, None)"

definition qp_assign :: "bool \<Rightarrow> ptr option \<Rightarrow> ptr option \<Rightarrow> native_call list \<times> ptr option \<times> ptr option" where
  "qp_assign self this other =
     (if \<not> self
      then (case this of None \<Rightarrow> [] | Some h \<Rightarrow> [Ibv_destroy_qp h], other, None)
      else ([], this, other))"

section \<open>Programs that use handles\<close>

text \<open>
  The objects that exist, by variable; the native handles created so far and the release calls
  made so far. A program constructs, moves, assigns and destroys objects in any order.
\<close>

record 'c heap =
  objs :: "nat \<rightharpoonup> 'c"
  created :: "ptr list"
  log :: "native_call list"

datatype handle_op =
    Construct nat ptr
  | MoveConstruct nat nat
  | MoveAssign nat nat
  | Destroy nat

text \<open>What a class provides: construction from a native handle, and the operations above.\<close>

record 'c handle_class =
  hc_make :: "ptr \<Rightarrow> 'c"
  hc_dtor :: "'c \<Rightarrow> native_call list"
  hc_move :: "'c \<Rightarrow> 'c \<times> 'c"
  hc_assign :: "bool \<Rightarrow> 'c \<Rightarrow> 'c \<Rightarrow> native_call list \<times> 'c \<times> 'c"

text \<open>
  One operation; \<open>None\<close> when it does not type-check (a variable that does not exist or exists
  already, a native handle that is not new).
\<close>

fun handle_step :: "'c handle_class \<Rightarrow> handle_op \<Rightarrow> 'c heap \<Rightarrow> 'c heap option" where
  "handle_step K (Construct v p) s =
     (if objs s v \<noteq> None \<or> p \<in> set (created s) then None
      else Some (s\<lparr>objs := (objs s)(v \<mapsto> hc_make K p), created := p # created s\<rparr>))"
| "handle_step K (MoveConstruct v u) s =
     (case objs s u of
        None \<Rightarrow> None
      | Some other \<Rightarrow>
          if objs s v \<noteq> None then None
          else (case hc_move K other of (this, other') \<Rightarrow>
            Some (s\<lparr>objs := (objs s)(u \<mapsto> other', v \<mapsto> this)\<rparr>)))"
| "handle_step K (MoveAssign v u) s =
     (case (objs s v, objs s u) of
        (Some this, Some other) \<Rightarrow>
          (case hc_assign K (v = u) this other of (calls, this', other') \<Rightarrow>
             Some (s\<lparr>objs := (objs s)(u \<mapsto> other', v \<mapsto> this'), log := log s @ calls\<rparr>))
      | _ \<Rightarrow> None)"
| "handle_step K (Destroy v) s =
     (case objs s v of
        None \<Rightarrow> None
      | Some this \<Rightarrow> Some (s\<lparr>objs := (objs s)(v := None), log := log s @ hc_dtor K this\<rparr>))"

fun handle_run :: "'c handle_class \<Rightarrow> handle_op list \<Rightarrow> 'c heap \<Rightarrow> 'c heap option" where
  "handle_run K [] s = Some s"
| "handle_run K (a # as) s = (case handle_step K a s of None \<Rightarrow> None | Some t \<Rightarrow> handle_run K as t)"

definition no_objects :: "'c heap" where
  "no_objects = \<lparr>objs = Map.empty, created = [], log = []\<rparr>"

section \<open>The ownership contract\<close>

text \<open>
  \<open>owns_once rel ow cr lg\<close>: with \<open>ow v\<close> the handle variable \<open>v\<close> owns, every handle of \<open>cr\<close> is owned by
  exactly one variable or its release call is in \<open>lg\<close> exactly once, and nothing else is.
\<close>

definition owns_once :: "(ptr \<Rightarrow> native_call) \<Rightarrow> (nat \<Rightarrow> ptr option) \<Rightarrow> ptr list \<Rightarrow> native_call list \<Rightarrow> bool" where
  "owns_once rel ow cr lg \<longleftrightarrow>
     (\<forall>v u p. ow v = Some p \<longrightarrow> ow u = Some p \<longrightarrow> v = u) \<and>
     (\<forall>v p. ow v = Some p \<longrightarrow> p \<in> set cr \<and> rel p \<notin> set lg) \<and>
     distinct lg \<and> set lg \<subseteq> rel ` set cr \<and>
     (\<forall>p\<in>set cr. rel p \<in> set lg \<or> (\<exists>v. ow v = Some p))"

lemma owns_onceI:
  "(\<And>v u p. ow v = Some p \<Longrightarrow> ow u = Some p \<Longrightarrow> v = u) \<Longrightarrow>
   (\<And>v p. ow v = Some p \<Longrightarrow> p \<in> set cr) \<Longrightarrow> (\<And>v p. ow v = Some p \<Longrightarrow> rel p \<notin> set lg) \<Longrightarrow>
   distinct lg \<Longrightarrow> set lg \<subseteq> rel ` set cr \<Longrightarrow>
   (\<And>p. p \<in> set cr \<Longrightarrow> rel p \<notin> set lg \<Longrightarrow> \<exists>v. ow v = Some p) \<Longrightarrow> owns_once rel ow cr lg"
  unfolding owns_once_def by blast

lemma owns_onceD:
  assumes "owns_once rel ow cr lg"
  shows "ow v = Some p \<Longrightarrow> ow u = Some p \<Longrightarrow> v = u" "ow v = Some p \<Longrightarrow> p \<in> set cr"
    "ow v = Some p \<Longrightarrow> rel p \<notin> set lg" "distinct lg" "set lg \<subseteq> rel ` set cr"
    "p \<in> set cr \<Longrightarrow> rel p \<notin> set lg \<Longrightarrow> \<exists>v. ow v = Some p"
  using assms unfolding owns_once_def by blast+

lemma owns_once_create:
  assumes inj: "inj rel" and o: "owns_once rel ow cr lg" and p: "p \<notin> set cr" and v: "ow v = None"
  shows "owns_once rel (ow(v \<mapsto> p)) (p # cr) lg"
proof (rule owns_onceI)
  have new: "rel p \<notin> set lg" using owns_onceD(5) [OF o] inj p by (auto dest: injD)
  show "a = b" if "(ow(v \<mapsto> p)) a = Some q" "(ow(v \<mapsto> p)) b = Some q" for a b q
    using that owns_onceD(1,2) [OF o] p by (auto split: if_splits)
  show "q \<in> set (p # cr)" "rel q \<notin> set lg" if "(ow(v \<mapsto> p)) a = Some q" for a q
    using that owns_onceD(2,3) [OF o] new by (auto split: if_splits)
  show "\<exists>a. (ow(v \<mapsto> p)) a = Some q" if "q \<in> set (p # cr)" "rel q \<notin> set lg" for q
  proof (cases "q = p")
    case False
    with that(1) have "q \<in> set cr" by simp
    from owns_onceD(6) [OF o this that(2)] obtain a where "ow a = Some q" by blast
    with v show ?thesis by (intro exI [of _ a]) auto
  qed auto
qed (use owns_onceD(4,5) [OF o] in auto)

lemma owns_once_release:
  assumes inj: "inj rel" and o: "owns_once rel ow cr lg"
  shows "owns_once rel (ow(v := None)) cr (lg @ (case ow v of None \<Rightarrow> [] | Some p \<Rightarrow> [rel p]))"
proof (cases "ow v")
  case None
  then have "ow(v := None) = ow" by auto
  with None o show ?thesis by simp
next
  case (Some p)
  have "owns_once rel (ow(v := None)) cr (lg @ [rel p])"
  proof (rule owns_onceI)
    show "a = b" if "(ow(v := None)) a = Some q" "(ow(v := None)) b = Some q" for a b q
      using that owns_onceD(1) [OF o] by (auto split: if_splits)
    show "q \<in> set cr" if "(ow(v := None)) a = Some q" for a q
      using that owns_onceD(2) [OF o] by (auto split: if_splits)
    show "rel q \<notin> set (lg @ [rel p])" if "(ow(v := None)) a = Some q" for a q
      using that owns_onceD(1,3) [OF o] Some inj by (auto split: if_splits dest: injD)
    show "distinct (lg @ [rel p])" using owns_onceD(3,4) [OF o] Some by simp
    show "set (lg @ [rel p]) \<subseteq> rel ` set cr" using owns_onceD(2,5) [OF o] Some by auto
    show "\<exists>a. (ow(v := None)) a = Some q" if "q \<in> set cr" "rel q \<notin> set (lg @ [rel p])" for q
    proof -
      from owns_onceD(6) [OF o that(1)] that(2) obtain a where "ow a = Some q" by auto
      with that(2) Some show ?thesis by (intro exI [of _ a]) auto
    qed
  qed
  with Some show ?thesis by simp
qed

lemma owns_once_transfer:
  assumes o: "owns_once rel ow cr lg" and v: "ow v = None" and ne: "v \<noteq> u"
  shows "owns_once rel (ow(u := None, v := ow u)) cr lg"
proof (rule owns_onceI)
  show "a = b" if "(ow(u := None, v := ow u)) a = Some q" "(ow(u := None, v := ow u)) b = Some q" for a b q
    using that owns_onceD(1) [OF o] by (auto split: if_splits)
  show "q \<in> set cr" "rel q \<notin> set lg" if "(ow(u := None, v := ow u)) a = Some q" for a q
    using that owns_onceD(2,3) [OF o] by (auto split: if_splits)
  show "\<exists>a. (ow(u := None, v := ow u)) a = Some q" if "q \<in> set cr" "rel q \<notin> set lg" for q
  proof -
    from owns_onceD(6) [OF o that] obtain a where "ow a = Some q" by blast
    then show ?thesis using v ne by (intro exI [of _ "if a = u then v else a"]) auto
  qed
qed (use owns_onceD(4,5) [OF o] in auto)

text \<open>The handle the object in variable \<open>v\<close> owns.\<close>

definition owner :: "('c \<Rightarrow> ptr option) \<Rightarrow> 'c heap \<Rightarrow> nat \<Rightarrow> ptr option" where
  "owner own s v = Option.bind (objs s v) own"

text \<open>\<open>own\<close> is the handle an object owns, \<open>rel\<close> the call that releases a handle of this class.\<close>

locale owning_handle =
  fixes K :: "'c handle_class" and own :: "'c \<Rightarrow> ptr option" and rel :: "ptr \<Rightarrow> native_call"
  assumes rel_inj: "rel p = rel q \<Longrightarrow> p = q"
    and make_own: "own (hc_make K p) = Some p"
    and dtor_rel: "hc_dtor K c = (case own c of None \<Rightarrow> [] | Some p \<Rightarrow> [rel p])"
    and move_own: "hc_move K c = (c', d) \<Longrightarrow> own c' = own c \<and> own d = None"
    and assign_own: "hc_assign K False c d = (calls, c', d') \<Longrightarrow>
      calls = (case own c of None \<Rightarrow> [] | Some p \<Rightarrow> [rel p]) \<and> own c' = own d \<and> own d' = None"
    and assign_self: "hc_assign K True c d = (calls, c', d') \<Longrightarrow> calls = [] \<and> c' = c \<and> d' = d"
begin

lemma step_owns_once:
  assumes s: "owns_once rel (owner own s) (created s) (log s)" and st: "handle_step K a s = Some t"
  shows "owns_once rel (owner own t) (created t) (log t)"
proof -
  have inj: "inj rel" by (rule injI) (rule rel_inj)
  show ?thesis
  proof (cases a)
    case (Construct v p)
    with st have t: "objs s v = None" "p \<notin> set (created s)" "created t = p # created s" "log t = log s"
      "owner own t = (owner own s)(v \<mapsto> p)"
      by (auto simp: owner_def fun_eq_iff make_own split: if_splits)
    have "owner own s v = None" using t(1) by (simp add: owner_def)
    with owns_once_create [OF inj s t(2)] show ?thesis by (simp add: t)
  next
    case (MoveConstruct v u)
    with st obtain c c' d where c: "objs s u = Some c" "objs s v = None" "hc_move K c = (c', d)"
        "t = s\<lparr>objs := (objs s)(u \<mapsto> d, v \<mapsto> c')\<rparr>"
      by (auto split: option.splits if_splits prod.splits)
    have "v \<noteq> u" using c(1,2) by auto
    moreover have "owner own t = (owner own s)(u := None, v := owner own s u)"
      using c move_own [OF c(3)] by (auto simp: owner_def fun_eq_iff)
    moreover have "owner own s v = None" using c(2) by (simp add: owner_def)
    ultimately show ?thesis using owns_once_transfer [OF s] c(4) by simp
  next
    case (MoveAssign v u)
    with st obtain c d calls c' d' where c: "objs s v = Some c" "objs s u = Some d"
        "hc_assign K (v = u) c d = (calls, c', d')"
        "t = s\<lparr>objs := (objs s)(u \<mapsto> d', v \<mapsto> c'), log := log s @ calls\<rparr>"
      by (auto split: option.splits prod.splits)
    show ?thesis
    proof (cases "v = u")
      case True
      with c assign_self [of c d calls c' d'] have "t = s" by (cases s) auto
      with s show ?thesis by simp
    next
      case False
      with c(3) have o: "calls = (case own c of None \<Rightarrow> [] | Some p \<Rightarrow> [rel p])" "own c' = own d" "own d' = None"
        using assign_own by auto
      let ?ow = "(owner own s)(v := None)"
      have "owns_once rel ?ow (created s) (log s @ calls)"
        using owns_once_release [OF inj s, of v] c(1) o(1) by (simp add: owner_def)
      then have "owns_once rel (?ow(u := None, v := ?ow u)) (created s) (log s @ calls)"
        by (rule owns_once_transfer) (use False in simp_all)
      moreover have "owner own t = ?ow(u := None, v := ?ow u)"
        using c o False by (auto simp: owner_def fun_eq_iff)
      ultimately show ?thesis using c(4) by simp
    qed
  next
    case (Destroy v)
    with st obtain c where c: "objs s v = Some c" "t = s\<lparr>objs := (objs s)(v := None), log := log s @ hc_dtor K c\<rparr>"
      by (auto split: option.splits)
    have "owner own t = (owner own s)(v := None)" using c by (auto simp: owner_def fun_eq_iff)
    with owns_once_release [OF inj s, of v] c show ?thesis by (simp add: dtor_rel owner_def)
  qed
qed

lemma run_owns_once:
  "owns_once rel (owner own s) (created s) (log s) \<Longrightarrow> handle_run K as s = Some t \<Longrightarrow>
   owns_once rel (owner own t) (created t) (log t)"
proof (induction as arbitrary: s)
  case (Cons a as)
  then show ?case by (auto split: option.splits dest: step_owns_once)
qed simp

text \<open>No double release, no use after release, no leak.\<close>

lemma handles_safe:
  assumes "handle_run K as no_objects = Some t"
  shows "distinct (log t)"
    and "objs t v = Some c \<Longrightarrow> own c = Some p \<Longrightarrow> rel p \<notin> set (log t)"
    and "objs t = Map.empty \<Longrightarrow> set (log t) = rel ` set (created t)"
proof -
  have "owns_once rel (owner own no_objects) (created no_objects) (log no_objects)"
    by (simp add: owns_once_def owner_def no_objects_def)
  from run_owns_once [OF this assms] have inv: "owns_once rel (owner own t) (created t) (log t)" .
  then show "distinct (log t)" by (rule owns_onceD)
  show "objs t v = Some c \<Longrightarrow> own c = Some p \<Longrightarrow> rel p \<notin> set (log t)"
    using owns_onceD(3) [OF inv, of v p] by (simp add: owner_def)
  show "objs t = Map.empty \<Longrightarrow> set (log t) = rel ` set (created t)"
    using owns_onceD(5,6) [OF inv] by (auto simp: owner_def)
qed

end

section \<open>The classes keep the contract\<close>

definition pd_class :: "ptr option handle_class" where
  "pd_class = \<lparr>hc_make = Some, hc_dtor = pd_dtor, hc_move = pd_move, hc_assign = pd_assign\<rparr>"

definition cq_class :: "ptr option handle_class" where
  "cq_class = \<lparr>hc_make = Some, hc_dtor = cq_dtor, hc_move = cq_move, hc_assign = cq_assign\<rparr>"

definition mr_class :: "ptr option handle_class" where
  "mr_class = \<lparr>hc_make = Some, hc_dtor = mr_dtor, hc_move = mr_move, hc_assign = mr_assign\<rparr>"

definition qp_class :: "ptr option handle_class" where
  "qp_class = \<lparr>hc_make = Some, hc_dtor = qp_dtor, hc_move = qp_move, hc_assign = qp_assign\<rparr>"

interpretation pd: owning_handle pd_class id Ibv_dealloc_pd
  by unfold_locales (auto simp: pd_class_def pd_dtor_def pd_move_def pd_assign_def)

interpretation cq: owning_handle cq_class id Ibv_destroy_cq
  by unfold_locales (auto simp: cq_class_def cq_dtor_def cq_move_def cq_assign_def)

interpretation mr: owning_handle mr_class id Ibv_dereg_mr
  by unfold_locales (auto simp: mr_class_def mr_dtor_def mr_move_def mr_assign_def)

interpretation qp: owning_handle qp_class id Ibv_destroy_qp
  by unfold_locales (auto simp: qp_class_def qp_dtor_def qp_move_def qp_assign_def)

section \<open>Properties\<close>

text \<open>
  C19: protection domains, completion queues, memory regions and queue pairs are released
  exactly once: whatever sequence of constructions, moves, move assignments (self-assignment
  included) and destructions a program performs, no native handle is released twice, no
  living object refers to a released handle, and once every object is destroyed every
  handle that was created has been released.
\<close>

theorem verbs_handles_released_once:
  assumes "(K, rel) \<in> set [(pd_class, Ibv_dealloc_pd), (cq_class, Ibv_destroy_cq),
      (mr_class, Ibv_dereg_mr), (qp_class, Ibv_destroy_qp)]"
    and "handle_run K ops no_objects = Some t"
  shows "distinct (log t) \<and>
    (\<forall>v p. objs t v = Some (Some p) \<longrightarrow> rel p \<notin> set (log t)) \<and>
    (objs t = Map.empty \<longrightarrow> set (log t) = rel ` set (created t))"
proof -
  consider "K = pd_class" "rel = Ibv_dealloc_pd" | "K = cq_class" "rel = Ibv_destroy_cq"
    | "K = mr_class" "rel = Ibv_dereg_mr" | "K = qp_class" "rel = Ibv_destroy_qp"
    using assms(1) by auto
  then show ?thesis
    by cases (use assms(2) pd.handles_safe [of ops t] cq.handles_safe [of ops t] mr.handles_safe [of ops t]
        qp.handles_safe [of ops t] in auto)
qed

theorem verbs_handles_released_once_witness:
  "\<exists>t. handle_run qp_class [Construct 0 7, MoveConstruct 1 0, MoveAssign 1 1, Construct 2 8, MoveAssign 2 1,
       Destroy 0, Destroy 1, Destroy 2] no_objects = Some t \<and>
     distinct (log t) \<and> set (log t) = Ibv_destroy_qp ` {7, 8}"
proof -
  let ?ops = "[Construct 0 7, MoveConstruct 1 0, MoveAssign 1 1, Construct 2 8, MoveAssign 2 1,
    Destroy 0, Destroy 1, Destroy 2]"
  obtain t where t: "handle_run qp_class ?ops no_objects = Some t" "objs t = Map.empty" "set (created t) = {7, 8}"
    by (auto simp: no_objects_def qp_class_def qp_dtor_def qp_move_def qp_assign_def fun_eq_iff)
  from verbs_handles_released_once [OF _ t(1), of Ibv_destroy_qp] t show ?thesis by auto
qed

end
