(* ===== verification/Device.thy ===== *)
theory Device
  imports Handles
begin

text \<open>
  \<^verbatim>\<open>src/verbs/device.cc\<close>: opening an RDMA device, choosing its port and its RoCE v2 address,
  and ownership of the context. The verbs library and the sysfs files are a parameter, a
  record of the calls; their answers depend only on the arguments during construction.
\<close>

section \<open>The device and what it calls\<close>

record ibv_port_attr =
  pa_state :: int
  pa_active_mtu :: int
  pa_lid :: u16
  pa_link_layer :: int

record Device =
  context_ptr :: "ptr option"
  port_num :: byte
  port_attr :: ibv_port_attr
  gid_index :: int
  gid :: "byte list"

text \<open>
  \<open>get_device_list\<close>: the array (\<open>None\<close> for null), the number written to \<^verbatim>\<open>num_devices\<close>, \<^verbatim>\<open>errno\<close>.
  \<open>gid_type_file path\<close>: the first line of the file, \<open>None\<close> when it cannot be opened.
\<close>

record verbs =
  get_device_list :: "ptr list option \<times> int \<times> int"
  get_device_name :: "ptr \<Rightarrow> string"
  open_device :: "ptr \<Rightarrow> ptr option \<times> int"
  query_device :: "ptr \<Rightarrow> int \<times> byte"
  query_port :: "ptr \<Rightarrow> byte \<Rightarrow> int \<times> ibv_port_attr"
  context_device :: "ptr \<Rightarrow> ptr"
  gid_type_file :: "string \<Rightarrow> string option"
  query_gid :: "ptr \<Rightarrow> byte \<Rightarrow> int \<Rightarrow> int \<times> byte list"

abbreviation (input) IBV_PORT_ACTIVE :: int where "IBV_PORT_ACTIVE \<equiv> 4"
abbreviation (input) IBV_LINK_LAYER_INFINIBAND :: int where "IBV_LINK_LAYER_INFINIBAND \<equiv> 1"

definition is_infiniband :: "Device \<Rightarrow> bool" where
  "is_infiniband d \<longleftrightarrow> pa_link_layer (port_attr d) = IBV_LINK_LAYER_INFINIBAND"

text \<open>The calls with an effect that construction makes, in order.\<close>

datatype dev_call = FreeDeviceList | OpenDevice ptr | CloseDevice ptr

section \<open>Listing devices\<close>

text \<open>
  Reading the array through a null pointer is undefined.
\<close>

definition list_device_names :: "verbs \<Rightarrow> string list result \<times> dev_call list" where
  "list_device_names V =
     (case get_device_list V of (list, num_devices, errno) \<Rightarrow>
        if list = None \<and> num_devices < 0
        then (Inl (VerbsError ''ibv_get_device_list'' errno), [])
        else (case list of
                None \<Rightarrow> if num_devices > 0 then (Inl (Undefined ''null device list''), [])
                        else (Inr [], [FreeDeviceList])
              | Some ds \<Rightarrow> (Inr (map (get_device_name V) (take (nat num_devices) ds)), [FreeDeviceList])))"

section \<open>Choosing the port\<close>

definition no_active_port :: error where
  "no_active_port = RuntimeError ''no active port on device (check `ibv_devinfo`, `rdma link show`)'' []"

text \<open>
  The loop over \<^verbatim>\<open>uint8_t port\<close>; the counter wraps, so it need not end (\<open>None\<close>).
\<close>

partial_function (option) port_loop ::
    "verbs \<Rightarrow> ptr \<Rightarrow> byte \<Rightarrow> byte \<Rightarrow> (byte \<times> ibv_port_attr) result option" where
  "port_loop V ctx cnt port =
     (if port \<le> cnt
      then (case query_port V ctx port of (rc, attr) \<Rightarrow>
              (case check_rc rc ''ibv_query_port'' of
                 Inl e \<Rightarrow> Some (Inl e)
               | Inr _ \<Rightarrow> if pa_state attr = IBV_PORT_ACTIVE then Some (Inr (port, attr))
                          else port_loop V ctx cnt (port + 1)))
      else Some (Inl no_active_port))"

definition find_active_port :: "verbs \<Rightarrow> ptr \<Rightarrow> Device \<Rightarrow> Device result option" where
  "find_active_port V ctx d =
     (case query_device V ctx of (rc, phys_port_cnt) \<Rightarrow>
        (case check_rc rc ''ibv_query_device'' of
           Inl e \<Rightarrow> Some (Inl e)
         | Inr _ \<Rightarrow>
             map_option (\<lambda>res. bind_res res (\<lambda>(port, attr). Inr (d\<lparr>port_num := port, port_attr := attr\<rparr>)))
               (port_loop V ctx phys_port_cnt 1)))"

section \<open>Choosing the GID\<close>

text \<open>\<^verbatim>\<open>std::to_string\<close> of a number, and \<^verbatim>\<open>std::string::find\<close> as a test.\<close>

fun to_string :: "nat \<Rightarrow> string" where
  "to_string n = (if n < 10 then [char_of (48 + n)] else to_string (n div 10) @ [char_of (48 + n mod 10)])"

declare to_string.simps [simp del]

fun contains :: "string \<Rightarrow> string \<Rightarrow> bool" where
  "contains pat [] \<longleftrightarrow> pat = []"
| "contains pat (c # s) \<longleftrightarrow> take (length pat) (c # s) = pat \<or> contains pat s"

definition gid_type_path :: "string \<Rightarrow> byte \<Rightarrow> nat \<Rightarrow> string" where
  "gid_type_path dev_name port idx =
     ''/sys/class/infiniband/'' @ dev_name @ ''/ports/'' @ to_string (unat port) @
     ''/gid_attrs/types/'' @ to_string idx"

text \<open>\<open>n\<close> iterations of the scan are left.\<close>

fun gid_loop :: "verbs \<Rightarrow> ptr \<Rightarrow> string \<Rightarrow> byte \<Rightarrow> nat \<Rightarrow> nat \<Rightarrow> (int \<times> byte list) result" where
  "gid_loop V ctx dev_name port 0 idx =
     Inl (RuntimeError (''no RoCE v2 GID found on '' @ dev_name @
       '' port % (Soft-RoCE should always expose one -- check `rdma link show`)'') [int (unat port)])"
| "gid_loop V ctx dev_name port (Suc n) idx =
     (case gid_type_file V (gid_type_path dev_name port idx) of
        None \<Rightarrow> gid_loop V ctx dev_name port n (Suc idx)
      | Some type \<Rightarrow>
          if contains ''RoCE v2'' type
          then (case query_gid V ctx port (int idx) of (rc, g) \<Rightarrow>
                  bind_res (check_rc rc ''ibv_query_gid'') (\<lambda>_. Inr (int idx, g)))
          else gid_loop V ctx dev_name port n (Suc idx))"

definition find_roce_v2_gid_index :: "verbs \<Rightarrow> ptr \<Rightarrow> Device \<Rightarrow> Device result" where
  "find_roce_v2_gid_index V ctx d =
     bind_res (gid_loop V ctx (get_device_name V (context_device V ctx)) (port_num d) 256 0)
       (\<lambda>(idx, g). Inr (d\<lparr>gid_index := idx, gid := g\<rparr>))"

section \<open>Construction\<close>

definition pick_device :: "verbs \<Rightarrow> string \<Rightarrow> int \<Rightarrow> ptr list \<Rightarrow> ptr result" where
  "pick_device V dev_name num_devices list =
     (if dev_name = []
      then if num_devices = 0
           then Inl (RuntimeError ''no RDMA devices found (is rdma_rxe loaded? see docs/setup.md)'' [])
           else (case list of [] \<Rightarrow> Inl (Undefined ''device list'') | d # _ \<Rightarrow> Inr d)
      else (case filter (\<lambda>d. dev_name = get_device_name V d) (take (nat num_devices) list) of
              [] \<Rightarrow> Inl (RuntimeError (''RDMA device not found: '' @ dev_name) [])
            | d # _ \<Rightarrow> Inr d))"

definition blank_device :: "ptr \<Rightarrow> Device" where
  "blank_device ctx =
     \<lparr>context_ptr = Some ctx, port_num = 0,
      port_attr = \<lparr>pa_state = 0, pa_active_mtu = 0, pa_lid = 0, pa_link_layer = 0\<rparr>,
      gid_index = -1, gid = replicate 16 0\<rparr>"

text \<open>The body of the \<^verbatim>\<open>try\<close> block.\<close>

definition device_setup :: "verbs \<Rightarrow> ptr \<Rightarrow> Device result option" where
  "device_setup V ctx =
     map_option (\<lambda>res. bind_res res (\<lambda>d.
         if \<not> is_infiniband d then find_roce_v2_gid_index V ctx d else Inr d))
       (find_active_port V ctx (blank_device ctx))"

definition device_ctor :: "verbs \<Rightarrow> string \<Rightarrow> (Device result \<times> dev_call list) option" where
  "device_ctor V dev_name =
     (case get_device_list V of (list, num_devices, errno) \<Rightarrow>
        (case check_ptr list errno ''ibv_get_device_list'' of
           Inl e \<Rightarrow> Some (Inl e, [])
         | Inr l \<Rightarrow>
             (case pick_device V dev_name num_devices l of
                Inl e \<Rightarrow> Some (Inl e, [FreeDeviceList])
              | Inr target \<Rightarrow>
                  (case open_device V target of (p, errno) \<Rightarrow>
                     (case check_ptr p errno ''ibv_open_device'' of
                        Inl e \<Rightarrow> Some (Inl e, [])
                      | Inr ctx \<Rightarrow>
                          (case device_setup V ctx of
                             None \<Rightarrow> None
                           | Some (Inl e) \<Rightarrow>
                               Some (Inl e, [OpenDevice ctx, FreeDeviceList, CloseDevice ctx])
                           | Some (Inr d) \<Rightarrow> Some (Inr d, [OpenDevice ctx, FreeDeviceList])))))))"

section \<open>Ownership of the context\<close>

definition device_dtor :: "Device \<Rightarrow> native_call list" where
  "device_dtor d = (case context_ptr d of None \<Rightarrow> [] | Some h \<Rightarrow> [Ibv_close_device h])"

definition device_move :: "Device \<Rightarrow> Device \<times> Device" where
  "device_move other =
     (\<lparr>context_ptr = context_ptr other, port_num = port_num other, port_attr = port_attr other,
       gid_index = gid_index other, gid = gid other\<rparr>, other\<lparr>context_ptr := None\<rparr>)"

definition device_assign :: "bool \<Rightarrow> Device \<Rightarrow> Device \<Rightarrow> native_call list \<times> Device \<times> Device" where
  "device_assign self this other =
     (if \<not> self
      then (case context_ptr this of None \<Rightarrow> [] | Some h \<Rightarrow> [Ibv_close_device h],
            this\<lparr>context_ptr := context_ptr other, port_num := port_num other,
              port_attr := port_attr other, gid_index := gid_index other, gid := gid other\<rparr>,
            other\<lparr>context_ptr := None\<rparr>)
      else ([], this, other))"

definition device_class :: "Device handle_class" where
  "device_class =
     \<lparr>hc_make = blank_device, hc_dtor = device_dtor, hc_move = device_move, hc_assign = device_assign\<rparr>"

interpretation dev: owning_handle device_class context_ptr Ibv_close_device
  by unfold_locales
     (auto simp: device_class_def device_dtor_def device_move_def device_assign_def blank_device_def)

section \<open>The port scan\<close>

lemma unat_byte_less: "unat (b :: byte) < 256"
proof -
  have "unat b < 2 ^ LENGTH(8)" by (rule unsigned_less)
  then show ?thesis by simp
qed

text \<open>
  What the scan is to find among the ports \<open>ps\<close>: the first that cannot be queried or is active.
\<close>

fun scan_ports :: "verbs \<Rightarrow> ptr \<Rightarrow> nat list \<Rightarrow> (byte \<times> ibv_port_attr) result" where
  "scan_ports V ctx [] = Inl no_active_port"
| "scan_ports V ctx (p # ps) =
     (let (rc, attr) = query_port V ctx (of_nat p) in
      if rc \<noteq> 0 then Inl (VerbsError ''ibv_query_port'' rc)
      else if pa_state attr = IBV_PORT_ACTIVE then Inr (of_nat p, attr)
      else scan_ports V ctx ps)"

lemma port_loop_scan:
  assumes "unat cnt < 255" "p \<le> 256"
  shows "p < 256 \<Longrightarrow> port_loop V ctx cnt (of_nat p) = Some (scan_ports V ctx [p..<Suc (unat cnt)])"
  using assms(2)
proof (induction rule: inc_induct)
  case (step p)
  have le: "(of_nat p :: byte) \<le> cnt \<longleftrightarrow> p \<le> unat cnt"
    using step.prems by (simp add: word_le_nat_alt unat_of_nat)
  show ?case
  proof (cases "p \<le> unat cnt")
    case True
    have "port_loop V ctx cnt (of_nat (Suc p)) = Some (scan_ports V ctx [Suc p..<Suc (unat cnt)])"
      using step.IH True assms(1) by simp
    moreover have "[p..<Suc (unat cnt)] = p # [Suc p..<Suc (unat cnt)]"
      using True by (simp add: upt_conv_Cons del: upt_Suc)
    ultimately show ?thesis using True le
      by (subst port_loop.simps)
        (simp add: check_rc_def add.commute del: upt_Suc split: prod.split)
  next
    case False
    with le show ?thesis by (subst port_loop.simps) simp
  qed
qed simp

text \<open>With 255 ports the counter wraps to 0 and the loop condition never fails.\<close>

lemma port_loop_255:
  "port_loop V ctx cnt p = Some r \<Longrightarrow>
   cnt = 255 \<longrightarrow> (\<exists>q. fst (query_port V ctx q) \<noteq> 0 \<or> pa_state (snd (query_port V ctx q)) = IBV_PORT_ACTIVE)"
proof (erule port_loop.raw_induct [rotated], rule impI)
  fix loop V ctx p r and cnt :: byte
  assume IH: "\<And>V ctx cnt p y. loop V ctx cnt p = Some y \<Longrightarrow> cnt = 255 \<longrightarrow>
      (\<exists>q. fst (query_port V ctx q) \<noteq> 0 \<or> pa_state (snd (query_port V ctx q)) = IBV_PORT_ACTIVE)"
    and body: "(if p \<le> cnt
        then case query_port V ctx p of (rc, attr) \<Rightarrow>
               (case check_rc rc ''ibv_query_port'' of Inl e \<Rightarrow> Some (Inl e)
                | Inr _ \<Rightarrow> if pa_state attr = IBV_PORT_ACTIVE then Some (Inr (p, attr)) else loop V ctx cnt (p + 1))
        else Some (Inl no_active_port)) = Some r"
    and cnt: "cnt = 255"
  have "p \<le> cnt" using unat_byte_less [of p] cnt by (simp add: word_le_nat_alt)
  with body have "(\<exists>q. fst (query_port V ctx q) \<noteq> 0 \<or> pa_state (snd (query_port V ctx q)) = IBV_PORT_ACTIVE)
      \<or> loop V ctx cnt (p + 1) = Some r"
    by (cases "query_port V ctx p") (auto simp: check_rc_def split: if_splits intro: exI [of _ p])
  with IH cnt show "\<exists>q. fst (query_port V ctx q) \<noteq> 0 \<or> pa_state (snd (query_port V ctx q)) = IBV_PORT_ACTIVE"
    by blast
qed

lemma scan_ports_Inr:
  "scan_ports V ctx ps = Inr (port, attr) \<Longrightarrow>
   \<exists>qs p rs. ps = qs @ p # rs \<and> port = of_nat p \<and> query_port V ctx port = (0, attr) \<and>
     pa_state attr = IBV_PORT_ACTIVE \<and>
     (\<forall>q\<in>set qs. pa_state (snd (query_port V ctx (of_nat q))) \<noteq> IBV_PORT_ACTIVE)"
proof (induction ps)
  case (Cons p ps)
  obtain rc a where q: "query_port V ctx (of_nat p) = (rc, a)" by force
  show ?case
  proof (cases "pa_state a = IBV_PORT_ACTIVE")
    case True
    with Cons.prems q have "p # ps = [] @ p # ps \<and> port = of_nat p \<and> rc = 0 \<and> a = attr"
      by (auto split: if_splits)
    with True q show ?thesis by (intro exI [of _ "[]"] exI [of _ p] exI [of _ ps]) auto
  next
    case False
    with Cons.prems q have "scan_ports V ctx ps = Inr (port, attr)" by (simp split: if_splits)
    with Cons.IH obtain qs p' rs where "ps = qs @ p' # rs" "port = of_nat p'" "query_port V ctx port = (0, attr)"
      "pa_state attr = IBV_PORT_ACTIVE" "\<forall>q\<in>set qs. pa_state (snd (query_port V ctx (of_nat q))) \<noteq> IBV_PORT_ACTIVE"
      by blast
    with False q show ?thesis by (intro exI [of _ "p # qs"] exI [of _ p'] exI [of _ rs]) auto
  qed
qed simp

lemma upt_append_Cons: "[i..<n] = qs @ p # rs \<Longrightarrow> qs = [i..<p] \<and> i \<le> p \<and> p < n"
proof -
  assume eq: "[i..<n] = qs @ p # rs"
  let ?k = "length qs"
  have k: "?k < n - i" using arg_cong [OF eq, of length] by simp
  have "p = i + ?k" using arg_cong [OF eq, of "\<lambda>xs. xs ! ?k"] k by simp
  moreover have "qs = take ?k [i..<n]" unfolding eq by simp
  ultimately show ?thesis using k by simp
qed

text \<open>What a constructed device knows about its port.\<close>

definition first_active :: "verbs \<Rightarrow> ptr \<Rightarrow> byte \<Rightarrow> ibv_port_attr \<Rightarrow> bool" where
  "first_active V ctx port attr \<longleftrightarrow>
     1 \<le> port \<and> port \<le> snd (query_device V ctx) \<and>
     query_port V ctx port = (0, attr) \<and> pa_state attr = IBV_PORT_ACTIVE \<and>
     (\<forall>q. 1 \<le> q \<longrightarrow> q < port \<longrightarrow> pa_state (snd (query_port V ctx q)) \<noteq> IBV_PORT_ACTIVE)"

lemma find_active_port_ends:
  assumes "unat (snd (query_device V ctx)) < 255"
  shows "find_active_port V ctx d = Some
    (if fst (query_device V ctx) \<noteq> 0 then Inl (VerbsError ''ibv_query_device'' (fst (query_device V ctx)))
     else bind_res (scan_ports V ctx [1..<Suc (unat (snd (query_device V ctx)))])
       (\<lambda>(port, attr). Inr (d\<lparr>port_num := port, port_attr := attr\<rparr>)))"
  using port_loop_scan [OF assms, of 1 V ctx]
  by (cases "query_device V ctx") (simp add: find_active_port_def check_rc_def del: upt_Suc)

lemma scan_first_active:
  assumes "scan_ports V ctx [1..<Suc (unat (snd (query_device V ctx)))] = Inr (port, attr)"
  shows "first_active V ctx port attr"
proof -
  let ?cnt = "snd (query_device V ctx)"
  obtain qs p rs where "[1..<Suc (unat ?cnt)] = qs @ p # rs" and port: "port = of_nat p"
    "query_port V ctx port = (0, attr)" "pa_state attr = IBV_PORT_ACTIVE"
    and inactive: "\<forall>q\<in>set qs. pa_state (snd (query_port V ctx (of_nat q))) \<noteq> IBV_PORT_ACTIVE"
    using scan_ports_Inr [OF assms] by blast
  then have p: "qs = [1..<p]" "1 \<le> p" "p < Suc (unat ?cnt)" using upt_append_Cons by blast+
  then have u: "unat (of_nat p :: byte) = p" using unat_byte_less [of ?cnt] by (simp add: unat_of_nat)
  have "pa_state (snd (query_port V ctx q)) \<noteq> IBV_PORT_ACTIVE" if "1 \<le> q" "q < port" for q
  proof -
    have "unat q \<in> set qs"
      using that p(1) u port(1) by (simp add: word_le_nat_alt word_less_nat_alt)
    with inactive have "pa_state (snd (query_port V ctx (of_nat (unat q)))) \<noteq> IBV_PORT_ACTIVE" by blast
    then show ?thesis by simp
  qed
  with port p u show ?thesis by (simp add: first_active_def word_le_nat_alt)
qed

section \<open>The GID scan\<close>

definition is_roce_v2 :: "verbs \<Rightarrow> ptr \<Rightarrow> byte \<Rightarrow> nat \<Rightarrow> bool" where
  "is_roce_v2 V ctx port i =
     (case gid_type_file V (gid_type_path (get_device_name V (context_device V ctx)) port i) of
        None \<Rightarrow> False | Some type \<Rightarrow> contains ''RoCE v2'' type)"

definition first_roce_v2 :: "verbs \<Rightarrow> ptr \<Rightarrow> byte \<Rightarrow> int \<Rightarrow> byte list \<Rightarrow> bool" where
  "first_roce_v2 V ctx port idx g \<longleftrightarrow>
     0 \<le> idx \<and> idx < 256 \<and> is_roce_v2 V ctx port (nat idx) \<and>
     (\<forall>j < nat idx. \<not> is_roce_v2 V ctx port j) \<and> query_gid V ctx port idx = (0, g)"

lemma gid_loop_Inr:
  "gid_loop V ctx (get_device_name V (context_device V ctx)) port n i = Inr (idx, g) \<Longrightarrow>
   \<exists>j. idx = int j \<and> i \<le> j \<and> j < i + n \<and> is_roce_v2 V ctx port j \<and>
     (\<forall>m. i \<le> m \<longrightarrow> m < j \<longrightarrow> \<not> is_roce_v2 V ctx port m) \<and> query_gid V ctx port idx = (0, g)"
proof (induction n arbitrary: i)
  case (Suc n)
  show ?case
  proof (cases "is_roce_v2 V ctx port i")
    case True
    with Suc.prems show ?thesis
      by (auto simp: is_roce_v2_def check_rc_def split: option.splits prod.splits if_splits)
  next
    case False
    with Suc.prems have "gid_loop V ctx (get_device_name V (context_device V ctx)) port n (Suc i) = Inr (idx, g)"
      by (auto simp: is_roce_v2_def split: option.splits)
    from Suc.IH [OF this] False show ?thesis
      by (metis Suc_leD add_Suc_shift le_eq_less_or_eq Suc_leI)
  qed
qed simp

lemma find_roce_v2_Inr:
  assumes "find_roce_v2_gid_index V ctx d = Inr d'"
  shows "\<exists>idx g. d' = d\<lparr>gid_index := idx, gid := g\<rparr> \<and> first_roce_v2 V ctx (port_num d) idx g"
proof -
  obtain idx g where d': "d' = d\<lparr>gid_index := idx, gid := g\<rparr>"
    "gid_loop V ctx (get_device_name V (context_device V ctx)) (port_num d) 256 0 = Inr (idx, g)"
    using assms by (auto simp: find_roce_v2_gid_index_def bind_res_eq_Inr)
  from gid_loop_Inr [OF d'(2)] have "first_roce_v2 V ctx (port_num d) idx g"
    by (auto simp: first_roce_v2_def)
  with d'(1) show ?thesis by blast
qed

section \<open>Properties\<close>

text \<open>A device that is ready for use on the context \<open>ctx\<close>.\<close>

definition device_ready :: "verbs \<Rightarrow> ptr \<Rightarrow> Device \<Rightarrow> bool" where
  "device_ready V ctx d \<longleftrightarrow>
     context_ptr d = Some ctx \<and> first_active V ctx (port_num d) (port_attr d) \<and>
     (if is_infiniband d then gid_index d = -1
      else first_roce_v2 V ctx (port_num d) (gid_index d) (gid d))"

lemma device_setup_ends:
  assumes "unat (snd (query_device V ctx)) < 255"
  shows "\<exists>r. device_setup V ctx = Some r \<and> (\<forall>d. r = Inr d \<longrightarrow> device_ready V ctx d)"
proof -
  obtain r where r: "find_active_port V ctx (blank_device ctx) = Some r"
    using find_active_port_ends [OF assms] by blast
  have port: "first_active V ctx (port_num d) (port_attr d) \<and> context_ptr d = Some ctx \<and> gid_index d = -1"
    if "r = Inr d" for d
    using r that scan_first_active [of V ctx] unfolding find_active_port_ends [OF assms]
    by (auto simp: bind_res_eq_Inr blank_device_def split: if_splits)
  have "device_ready V ctx d'" if "r = Inr d"
      "(if \<not> is_infiniband d then find_roce_v2_gid_index V ctx d else Inr d) = Inr d'" for d d'
  proof (cases "is_infiniband d")
    case False
    with that(2) have "find_roce_v2_gid_index V ctx d = Inr d'" by simp
    then obtain idx g where "d' = d\<lparr>gid_index := idx, gid := g\<rparr>" "first_roce_v2 V ctx (port_num d) idx g"
      using find_roce_v2_Inr by blast
    with False port [OF that(1)] show ?thesis by (simp add: device_ready_def is_infiniband_def)
  qed (use that port in \<open>simp add: device_ready_def\<close>)
  then have "\<forall>d'. bind_res r (\<lambda>d. if \<not> is_infiniband d then find_roce_v2_gid_index V ctx d else Inr d) = Inr d' \<longrightarrow>
      device_ready V ctx d'"
    by (auto simp: bind_res_eq_Inr)
  with r show ?thesis by (simp add: device_setup_def)
qed


text \<open>Soft-RoCE with its first port down: the second port and the second GID are used.\<close>

definition rxe :: verbs where
  "rxe = \<lparr>get_device_list = (Some [5], 1, 0), get_device_name = (\<lambda>_. ''rxe0''),
     open_device = (\<lambda>_. (Some 9, 0)), query_device = (\<lambda>_. (0, 2)),
     query_port = (\<lambda>_ p. (0, \<lparr>pa_state = if p = 2 then 4 else 1, pa_active_mtu = 3, pa_lid = 0, pa_link_layer = 2\<rparr>)),
     context_device = (\<lambda>_. 5),
     gid_type_file = (\<lambda>path. if path = ''/sys/class/infiniband/rxe0/ports/2/gid_attrs/types/1'' then Some ''RoCE v2'' else None),
     query_gid = (\<lambda>_ _ i. (0, replicate 16 (of_int i)))\<rparr>"

definition rxe_device :: Device where
  "rxe_device = \<lparr>context_ptr = Some 9, port_num = 2,
     port_attr = \<lparr>pa_state = 4, pa_active_mtu = 3, pa_lid = 0, pa_link_layer = 2\<rparr>, gid_index = 1, gid = replicate 16 1\<rparr>"

lemma rxe_opens: "device_ctor rxe [] = Some (Inr rxe_device, [OpenDevice 9, FreeDeviceList])"
proof -
  have digit: "char_of (48::nat) = CHR ''0''" "char_of (49::nat) = CHR ''1''" "char_of (50::nat) = CHR ''2''"
    by code_simp+
  have gid: "gid_loop rxe 9 ''rxe0'' 2 (Suc (Suc n)) 0 = Inr (1, replicate 16 1)" for n
    by (simp add: rxe_def gid_type_path_def to_string.simps digit)
  have "gid_loop rxe 9 ''rxe0'' 2 256 0 = Inr (1, replicate 16 1)"
    using gid [of 254] by simp
  then show ?thesis
    unfolding device_ctor_def device_setup_def find_active_port_def find_roce_v2_gid_index_def
    by (simp add: rxe_def pick_device_def check_ptr_def port_loop.simps [of _ _ _ 1] port_loop.simps [of _ _ _ 2]
        is_infiniband_def blank_device_def rxe_device_def)
qed


text \<open>
  On a device that reports 255 ports, all of which answer and none of which is active, the
  search for an active port never ends: the counter is a \<^verbatim>\<open>uint8_t\<close> and wraps to 0.
\<close>

theorem find_active_port_diverges:
  assumes "query_device V ctx = (0, 255)"
    and "\<forall>q. fst (query_port V ctx q) = 0 \<and> pa_state (snd (query_port V ctx q)) \<noteq> IBV_PORT_ACTIVE"
  shows "find_active_port V ctx d = None"
proof -
  have "port_loop V ctx 255 1 \<noteq> Some r" for r
    using port_loop_255 [of V ctx 255 1 r] assms(2) by auto
  then have "port_loop V ctx 255 1 = None" by (metis option.exhaust)
  then show ?thesis using assms(1) by (simp add: find_active_port_def)
qed

theorem find_active_port_diverges_witness:
  "find_active_port (rxe\<lparr>query_device := \<lambda>_. (0, 255),
      query_port := \<lambda>_ _. (0, \<lparr>pa_state = 1, pa_active_mtu = 3, pa_lid = 0, pa_link_layer = 2\<rparr>)\<rparr>) 9 (blank_device 9) = None"
  by (rule find_active_port_diverges) simp_all

text \<open>
  A device context is closed exactly once, however devices are moved, assigned and
  destroyed: never twice, never while a living device still uses it, and always by the time
  the last device is gone.
\<close>

theorem device_context_closed_once:
  assumes "handle_run device_class ops no_objects = Some t"
  shows "distinct (log t) \<and>
    (\<forall>v d p. objs t v = Some d \<longrightarrow> context_ptr d = Some p \<longrightarrow> Ibv_close_device p \<notin> set (log t)) \<and>
    (objs t = Map.empty \<longrightarrow> set (log t) = Ibv_close_device ` set (created t))"
  using dev.handles_safe [OF assms] by blast

theorem device_context_closed_once_witness:
  "\<exists>t. handle_run device_class [Construct 0 7, MoveConstruct 1 0, Destroy 0, Destroy 1] no_objects = Some t \<and>
     distinct (log t) \<and> set (log t) = {Ibv_close_device 7}"
proof -
  let ?ops = "[Construct 0 7, MoveConstruct 1 0, Destroy 0, Destroy 1]"
  obtain t where t: "handle_run device_class ?ops no_objects = Some t" "objs t = Map.empty" "set (created t) = {7}"
    by (auto simp: no_objects_def device_class_def device_dtor_def device_move_def blank_device_def fun_eq_iff)
  from device_context_closed_once [OF t(1)] t show ?thesis by auto
qed

end
