(* ===== verification/Queue_Pair.thy ===== *)
theory Queue_Pair
  imports Device Endpoint_Info
begin

text \<open>
  \<^verbatim>\<open>src/verbs/queue_pair.cc\<close>: creating a reliable-connection queue pair and walking it through
  RESET, INIT, RTR and RTS. The driver is a parameter; which attributes each transition
  requires is documented for \<^verbatim>\<open>ibv_modify_qp\<close> and is the locale \<open>qp_driver\<close>. Ownership of the
  native object is in theory \<open>Handles\<close>.
\<close>

section \<open>Attributes\<close>

datatype ibv_qp_state = IBV_QPS_RESET | IBV_QPS_INIT | IBV_QPS_RTR | IBV_QPS_RTS | IBV_QPS_ERR

datatype ibv_qp_attr_mask =
    IBV_QP_STATE | IBV_QP_PKEY_INDEX | IBV_QP_PORT | IBV_QP_ACCESS_FLAGS
  | IBV_QP_AV | IBV_QP_PATH_MTU | IBV_QP_DEST_QPN | IBV_QP_RQ_PSN
  | IBV_QP_MAX_DEST_RD_ATOMIC | IBV_QP_MIN_RNR_TIMER
  | IBV_QP_TIMEOUT | IBV_QP_RETRY_CNT | IBV_QP_RNR_RETRY | IBV_QP_SQ_PSN | IBV_QP_MAX_QP_RD_ATOMIC

datatype ibv_access = IBV_ACCESS_LOCAL_WRITE | IBV_ACCESS_REMOTE_WRITE | IBV_ACCESS_REMOTE_READ

datatype ibv_qp_type = IBV_QPT_RC | IBV_QPT_UC | IBV_QPT_UD

record ibv_ah_attr =
  ah_port_num :: byte
  ah_sl :: nat
  ah_src_path_bits :: nat
  ah_is_global :: bool
  ah_dlid :: u16
  grh_dgid :: "byte list"
  grh_sgid_index :: byte
  grh_hop_limit :: nat
  grh_traffic_class :: nat
  grh_flow_label :: nat

record ibv_qp_attr =
  qp_state :: ibv_qp_state
  qa_pkey_index :: nat
  qa_port_num :: byte
  qa_access_flags :: "ibv_access set"
  qa_path_mtu :: int
  qa_dest_qp_num :: u32
  qa_rq_psn :: u32
  qa_max_dest_rd_atomic :: nat
  qa_min_rnr_timer :: nat
  qa_ah :: ibv_ah_attr
  qa_sq_psn :: u32
  qa_timeout :: nat
  qa_retry_cnt :: nat
  qa_rnr_retry :: nat
  qa_max_rd_atomic :: nat

record ibv_qp_init_attr =
  qi_type :: ibv_qp_type
  qi_send_cq :: ptr
  qi_recv_cq :: ptr
  qi_max_send_wr :: u32
  qi_max_recv_wr :: u32
  qi_max_send_sge :: u32
  qi_max_recv_sge :: u32
  qi_sq_sig_all :: bool

text \<open>\<^verbatim>\<open>ibv_qp_attr attr{}\<close>: all fields zero.\<close>

definition zero_ah :: ibv_ah_attr where
  "zero_ah = \<lparr>ah_port_num = 0, ah_sl = 0, ah_src_path_bits = 0, ah_is_global = False, ah_dlid = 0,
     grh_dgid = replicate 16 0, grh_sgid_index = 0, grh_hop_limit = 0, grh_traffic_class = 0, grh_flow_label = 0\<rparr>"

definition zero_attr :: ibv_qp_attr where
  "zero_attr = \<lparr>qp_state = IBV_QPS_RESET, qa_pkey_index = 0, qa_port_num = 0, qa_access_flags = {},
     qa_path_mtu = 0, qa_dest_qp_num = 0, qa_rq_psn = 0, qa_max_dest_rd_atomic = 0, qa_min_rnr_timer = 0,
     qa_ah = zero_ah, qa_sq_psn = 0, qa_timeout = 0, qa_retry_cnt = 0, qa_rnr_retry = 0, qa_max_rd_atomic = 0\<rparr>"

text \<open>
  The driver: \<^verbatim>\<open>ibv_create_qp\<close>, \<^verbatim>\<open>ibv_modify_qp\<close>, the field \<^verbatim>\<open>qp_num\<close> of a queue pair, and a draw from
  \<^verbatim>\<open>std::uniform_int_distribution\<close> with the thread's generator as part of the state.
\<close>

record 's qp_calls =
  create_qp :: "ptr \<Rightarrow> ibv_qp_init_attr \<Rightarrow> 's \<Rightarrow> ptr option \<times> int \<times> 's"
  modify_qp :: "ptr \<Rightarrow> ibv_qp_attr \<Rightarrow> ibv_qp_attr_mask set \<Rightarrow> 's \<Rightarrow> int \<times> 's"
  qp_num_of :: "ptr \<Rightarrow> 's \<Rightarrow> u32"
  draw :: "u32 \<Rightarrow> u32 \<Rightarrow> 's \<Rightarrow> u32 \<times> 's"

section \<open>Operations\<close>

definition qp_ctor ::
    "'s qp_calls \<Rightarrow> ptr \<Rightarrow> ptr \<Rightarrow> ptr \<Rightarrow> u32 \<Rightarrow> u32 \<Rightarrow> u32 \<Rightarrow> 's \<Rightarrow> ptr result \<times> 's" where
  "qp_ctor D pd send_cq recv_cq max_send_wr max_recv_wr max_sge s =
     (case create_qp D pd
        \<lparr>qi_type = IBV_QPT_RC, qi_send_cq = send_cq, qi_recv_cq = recv_cq,
         qi_max_send_wr = max_send_wr, qi_max_recv_wr = max_recv_wr,
         qi_max_send_sge = max_sge, qi_max_recv_sge = max_sge, qi_sq_sig_all = False\<rparr> s of
        (p, errno, s') \<Rightarrow> (check_ptr p errno ''ibv_create_qp'', s'))"

definition generate_psn :: "'s qp_calls \<Rightarrow> 's \<Rightarrow> u32 \<times> 's" where
  "generate_psn D s = draw D 0 0xFFFFFF s"

definition modify_to_init :: "'s qp_calls \<Rightarrow> ptr \<Rightarrow> Device \<Rightarrow> 's \<Rightarrow> unit result \<times> 's" where
  "modify_to_init D qp device s =
     (let attr = zero_attr\<lparr>qp_state := IBV_QPS_INIT, qa_pkey_index := 0, qa_port_num := port_num device,
            qa_access_flags := {IBV_ACCESS_REMOTE_WRITE, IBV_ACCESS_REMOTE_READ, IBV_ACCESS_LOCAL_WRITE}\<rparr>;
          attr_mask = {IBV_QP_STATE, IBV_QP_PKEY_INDEX, IBV_QP_PORT, IBV_QP_ACCESS_FLAGS};
          (rc, s') = modify_qp D qp attr attr_mask s
      in (check_rc rc ''ibv_modify_qp(INIT)'', s'))"

definition rtr_ah :: "Device \<Rightarrow> QpEndpointInfo \<Rightarrow> ibv_ah_attr" where
  "rtr_ah local_device remote =
     (let ah = zero_ah\<lparr>ah_port_num := port_num local_device, ah_sl := 0, ah_src_path_bits := 0\<rparr> in
      if is_infiniband local_device
      then ah\<lparr>ah_is_global := False, ah_dlid := qi_lid remote\<rparr>
      else ah\<lparr>ah_is_global := True, grh_dgid := qi_gid remote,
             grh_sgid_index := word_of_int (gid_index local_device),
             grh_hop_limit := 1, grh_traffic_class := 0, grh_flow_label := 0\<rparr>)"

definition modify_to_rtr :: "'s qp_calls \<Rightarrow> ptr \<Rightarrow> Device \<Rightarrow> QpEndpointInfo \<Rightarrow> 's \<Rightarrow> unit result \<times> 's" where
  "modify_to_rtr D qp local_device remote s =
     (let local_mtu = pa_active_mtu (port_attr local_device);
          remote_mtu = int (unat (qi_mtu remote));
          attr = zero_attr\<lparr>qp_state := IBV_QPS_RTR, qa_path_mtu := min local_mtu remote_mtu,
            qa_dest_qp_num := qi_qp_num remote, qa_rq_psn := qi_psn remote,
            qa_max_dest_rd_atomic := 1, qa_min_rnr_timer := 12, qa_ah := rtr_ah local_device remote\<rparr>;
          attr_mask = {IBV_QP_STATE, IBV_QP_AV, IBV_QP_PATH_MTU, IBV_QP_DEST_QPN, IBV_QP_RQ_PSN,
                  IBV_QP_MAX_DEST_RD_ATOMIC, IBV_QP_MIN_RNR_TIMER};
          (rc, s') = modify_qp D qp attr attr_mask s
      in (check_rc rc ''ibv_modify_qp(RTR)'', s'))"

definition modify_to_rts :: "'s qp_calls \<Rightarrow> ptr \<Rightarrow> u32 \<Rightarrow> 's \<Rightarrow> unit result \<times> 's" where
  "modify_to_rts D qp local_psn s =
     (let attr = zero_attr\<lparr>qp_state := IBV_QPS_RTS, qa_sq_psn := local_psn, qa_timeout := 14,
            qa_retry_cnt := 7, qa_rnr_retry := 7, qa_max_rd_atomic := 1\<rparr>;
          attr_mask = {IBV_QP_STATE, IBV_QP_TIMEOUT, IBV_QP_RETRY_CNT, IBV_QP_RNR_RETRY, IBV_QP_SQ_PSN,
                  IBV_QP_MAX_QP_RD_ATOMIC};
          (rc, s') = modify_qp D qp attr attr_mask s
      in (check_rc rc ''ibv_modify_qp(RTS)'', s'))"

definition zero_info :: QpEndpointInfo where
  "zero_info = \<lparr>qi_rank = 0, qi_qp_num = 0, qi_psn = 0, qi_lid = 0, qi_port_num = 0, qi_mtu = 0,
     qi_gid_index = 0, qi_gid = replicate 16 0, qi_rkey = 0, qi_addr = 0, qi_buf_len = 0\<rparr>"

definition local_info :: "'s qp_calls \<Rightarrow> ptr \<Rightarrow> Device \<Rightarrow> u32 \<Rightarrow> u32 \<Rightarrow> 's \<Rightarrow> QpEndpointInfo" where
  "local_info D qp device rank local_psn s =
     (let info = zero_info\<lparr>qi_rank := rank, qi_qp_num := qp_num_of D qp s, qi_psn := local_psn,
            qi_port_num := port_num device, qi_mtu := word_of_int (pa_active_mtu (port_attr device))\<rparr> in
      if is_infiniband device then info\<lparr>qi_lid := pa_lid (port_attr device)\<rparr>
      else info\<lparr>qi_gid_index := word_of_int (gid_index device), qi_gid := gid device\<rparr>)"

section \<open>The driver's contract\<close>

text \<open>What a driver keeps of a queue pair.\<close>

record qp_hw =
  hw_num :: u32
  hw_init :: ibv_qp_init_attr
  hw_attr :: ibv_qp_attr

text \<open>Required and optional attributes of the transitions of a reliable connection.\<close>

fun required_mask :: "ibv_qp_state \<Rightarrow> ibv_qp_state \<Rightarrow> ibv_qp_attr_mask set option" where
  "required_mask IBV_QPS_RESET IBV_QPS_INIT =
     Some {IBV_QP_STATE, IBV_QP_PKEY_INDEX, IBV_QP_PORT, IBV_QP_ACCESS_FLAGS}"
| "required_mask IBV_QPS_INIT IBV_QPS_RTR =
     Some {IBV_QP_STATE, IBV_QP_AV, IBV_QP_PATH_MTU, IBV_QP_DEST_QPN, IBV_QP_RQ_PSN,
           IBV_QP_MAX_DEST_RD_ATOMIC, IBV_QP_MIN_RNR_TIMER}"
| "required_mask IBV_QPS_RTR IBV_QPS_RTS =
     Some {IBV_QP_STATE, IBV_QP_SQ_PSN, IBV_QP_TIMEOUT, IBV_QP_RETRY_CNT, IBV_QP_RNR_RETRY,
           IBV_QP_MAX_QP_RD_ATOMIC}"
| "required_mask _ _ = None"

fun optional_mask :: "ibv_qp_state \<Rightarrow> ibv_qp_attr_mask set" where
  "optional_mask IBV_QPS_RTR = {IBV_QP_PKEY_INDEX, IBV_QP_ACCESS_FLAGS}"
| "optional_mask IBV_QPS_RTS = {IBV_QP_ACCESS_FLAGS, IBV_QP_MIN_RNR_TIMER}"
| "optional_mask _ = {}"

definition modify_allowed :: "ibv_qp_state \<Rightarrow> ibv_qp_state \<Rightarrow> ibv_qp_attr_mask set \<Rightarrow> bool" where
  "modify_allowed cur new attr_mask \<longleftrightarrow>
     (case required_mask cur new of None \<Rightarrow> False
      | Some req \<Rightarrow> req \<subseteq> attr_mask \<and> attr_mask \<subseteq> req \<union> optional_mask new)"

text \<open>The masked attributes are taken over, the others stay.\<close>

definition merge_attr :: "ibv_qp_attr \<Rightarrow> ibv_qp_attr_mask set \<Rightarrow> ibv_qp_attr \<Rightarrow> ibv_qp_attr" where
  "merge_attr a m old =
     \<lparr>qp_state = qp_state (if IBV_QP_STATE \<in> m then a else old),
      qa_pkey_index = qa_pkey_index (if IBV_QP_PKEY_INDEX \<in> m then a else old),
      qa_port_num = qa_port_num (if IBV_QP_PORT \<in> m then a else old),
      qa_access_flags = qa_access_flags (if IBV_QP_ACCESS_FLAGS \<in> m then a else old),
      qa_path_mtu = qa_path_mtu (if IBV_QP_PATH_MTU \<in> m then a else old),
      qa_dest_qp_num = qa_dest_qp_num (if IBV_QP_DEST_QPN \<in> m then a else old),
      qa_rq_psn = qa_rq_psn (if IBV_QP_RQ_PSN \<in> m then a else old),
      qa_max_dest_rd_atomic = qa_max_dest_rd_atomic (if IBV_QP_MAX_DEST_RD_ATOMIC \<in> m then a else old),
      qa_min_rnr_timer = qa_min_rnr_timer (if IBV_QP_MIN_RNR_TIMER \<in> m then a else old),
      qa_ah = qa_ah (if IBV_QP_AV \<in> m then a else old),
      qa_sq_psn = qa_sq_psn (if IBV_QP_SQ_PSN \<in> m then a else old),
      qa_timeout = qa_timeout (if IBV_QP_TIMEOUT \<in> m then a else old),
      qa_retry_cnt = qa_retry_cnt (if IBV_QP_RETRY_CNT \<in> m then a else old),
      qa_rnr_retry = qa_rnr_retry (if IBV_QP_RNR_RETRY \<in> m then a else old),
      qa_max_rd_atomic = qa_max_rd_atomic (if IBV_QP_MAX_QP_RD_ATOMIC \<in> m then a else old)\<rparr>"

locale qp_driver =
  fixes D :: "'s qp_calls" and hw :: "'s \<Rightarrow> ptr \<rightharpoonup> qp_hw"
  assumes create_ok: "\<exists>p num errno s'. create_qp D pd ia s = (Some p, errno, s') \<and> hw s p = None \<and>
      hw s' = (hw s)(p \<mapsto> \<lparr>hw_num = num, hw_init = ia, hw_attr = zero_attr\<rparr>)"
    and modify_ok: "hw s p = Some h \<Longrightarrow> modify_qp D p attr attr_mask s = (rc, s') \<Longrightarrow>
      if modify_allowed (qp_state (hw_attr h)) (qp_state attr) attr_mask
      then rc = 0 \<and> hw s' = (hw s)(p \<mapsto> h\<lparr>hw_attr := merge_attr attr attr_mask (hw_attr h)\<rparr>)
      else rc \<noteq> 0 \<and> hw s' = hw s"
    and num_ok: "hw s p = Some h \<Longrightarrow> qp_num_of D p s = hw_num h"
    and draw_ok: "lo \<le> hi \<Longrightarrow> draw D lo hi s = (v, s') \<Longrightarrow> lo \<le> v \<and> v \<le> hi \<and> hw s' = hw s"
begin

lemma init_step:
  assumes "hw s p = Some h" "qp_state (hw_attr h) = IBV_QPS_RESET"
  shows "\<exists>s' h'. modify_to_init D p d s = (Inr (), s') \<and> hw s' = (hw s)(p \<mapsto> h') \<and> hw_num h' = hw_num h \<and>
    hw_init h' = hw_init h \<and> qp_state (hw_attr h') = IBV_QPS_INIT \<and> qa_port_num (hw_attr h') = port_num d"
proof -
  let ?attr = "zero_attr\<lparr>qp_state := IBV_QPS_INIT, qa_pkey_index := 0, qa_port_num := port_num d,
    qa_access_flags := {IBV_ACCESS_REMOTE_WRITE, IBV_ACCESS_REMOTE_READ, IBV_ACCESS_LOCAL_WRITE}\<rparr>"
  let ?attr_mask = "{IBV_QP_STATE, IBV_QP_PKEY_INDEX, IBV_QP_PORT, IBV_QP_ACCESS_FLAGS}"
  obtain rc s' where m: "modify_qp D p ?attr ?attr_mask s = (rc, s')" by force
  from modify_ok [OF assms(1) m] assms(2) show ?thesis
    unfolding modify_to_init_def Let_def m by (auto simp: modify_allowed_def merge_attr_def zero_attr_def)
qed

lemma rtr_step:
  assumes "hw s p = Some h" "qp_state (hw_attr h) = IBV_QPS_INIT"
  shows "\<exists>s' h'. modify_to_rtr D p d remote s = (Inr (), s') \<and> hw s' = (hw s)(p \<mapsto> h') \<and> hw_num h' = hw_num h \<and>
    hw_init h' = hw_init h \<and> qp_state (hw_attr h') = IBV_QPS_RTR \<and> qa_port_num (hw_attr h') = qa_port_num (hw_attr h) \<and>
    qa_path_mtu (hw_attr h') = min (pa_active_mtu (port_attr d)) (int (unat (qi_mtu remote))) \<and>
    qa_dest_qp_num (hw_attr h') = qi_qp_num remote \<and> qa_rq_psn (hw_attr h') = qi_psn remote \<and>
    qa_ah (hw_attr h') = rtr_ah d remote"
proof -
  let ?attr = "zero_attr\<lparr>qp_state := IBV_QPS_RTR,
    qa_path_mtu := min (pa_active_mtu (port_attr d)) (int (unat (qi_mtu remote))),
    qa_dest_qp_num := qi_qp_num remote, qa_rq_psn := qi_psn remote,
    qa_max_dest_rd_atomic := 1, qa_min_rnr_timer := 12, qa_ah := rtr_ah d remote\<rparr>"
  let ?attr_mask = "{IBV_QP_STATE, IBV_QP_AV, IBV_QP_PATH_MTU, IBV_QP_DEST_QPN, IBV_QP_RQ_PSN,
    IBV_QP_MAX_DEST_RD_ATOMIC, IBV_QP_MIN_RNR_TIMER}"
  obtain rc s' where m: "modify_qp D p ?attr ?attr_mask s = (rc, s')" by force
  from modify_ok [OF assms(1) m] assms(2) show ?thesis
    unfolding modify_to_rtr_def Let_def m by (auto simp: modify_allowed_def merge_attr_def zero_attr_def)
qed

lemma rts_step:
  assumes "hw s p = Some h" "qp_state (hw_attr h) = IBV_QPS_RTR"
  shows "\<exists>s' h'. modify_to_rts D p psn s = (Inr (), s') \<and> hw s' = (hw s)(p \<mapsto> h') \<and> hw_num h' = hw_num h \<and>
    hw_init h' = hw_init h \<and>
    hw_attr h' = (hw_attr h)\<lparr>qp_state := IBV_QPS_RTS, qa_sq_psn := psn, qa_timeout := 14, qa_retry_cnt := 7,
      qa_rnr_retry := 7, qa_max_rd_atomic := 1\<rparr>"
proof -
  let ?attr = "zero_attr\<lparr>qp_state := IBV_QPS_RTS, qa_sq_psn := psn, qa_timeout := 14,
    qa_retry_cnt := 7, qa_rnr_retry := 7, qa_max_rd_atomic := 1\<rparr>"
  let ?attr_mask = "{IBV_QP_STATE, IBV_QP_TIMEOUT, IBV_QP_RETRY_CNT, IBV_QP_RNR_RETRY, IBV_QP_SQ_PSN,
    IBV_QP_MAX_QP_RD_ATOMIC}"
  obtain rc s' where m: "modify_qp D p ?attr ?attr_mask s = (rc, s')" by force
  from modify_ok [OF assms(1) m] assms(2) show ?thesis
    unfolding modify_to_rts_def Let_def m by (auto simp: modify_allowed_def merge_attr_def zero_attr_def)
qed

lemma modify_rejected:
  assumes "hw s p = Some h" "modify_qp D p attr am s = (rc, s')"
    "required_mask (qp_state (hw_attr h)) (qp_state attr) = None"
  shows "rc \<noteq> 0 \<and> hw s' = hw s"
  using modify_ok [OF assms(1,2)] assms(3) by (simp add: modify_allowed_def)

end

section \<open>A driver for examples\<close>

text \<open>Queue pairs are numbered in the order of their creation.\<close>

record sim =
  sim_qps :: "qp_hw list"
  sim_seed :: u32

definition sim_hw :: "sim \<Rightarrow> ptr \<rightharpoonup> qp_hw" where
  "sim_hw s = (\<lambda>p. if p < length (sim_qps s) then Some (sim_qps s ! p) else None)"

definition sim_modify :: "ptr \<Rightarrow> ibv_qp_attr \<Rightarrow> ibv_qp_attr_mask set \<Rightarrow> sim \<Rightarrow> int \<times> sim" where
  "sim_modify p attr am s =
     (if p < length (sim_qps s) \<and> modify_allowed (qp_state (hw_attr (sim_qps s ! p))) (qp_state attr) am
      then (0, s\<lparr>sim_qps := (sim_qps s)[p := (sim_qps s ! p)
             \<lparr>hw_attr := merge_attr attr am (hw_attr (sim_qps s ! p))\<rparr>]\<rparr>)
      else (22, s))"

definition sim_driver :: "sim qp_calls" where
  "sim_driver =
     \<lparr>create_qp = (\<lambda>pd ia s. (Some (length (sim_qps s)), 0,
        s\<lparr>sim_qps := sim_qps s @ [\<lparr>hw_num = of_nat (length (sim_qps s)), hw_init = ia, hw_attr = zero_attr\<rparr>]\<rparr>)),
      modify_qp = sim_modify,
      qp_num_of = (\<lambda>p s. hw_num (sim_qps s ! p)),
      draw = (\<lambda>lo hi s. (min hi (max lo (sim_seed s)), s\<lparr>sim_seed := sim_seed s + 1\<rparr>))\<rparr>"

interpretation sim: qp_driver sim_driver sim_hw
proof unfold_locales
  fix s :: sim and p h attr am rc s' pd ia lo hi v
  show "\<exists>p num errno s'. create_qp sim_driver pd ia s = (Some p, errno, s') \<and> sim_hw s p = None \<and>
      sim_hw s' = (sim_hw s)(p \<mapsto> \<lparr>hw_num = num, hw_init = ia, hw_attr = zero_attr\<rparr>)"
    by (auto simp: sim_driver_def sim_hw_def fun_eq_iff nth_append)
  show "if modify_allowed (qp_state (hw_attr h)) (qp_state attr) am
      then rc = 0 \<and> sim_hw s' = (sim_hw s)(p \<mapsto> h\<lparr>hw_attr := merge_attr attr am (hw_attr h)\<rparr>)
      else rc \<noteq> 0 \<and> sim_hw s' = sim_hw s"
    if "sim_hw s p = Some h" "modify_qp sim_driver p attr am s = (rc, s')"
    using that by (auto simp: sim_driver_def sim_modify_def sim_hw_def fun_eq_iff split: if_splits)
  show "sim_hw s p = Some h \<Longrightarrow> qp_num_of sim_driver p s = hw_num h"
    by (simp add: sim_driver_def sim_hw_def split: if_splits)
  show "lo \<le> hi \<Longrightarrow> draw sim_driver lo hi s = (v, s') \<Longrightarrow> lo \<le> v \<and> v \<le> hi \<and> sim_hw s' = sim_hw s"
    by (auto simp: sim_driver_def sim_hw_def)
qed

section \<open>Properties\<close>

text \<open>
  C16: walking a fresh queue pair through \<^verbatim>\<open>modify_to_init\<close>, \<^verbatim>\<open>modify_to_rtr\<close> and \<^verbatim>\<open>modify_to_rts\<close> gives the
  driver every attribute it requires: all three succeed and leave the queue pair ready to
  send on the device's port, connected to the peer's queue pair, expecting the peer's
  sequence number, using its own, with the smaller of the two MTUs, and addressing the
  peer by LID on InfiniBand and by GID otherwise; no other queue pair changes.
\<close>

theorem qp_handshake:
  assumes "qp_driver D hw" "hw s p = Some h" "qp_state (hw_attr h) = IBV_QPS_RESET"
  shows "\<exists>s1 s2 s3 h'. modify_to_init D p d s = (Inr (), s1) \<and> modify_to_rtr D p d remote s1 = (Inr (), s2) \<and>
    modify_to_rts D p psn s2 = (Inr (), s3) \<and> hw s3 = (hw s)(p \<mapsto> h') \<and> hw_num h' = hw_num h \<and>
    qp_state (hw_attr h') = IBV_QPS_RTS \<and> qa_port_num (hw_attr h') = port_num d \<and>
    qa_dest_qp_num (hw_attr h') = qi_qp_num remote \<and> qa_rq_psn (hw_attr h') = qi_psn remote \<and>
    qa_sq_psn (hw_attr h') = psn \<and>
    qa_path_mtu (hw_attr h') = min (pa_active_mtu (port_attr d)) (int (unat (qi_mtu remote))) \<and>
    (if is_infiniband d
     then \<not> ah_is_global (qa_ah (hw_attr h')) \<and> ah_dlid (qa_ah (hw_attr h')) = qi_lid remote
     else ah_is_global (qa_ah (hw_attr h')) \<and> grh_dgid (qa_ah (hw_attr h')) = qi_gid remote)"
proof -
  obtain s1 h1 where 1: "modify_to_init D p d s = (Inr (), s1)" "hw s1 = (hw s)(p \<mapsto> h1)" "hw_num h1 = hw_num h"
    "qp_state (hw_attr h1) = IBV_QPS_INIT" "qa_port_num (hw_attr h1) = port_num d"
    using qp_driver.init_step [OF assms] by metis
  obtain s2 h2 where 2: "modify_to_rtr D p d remote s1 = (Inr (), s2)" "hw s2 = (hw s1)(p \<mapsto> h2)" "hw_num h2 = hw_num h1"
    "qp_state (hw_attr h2) = IBV_QPS_RTR" "qa_port_num (hw_attr h2) = qa_port_num (hw_attr h1)"
    "qa_path_mtu (hw_attr h2) = min (pa_active_mtu (port_attr d)) (int (unat (qi_mtu remote)))"
    "qa_dest_qp_num (hw_attr h2) = qi_qp_num remote" "qa_rq_psn (hw_attr h2) = qi_psn remote"
    "qa_ah (hw_attr h2) = rtr_ah d remote"
    using qp_driver.rtr_step [OF assms(1), of s1 p h1 d remote] 1 by auto
  obtain s3 h3 where 3: "modify_to_rts D p psn s2 = (Inr (), s3)" "hw s3 = (hw s2)(p \<mapsto> h3)" "hw_num h3 = hw_num h2"
    "hw_attr h3 = (hw_attr h2)\<lparr>qp_state := IBV_QPS_RTS, qa_sq_psn := psn, qa_timeout := 14, qa_retry_cnt := 7,
      qa_rnr_retry := 7, qa_max_rd_atomic := 1\<rparr>"
    using qp_driver.rts_step [OF assms(1), of s2 p h2 psn] 2 by auto
  from 1 2 3 show ?thesis
    by (intro exI [of _ s1] exI [of _ s2] exI [of _ s3] exI [of _ h3]) (simp add: rtr_ah_def Let_def)
qed

definition sample_device :: "bool \<Rightarrow> Device" where
  "sample_device ib = \<lparr>context_ptr = Some 9, port_num = 1,
     port_attr = \<lparr>pa_state = 4, pa_active_mtu = 4, pa_lid = 17, pa_link_layer = if ib then 1 else 2\<rparr>,
     gid_index = if ib then -1 else 1, gid = replicate 16 (if ib then 0 else 0xFE)\<rparr>"

definition one_qp :: sim where
  "one_qp = \<lparr>sim_qps = [\<lparr>hw_num = 5, hw_init = \<lparr>qi_type = IBV_QPT_RC, qi_send_cq = 1, qi_recv_cq = 2,
     qi_max_send_wr = 64, qi_max_recv_wr = 64, qi_max_send_sge = 1, qi_max_recv_sge = 1, qi_sq_sig_all = False\<rparr>, hw_attr = zero_attr\<rparr>],
     sim_seed = 77\<rparr>"

theorem qp_handshake_witness:
  "\<exists>s1 s2 s3 h'. modify_to_init sim_driver 0 (sample_device False) one_qp = (Inr (), s1) \<and>
     modify_to_rtr sim_driver 0 (sample_device False) sample_info s1 = (Inr (), s2) \<and>
     modify_to_rts sim_driver 0 77 s2 = (Inr (), s3) \<and> sim_hw s3 0 = Some h' \<and>
     qp_state (hw_attr h') = IBV_QPS_RTS \<and> qa_path_mtu (hw_attr h') = 3 \<and>
     grh_dgid (qa_ah (hw_attr h')) = replicate 16 0xFE"
proof -
  have "\<exists>h. sim_hw one_qp 0 = Some h \<and> qp_state (hw_attr h) = IBV_QPS_RESET"
    by (simp add: sim_hw_def one_qp_def zero_attr_def)
  then obtain h where "sim_hw one_qp 0 = Some h" "qp_state (hw_attr h) = IBV_QPS_RESET" by blast
  from qp_handshake [OF sim.qp_driver_axioms this, of "sample_device False" sample_info 77] show ?thesis
    by (fastforce simp: sample_device_def sample_info_def is_infiniband_def)
qed



end
