(* ===== verification/Communicator.thy ===== *)
theory Communicator
  imports Queue_Pair Bootstrap "HOL-Library.Multiset"
begin

text \<open>
  The body of the constructor of \<^verbatim>\<open>src/communicator/communicator.cc\<close>: one queue pair per peer, an exchange of
  endpoint information over the bootstrap, and the connection of every queue pair. The
  members (protection domain, completion queues, bootstrap) are constructed before
  it, see the theories \<open>Handles\<close> and \<open>Rendezvous\<close>. The main result is that all ranks together
  build a full mesh.
\<close>

section \<open>The constructor\<close>

text \<open>
  The maps \<^verbatim>\<open>qps_\<close>, \<^verbatim>\<open>local_psn\<close> and \<^verbatim>\<open>outgoing\<close> are association lists in the order of insertion. The
  first loop, over the peers still to come.
\<close>

fun prepare_loop ::
    "'s qp_calls \<Rightarrow> Device \<Rightarrow> ptr \<Rightarrow> ptr \<Rightarrow> ptr \<Rightarrow> int \<Rightarrow> int list \<Rightarrow> 's \<Rightarrow>
      ((int \<times> ptr) list \<times> (int \<times> u32) list \<times> entry list) result \<times> 's" where
  "prepare_loop D device pd send_cq recv_cq rank [] s = (Inr ([], [], []), s)"
| "prepare_loop D device pd send_cq recv_cq rank (peer # peers) s =
     (if peer = rank then prepare_loop D device pd send_cq recv_cq rank peers s
      else case qp_ctor D pd send_cq recv_cq 64 64 1 s of
        (Inl e, s) \<Rightarrow> (Inl e, s)
      | (Inr qp, s) \<Rightarrow> (case modify_to_init D qp device s of
          (Inl e, s) \<Rightarrow> (Inl e, s)
        | (Inr _, s) \<Rightarrow> (case generate_psn D s of (psn, s) \<Rightarrow>
            let info = local_info D qp device (word_of_int rank) psn s in
            case prepare_loop D device pd send_cq recv_cq rank peers s of
              (Inl e, s) \<Rightarrow> (Inl e, s)
            | (Inr (qps, local_psn, outgoing), s) \<Rightarrow>
                (Inr ((peer, qp) # qps, (peer, psn) # local_psn, (peer, info) # outgoing), s))))"

text \<open>The second loop. \<^verbatim>\<open>at\<close> throws \<^verbatim>\<open>std::out_of_range\<close>.\<close>

definition at :: "('k \<rightharpoonup> 'v) \<Rightarrow> 'k \<Rightarrow> 'v result" where
  "at m k = (case m k of None \<Rightarrow> Inl OutOfRange | Some v \<Rightarrow> Inr v)"

fun finish_loop ::
    "'s qp_calls \<Rightarrow> Device \<Rightarrow> int \<Rightarrow> (int \<times> ptr) list \<Rightarrow> (int \<times> u32) list \<Rightarrow> (int \<rightharpoonup> QpEndpointInfo) \<Rightarrow>
      int list \<Rightarrow> 's \<Rightarrow> unit result \<times> 's" where
  "finish_loop D device rank qps local_psn incoming [] s = (Inr (), s)"
| "finish_loop D device rank qps local_psn incoming (peer # peers) s =
     (if peer = rank then finish_loop D device rank qps local_psn incoming peers s
      else case at (map_of qps) peer of
        Inl e \<Rightarrow> (Inl e, s)
      | Inr qp \<Rightarrow> (case at incoming peer of
          Inl e \<Rightarrow> (Inl e, s)
        | Inr remote \<Rightarrow> (case modify_to_rtr D qp device remote s of
            (Inl e, s) \<Rightarrow> (Inl e, s)
          | (Inr _, s) \<Rightarrow> (case at (map_of local_psn) peer of
              Inl e \<Rightarrow> (Inl e, s)
            | Inr psn \<Rightarrow> (case modify_to_rts D qp psn s of
                (Inl e, s) \<Rightarrow> (Inl e, s)
              | (Inr _, s) \<Rightarrow> finish_loop D device rank qps local_psn incoming peers s)))))"

text \<open>
  \<open>iter\<close> is the order in which iterating over an \<^verbatim>\<open>unordered_map\<close> visits its entries. The result is
  the map of queue pairs and the final state of the driver.
\<close>

definition communicator_body ::
    "'s qp_calls \<Rightarrow> Device \<Rightarrow> ptr \<Rightarrow> ptr \<Rightarrow> ptr \<Rightarrow> TcpBootstrap \<Rightarrow> int \<Rightarrow> int \<Rightarrow> (entry list \<Rightarrow> entry list) \<Rightarrow> 's \<Rightarrow>
      ((int \<times> ptr) list \<times> 's) bprog" where
  "communicator_body D device pd send_cq recv_cq b rank world_size iter s =
     (if world_size < 1 \<or> rank < 0 \<or> rank \<ge> world_size
      then BThrow (InvalidArgument ''Communicator: invalid rank/world_size'')
      else let peers = map int [0..<nat world_size] in
        case prepare_loop D device pd send_cq recv_cq rank peers s of
          (Inl e, s) \<Rightarrow> BThrow e
        | (Inr (qps, local_psn, outgoing), s) \<Rightarrow>
            exchange b (iter outgoing) (\<lambda>incoming.
              case finish_loop D device rank qps local_psn incoming peers s of
                (Inl e, s) \<Rightarrow> BThrow e
              | (Inr _, s) \<Rightarrow> BRet (qps, s)))"

section \<open>One rank\<close>

text \<open>What \<^verbatim>\<open>local_info\<close> says, given the number of the queue pair.\<close>

definition info_of :: "Device \<Rightarrow> u32 \<Rightarrow> u32 \<Rightarrow> u32 \<Rightarrow> QpEndpointInfo" where
  "info_of device rank psn num =
     (let info = zero_info\<lparr>qi_rank := rank, qi_qp_num := num, qi_psn := psn, qi_port_num := port_num device,
            qi_mtu := word_of_int (pa_active_mtu (port_attr device))\<rparr> in
      if is_infiniband device then info\<lparr>qi_lid := pa_lid (port_attr device)\<rparr>
      else info\<lparr>qi_gid_index := word_of_int (gid_index device), qi_gid := gid device\<rparr>)"

lemma local_info_eq: "local_info D qp device rank psn s = info_of device rank psn (qp_num_of D qp s)"
  by (simp add: local_info_def info_of_def)

lemma info_of_sel [simp]:
  "qi_rank (info_of d r v n) = r" "qi_qp_num (info_of d r v n) = n" "qi_psn (info_of d r v n) = v"
  "qi_mtu (info_of d r v n) = word_of_int (pa_active_mtu (port_attr d))"
  "is_infiniband d \<Longrightarrow> qi_lid (info_of d r v n) = pa_lid (port_attr d)"
  "\<not> is_infiniband d \<Longrightarrow> qi_gid (info_of d r v n) = gid d"
  "info_wf (info_of d r v n) \<longleftrightarrow> is_infiniband d \<or> length (gid d) = 16"
  by (auto simp: info_of_def Let_def info_wf_def zero_info_def)

text \<open>After the first loop: a queue pair in INIT for every peer, new and distinct, described by \<open>outgoing\<close>.\<close>

definition prepared ::
    "('s \<Rightarrow> ptr \<rightharpoonup> qp_hw) \<Rightarrow> Device \<Rightarrow> int \<Rightarrow> int list \<Rightarrow> 's \<Rightarrow>
      (int \<times> ptr) list \<Rightarrow> (int \<times> u32) list \<Rightarrow> entry list \<Rightarrow> 's \<Rightarrow> bool" where
  "prepared hw d rank ps s qps psns out t \<longleftrightarrow>
     map fst qps = ps \<and> map fst psns = ps \<and> map fst out = ps \<and> distinct (map snd qps) \<and>
     snd ` set qps \<inter> dom (hw s) = {} \<and> (\<forall>p\<in>dom (hw s). hw t p = hw s p) \<and>
     (\<forall>q\<in>set ps. \<exists>p h v. map_of qps q = Some p \<and> hw t p = Some h \<and> qp_state (hw_attr h) = IBV_QPS_INIT \<and>
        map_of psns q = Some v \<and> v \<le> 0xFFFFFF \<and> map_of out q = Some (info_of d (word_of_int rank) v (hw_num h)))"

text \<open>A queue pair that is connected with the endpoint \<open>remote\<close> and sends from sequence number \<open>v\<close> on.\<close>

definition links_to :: "Device \<Rightarrow> QpEndpointInfo \<Rightarrow> u32 \<Rightarrow> qp_hw \<Rightarrow> bool" where
  "links_to d remote v h \<longleftrightarrow>
     qp_state (hw_attr h) = IBV_QPS_RTS \<and> qa_dest_qp_num (hw_attr h) = qi_qp_num remote \<and>
     qa_rq_psn (hw_attr h) = qi_psn remote \<and> qa_sq_psn (hw_attr h) = v \<and>
     qa_path_mtu (hw_attr h) = min (pa_active_mtu (port_attr d)) (int (unat (qi_mtu remote))) \<and>
     qa_ah (hw_attr h) = rtr_ah d remote"

lemma map_of_snd_inj:
  "distinct (map snd xs) \<Longrightarrow> map_of xs q = Some p \<Longrightarrow> map_of xs q' = Some p \<Longrightarrow> q = q'"
  using map_of_SomeD [of xs q p] map_of_SomeD [of xs q' p] by (fastforce simp: distinct_map inj_on_def)

context qp_driver
begin

lemma new_qp:
  "\<exists>p h s1 s2 v s3. qp_ctor D pd scq rcq ms mr sge s = (Inr p, s1) \<and> modify_to_init D p d s1 = (Inr (), s2) \<and>
    generate_psn D s2 = (v, s3) \<and> hw s p = None \<and> hw s3 = (hw s)(p \<mapsto> h) \<and>
    qp_state (hw_attr h) = IBV_QPS_INIT \<and> v \<le> 0xFFFFFF \<and> qp_num_of D p s3 = hw_num h"
proof -
  obtain p num errno s1 ia where 1: "qp_ctor D pd scq rcq ms mr sge s = (Inr p, s1)" "hw s p = None"
    "hw s1 = (hw s)(p \<mapsto> \<lparr>hw_num = num, hw_init = ia, hw_attr = zero_attr\<rparr>)"
    unfolding qp_ctor_def check_ptr_def using create_ok by (smt (verit) case_prod_conv option.simps(5))
  then obtain s2 h where 2: "modify_to_init D p d s1 = (Inr (), s2)" "hw s2 = (hw s)(p \<mapsto> h)"
    "qp_state (hw_attr h) = IBV_QPS_INIT"
    using init_step [of s1 p "\<lparr>hw_num = num, hw_init = ia, hw_attr = zero_attr\<rparr>" d]
    by (auto simp: zero_attr_def)
  obtain v s3 where 3: "generate_psn D s2 = (v, s3)" by force
  with draw_ok [of 0 "0xFFFFFF" s2 v s3] have "v \<le> 0xFFFFFF" "hw s3 = hw s2" by (auto simp: generate_psn_def)
  with 1 2 3 show ?thesis using num_ok [of s3 p h] by auto
qed

lemma prepare_loop_ok:
  "distinct peers \<Longrightarrow> \<exists>qps psns out t. prepare_loop D d pd scq rcq rank peers s = (Inr (qps, psns, out), t) \<and>
     prepared hw d rank (filter (\<lambda>q. q \<noteq> rank) peers) s qps psns out t"
proof (induction peers arbitrary: s)
  case Nil
  then show ?case by (simp add: prepared_def)
next
  case (Cons peer peers)
  show ?case
  proof (cases "peer = rank")
    case False
    obtain p h s1 s2 v s3 where new: "qp_ctor D pd scq rcq 64 64 1 s = (Inr p, s1)"
      "modify_to_init D p d s1 = (Inr (), s2)" "generate_psn D s2 = (v, s3)" "hw s p = None"
      "hw s3 = (hw s)(p \<mapsto> h)" "qp_state (hw_attr h) = IBV_QPS_INIT" "v \<le> 0xFFFFFF" "qp_num_of D p s3 = hw_num h"
      using new_qp by metis
    obtain qps psns out t where rest: "prepare_loop D d pd scq rcq rank peers s3 = (Inr (qps, psns, out), t)"
      "prepared hw d rank (filter (\<lambda>q. q \<noteq> rank) peers) s3 qps psns out t"
      using Cons.IH [of s3] Cons.prems by auto
    have "prepare_loop D d pd scq rcq rank (peer # peers) s =
        (Inr ((peer, p) # qps, (peer, v) # psns, (peer, info_of d (word_of_int rank) v (hw_num h)) # out), t)"
      using False new rest(1) by (simp add: local_info_eq)
    moreover have "prepared hw d rank (filter (\<lambda>q. q \<noteq> rank) (peer # peers)) s ((peer, p) # qps) ((peer, v) # psns)
        ((peer, info_of d (word_of_int rank) v (hw_num h)) # out) t"
      using rest(2) new(4-7) False Cons.prems unfolding prepared_def by (auto simp: dom_def)
    ultimately show ?thesis by blast
  qed (use Cons in auto)
qed

lemma connect_qp:
  assumes "hw s p = Some h0" "qp_state (hw_attr h0) = IBV_QPS_INIT"
  shows "\<exists>s1 s2 h. modify_to_rtr D p d remote s = (Inr (), s1) \<and> modify_to_rts D p v s1 = (Inr (), s2) \<and>
    hw s2 = (hw s)(p \<mapsto> h) \<and> links_to d remote v h \<and> hw_num h = hw_num h0"
proof -
  obtain s1 h1 where 1: "modify_to_rtr D p d remote s = (Inr (), s1)" "hw s1 = (hw s)(p \<mapsto> h1)"
    "hw_num h1 = hw_num h0" "qp_state (hw_attr h1) = IBV_QPS_RTR"
    "qa_path_mtu (hw_attr h1) = min (pa_active_mtu (port_attr d)) (int (unat (qi_mtu remote)))"
    "qa_dest_qp_num (hw_attr h1) = qi_qp_num remote" "qa_rq_psn (hw_attr h1) = qi_psn remote"
    "qa_ah (hw_attr h1) = rtr_ah d remote"
    using rtr_step [OF assms, of d remote] by blast
  then obtain s2 h where "modify_to_rts D p v s1 = (Inr (), s2)" "hw s2 = (hw s1)(p \<mapsto> h)" "hw_num h = hw_num h1"
    "hw_attr h = (hw_attr h1)\<lparr>qp_state := IBV_QPS_RTS, qa_sq_psn := v, qa_timeout := 14, qa_retry_cnt := 7,
      qa_rnr_retry := 7, qa_max_rd_atomic := 1\<rparr>"
    using rts_step [of s1 p h1 v] by auto
  with 1 show ?thesis
    by (intro exI [of _ s1] exI [of _ s2] exI [of _ h]) (simp add: links_to_def)
qed

lemma finish_loop_ok:
  assumes inj: "distinct (map snd qps)"
  shows "distinct peers \<Longrightarrow>
    \<forall>q\<in>set peers - {rank}. \<exists>p h v remote. map_of qps q = Some p \<and> hw s p = Some h \<and>
      qp_state (hw_attr h) = IBV_QPS_INIT \<and> map_of psns q = Some v \<and> incoming q = Some remote \<Longrightarrow>
    \<exists>t. finish_loop D d rank qps psns incoming peers s = (Inr (), t) \<and>
      (\<forall>p. (\<forall>q\<in>set peers - {rank}. map_of qps q \<noteq> Some p) \<longrightarrow> hw t p = hw s p) \<and>
      (\<forall>q\<in>set peers - {rank}. \<exists>p h0 h. map_of qps q = Some p \<and> hw s p = Some h0 \<and> hw t p = Some h \<and>
        hw_num h = hw_num h0 \<and> links_to d (the (incoming q)) (the (map_of psns q)) h)"
proof (induction peers arbitrary: s)
  case (Cons peer peers)
  show ?case
  proof (cases "peer = rank")
    case False
    then obtain p h0 v remote where peer: "map_of qps peer = Some p" "hw s p = Some h0"
      "qp_state (hw_attr h0) = IBV_QPS_INIT" "map_of psns peer = Some v" "incoming peer = Some remote"
      using bspec [OF Cons.prems(2), of peer] by auto
    obtain s1 s2 h where conn: "modify_to_rtr D p d remote s = (Inr (), s1)" "modify_to_rts D p v s1 = (Inr (), s2)"
      "hw s2 = (hw s)(p \<mapsto> h)" "links_to d remote v h" "hw_num h = hw_num h0"
      using connect_qp [OF peer(2,3)] by blast
    have other: "p' \<noteq> p" if "q \<in> set peers - {rank}" "map_of qps q = Some p'" for q p'
      using that Cons.prems(1) map_of_snd_inj [OF inj peer(1)] by auto
    have "\<forall>q\<in>set peers - {rank}. \<exists>p h v remote. map_of qps q = Some p \<and> hw s2 p = Some h \<and>
        qp_state (hw_attr h) = IBV_QPS_INIT \<and> map_of psns q = Some v \<and> incoming q = Some remote"
      using Cons.prems(2) other conn(3) by fastforce
    then obtain t where t: "finish_loop D d rank qps psns incoming peers s2 = (Inr (), t)"
      "\<forall>p. (\<forall>q\<in>set peers - {rank}. map_of qps q \<noteq> Some p) \<longrightarrow> hw t p = hw s2 p"
      "\<forall>q\<in>set peers - {rank}. \<exists>p h0 h. map_of qps q = Some p \<and> hw s2 p = Some h0 \<and> hw t p = Some h \<and>
        hw_num h = hw_num h0 \<and> links_to d (the (incoming q)) (the (map_of psns q)) h"
      using Cons.IH [of s2] Cons.prems(1) by auto
    have "hw t p = Some h" using t(2) other conn(3) by fastforce
    moreover have "finish_loop D d rank qps psns incoming (peer # peers) s = (Inr (), t)"
      using False peer conn t(1) by (simp add: at_def)
    moreover have "\<forall>q\<in>set peers - {rank}. \<exists>p h0 h. map_of qps q = Some p \<and> hw s p = Some h0 \<and> hw t p = Some h \<and>
        hw_num h = hw_num h0 \<and> links_to d (the (incoming q)) (the (map_of psns q)) h"
      using t(3) other conn(3) by fastforce
    ultimately show ?thesis
      using peer conn t(2) False by (intro exI [of _ t]) auto
  qed (use Cons in auto)
qed simp

end

section \<open>All ranks\<close>

text \<open>A permutation of an association list with distinct keys is the same map.\<close>

lemma map_of_perm:
  assumes "mset ys = mset xs" "distinct (map fst xs)"
  shows "distinct (map fst ys) \<and> map_of ys = map_of xs \<and> set ys = set xs \<and> length ys = length xs"
proof -
  have d: "distinct (map fst ys)"
    using assms by (metis mset_eq_imp_distinct_iff mset_map)
  moreover have "set ys = set xs" "length ys = length xs"
    using assms(1) by (metis set_mset_mset, metis size_mset)
  ultimately show ?thesis using map_of_inject_set [of ys xs] assms(2) by simp
qed

text \<open>What rank \<open>r\<close> does after the exchange, and what it holds before.\<close>

definition finish :: "'s qp_calls \<Rightarrow> Device \<Rightarrow> nat \<Rightarrow> nat \<Rightarrow> (int \<times> ptr) list \<Rightarrow> (int \<times> u32) list \<Rightarrow> 's \<Rightarrow>
    (int \<rightharpoonup> QpEndpointInfo) \<Rightarrow> ((int \<times> ptr) list \<times> 's) bprog" where
  "finish D d P r qps psns t incoming =
     (case finish_loop D d (int r) qps psns incoming (map int [0..<P]) t of
        (Inl e, s) \<Rightarrow> BThrow e | (Inr _, s) \<Rightarrow> BRet (qps, s))"

definition peers_of :: "nat \<Rightarrow> nat \<Rightarrow> int list" where
  "peers_of P r = filter (\<lambda>q. q \<noteq> int r) (map int [0..<P])"

lemma set_peers_of: "set (peers_of P r) = int ` ({..<P} - {r})"
  by (auto simp: peers_of_def)

lemma distinct_peers_of: "distinct (peers_of P r)"
  by (simp add: peers_of_def distinct_map)

lemma length_peers_of: "length (peers_of P r) \<le> P"
  unfolding peers_of_def using length_filter_le [of _ "map int [0..<P]"] by simp

lemma body_prepared:
  assumes "qp_driver D hw" "r < P"
  shows "\<exists>qps psns out t. prepared hw d (int r) (peers_of P r) s qps psns out t \<and>
    communicator_body D d pd scq rcq b (int r) (int P) iter s = exchange b (iter out) (finish D d P r qps psns t)"
proof -
  have "distinct (map int [0..<P])" by (simp add: distinct_map)
  then obtain qps psns out t where
    "prepare_loop D d pd scq rcq (int r) (map int [0..<P]) s = (Inr (qps, psns, out), t)"
    "prepared hw d (int r) (peers_of P r) s qps psns out t"
    using qp_driver.prepare_loop_ok [OF assms(1)] unfolding peers_of_def by blast
  with assms(2) show ?thesis
    by (intro exI [of _ qps] exI [of _ psns] exI [of _ out] exI [of _ t])
      (simp add: communicator_body_def finish_def [abs_def] Let_def)
qed

lemma preparedD:
  assumes "prepared hw d (int r) (peers_of P r) s qps psns out t"
  shows "map fst out = peers_of P r" "distinct (map snd qps)"
    and "q < P \<Longrightarrow> q \<noteq> r \<Longrightarrow> \<exists>p h v. map_of qps (int q) = Some p \<and> hw t p = Some h \<and>
      qp_state (hw_attr h) = IBV_QPS_INIT \<and> map_of psns (int q) = Some v \<and>
      map_of out (int q) = Some (info_of d (of_nat r) v (hw_num h))"
proof -
  show "map fst out = peers_of P r" "distinct (map snd qps)" using assms by (simp_all add: prepared_def)
  assume "q < P" "q \<noteq> r"
  then have "int q \<in> set (peers_of P r)" by (simp add: set_peers_of)
  then show "\<exists>p h v. map_of qps (int q) = Some p \<and> hw t p = Some h \<and> qp_state (hw_attr h) = IBV_QPS_INIT \<and>
      map_of psns (int q) = Some v \<and> map_of out (int q) = Some (info_of d (of_nat r) v (hw_num h))"
    using assms unfolding prepared_def by (metis of_int_of_nat_eq)
qed

lemma prepared_entry:
  assumes "prepared hw d (int r) (peers_of P r) s qps psns out t" "e \<in> set out"
  shows "\<exists>v n q. e = (int q, info_of d (of_nat r) v n) \<and> q < P"
proof -
  have "fst e \<in> set (peers_of P r)" using assms(2) preparedD(1) [OF assms(1)] by (metis image_eqI list.set_map)
  then obtain q where q: "fst e = int q" "q < P" "q \<noteq> r" by (auto simp: set_peers_of)
  have "map_of out (fst e) = Some (snd e)"
    using assms(2) preparedD(1) [OF assms(1)] distinct_peers_of [of P r] by (simp add: map_of_is_SomeI)
  with preparedD(3) [OF assms(1) q(2,3)] q show ?thesis by (metis option.inject prod.collapse)
qed

text \<open>Rank \<open>r\<close>'s queue pair for \<open>q\<close> and rank \<open>q\<close>'s for \<open>r\<close> are the two ends of one connection.\<close>

definition mesh_link :: "Device \<Rightarrow> Device \<Rightarrow> qp_hw \<Rightarrow> qp_hw \<Rightarrow> bool" where
  "mesh_link dr dq hr hq \<longleftrightarrow>
     qp_state (hw_attr hr) = IBV_QPS_RTS \<and> qa_dest_qp_num (hw_attr hr) = hw_num hq \<and>
     qa_rq_psn (hw_attr hr) = qa_sq_psn (hw_attr hq) \<and>
     qa_path_mtu (hw_attr hr) = min (pa_active_mtu (port_attr dr)) (pa_active_mtu (port_attr dq)) \<and>
     (is_infiniband dr \<and> is_infiniband dq \<longrightarrow>
        \<not> ah_is_global (qa_ah (hw_attr hr)) \<and> ah_dlid (qa_ah (hw_attr hr)) = pa_lid (port_attr dq)) \<and>
     (\<not> is_infiniband dr \<and> \<not> is_infiniband dq \<longrightarrow>
        ah_is_global (qa_ah (hw_attr hr)) \<and> grh_dgid (qa_ah (hw_attr hr)) = gid dq)"

definition device_ok :: "Device \<Rightarrow> bool" where
  "device_ok d \<longleftrightarrow> 0 \<le> pa_active_mtu (port_attr d) \<and> pa_active_mtu (port_attr d) < 256 \<and> length (gid d) = 16"

lemma mtu_byte: "device_ok d \<Longrightarrow> int (unat (word_of_int (pa_active_mtu (port_attr d)) :: byte)) = pa_active_mtu (port_attr d)"
  by (simp add: device_ok_def uint_word_of_int)

lemma links_mesh:
  assumes "links_to dr (info_of dq k vq (hw_num hq)) vr hr" "links_to dq rem vq hq" "device_ok dq"
  shows "mesh_link dr dq hr hq"
  using assms mtu_byte [OF assms(3)] by (auto simp: mesh_link_def links_to_def rtr_ah_def Let_def)

lemma rank_finishes:
  assumes "qp_driver D hw" "prepared hw d (int r) (peers_of P r) s qps psns out t"
    and "\<And>q. q < P \<Longrightarrow> q \<noteq> r \<Longrightarrow> incoming (int q) = Some (rem q)"
  shows "\<exists>t'. finish D d P r qps psns t incoming = BRet (qps, t') \<and>
    (\<forall>q<P. q \<noteq> r \<longrightarrow> (\<exists>p h0 h v. map_of qps (int q) = Some p \<and> hw t p = Some h0 \<and> hw t' p = Some h \<and>
      hw_num h = hw_num h0 \<and> map_of psns (int q) = Some v \<and> links_to d (rem q) v h))"
proof -
  let ?peers = "map int [0..<P]"
  have ps: "q \<in> set ?peers - {int r} \<longleftrightarrow> (\<exists>n<P. n \<noteq> r \<and> q = int n)" for q by auto
  have "\<forall>q\<in>set ?peers - {int r}. \<exists>p h v remote. map_of qps q = Some p \<and> hw t p = Some h \<and>
      qp_state (hw_attr h) = IBV_QPS_INIT \<and> map_of psns q = Some v \<and> incoming q = Some remote"
  proof
    fix q assume "q \<in> set ?peers - {int r}"
    then obtain n where n: "n < P" "n \<noteq> r" "q = int n" using ps by blast
    with preparedD(3) [OF assms(2) n(1,2)] assms(3) [OF n(1,2)]
    show "\<exists>p h v remote. map_of qps q = Some p \<and> hw t p = Some h \<and> qp_state (hw_attr h) = IBV_QPS_INIT \<and>
        map_of psns q = Some v \<and> incoming q = Some remote" by blast
  qed
  then obtain t' where t': "finish_loop D d (int r) qps psns incoming ?peers t = (Inr (), t')"
    "\<forall>q\<in>set ?peers - {int r}. \<exists>p h0 h. map_of qps q = Some p \<and> hw t p = Some h0 \<and> hw t' p = Some h \<and>
      hw_num h = hw_num h0 \<and> links_to d (the (incoming q)) (the (map_of psns q)) h"
    using qp_driver.finish_loop_ok [OF assms(1) preparedD(2) [OF assms(2)], of ?peers "int r" t psns incoming d]
    by (auto simp: distinct_map)
  have "\<exists>p h0 h v. map_of qps (int q) = Some p \<and> hw t p = Some h0 \<and> hw t' p = Some h \<and>
      hw_num h = hw_num h0 \<and> map_of psns (int q) = Some v \<and> links_to d (rem q) v h" if "q < P" "q \<noteq> r" for q
  proof -
    have "int q \<in> set ?peers - {int r}" using that by auto
    with t'(2) preparedD(3) [OF assms(2) that] assms(3) [OF that] show ?thesis
      by (metis option.sel)
  qed
  with t'(1) show ?thesis by (auto simp: finish_def)
qed

lemma prepared_submissions:
  assumes prep: "\<And>r. r < P \<Longrightarrow> prepared (hw r) (d r) (int r) (peers_of P r) (s r) (qps r) (psns r) (out r) (t r)"
    and dev: "\<And>r. r < P \<Longrightarrow> device_ok (d r)" and iter: "\<And>r xs. mset (iter r xs) = mset xs" and P: "P < 2 ^ 16"
  defines "sub \<equiv> \<lambda>r. iter r (out r)"
  shows "submissions_ok P sub"
    and "inbox q (full_table P sub) = (\<lambda>x. if 0 \<le> x \<and> x < int P then map_of (out (nat x)) q else None)"
proof -
  have perm: "distinct (map fst (sub r)) \<and> map_of (sub r) = map_of (out r) \<and> set (sub r) = set (out r) \<and>
      length (sub r) = length (out r)" if "r < P" for r
    unfolding sub_def using map_of_perm [OF iter] preparedD(1) [OF prep [OF that]] distinct_peers_of [of P r] by metis
  have entry: "entry_ok e \<and> qi_rank (snd e) = of_nat r" if "r < P" "e \<in> set (sub r)" for r e
  proof -
    have "e \<in> set (out r)" using perm [OF that(1)] that(2) by simp
    from prepared_entry [OF prep [OF that(1)] this]
    obtain v n q where "e = (int q, info_of (d r) (of_nat r) v n)" "q < P" by blast
    with P dev [OF that(1)] show ?thesis by (simp add: entry_ok_def device_ok_def)
  qed
  have "length (sub r) \<le> P" if "r < P" for r
    using perm [OF that] preparedD(1) [OF prep [OF that]] length_peers_of [of P r] by (metis length_map)
  then have "length (full_table P sub) \<le> P * P"
    unfolding full_table_def length_concat
    using sum_list_mono [of "[0..<P]" "\<lambda>r. length (sub r)" "\<lambda>_. P"] by (simp add: comp_def sum_list_triv)
  also have "\<dots> < 2 ^ 16 * 2 ^ 16" using P by (intro mult_strict_mono) auto
  finally show "submissions_ok P sub" using entry by (simp add: submissions_ok_def)
  have "inbox q (full_table P sub) = (\<lambda>x. if 0 \<le> x \<and> x < int P then map_of (sub (nat x)) q else None)"
    using entry perm P by (intro inbox_full_table) auto
  also have "\<dots> = (\<lambda>x. if 0 \<le> x \<and> x < int P then map_of (out (nat x)) q else None)"
    using perm by (auto simp: fun_eq_iff)
  finally show "inbox q (full_table P sub) = (\<lambda>x. if 0 \<le> x \<and> x < int P then map_of (out (nat x)) q else None)" .
qed

lemma mesh_after_exchange:
  assumes driver: "\<And>r. r < P \<Longrightarrow> qp_driver (D r) (hw r)" and dev: "\<And>r. r < P \<Longrightarrow> device_ok (d r)"
    and prep: "\<And>r. r < P \<Longrightarrow> prepared (hw r) (d r) (int r) (peers_of P r) (s r) (qps r) (psns r) (out r) (t r)"
    and inc: "\<And>r q. r < P \<Longrightarrow> q < P \<Longrightarrow> incoming r (int q) = map_of (out q) (int r)"
  shows "\<exists>t'. (\<forall>r<P. finish (D r) (d r) P r (qps r) (psns r) (t r) (incoming r) = BRet (qps r, t' r)) \<and>
    (\<forall>r<P. \<forall>q<P. r \<noteq> q \<longrightarrow> (\<exists>p p' hr hq. map_of (qps r) (int q) = Some p \<and> hw r (t' r) p = Some hr \<and>
       map_of (qps q) (int r) = Some p' \<and> hw q (t' q) p' = Some hq \<and> mesh_link (d r) (d q) hr hq))"
proof -
  define rem where "rem r q = the (map_of (out q) (int r))" for r q
  define fin where "fin r t' \<longleftrightarrow> finish (D r) (d r) P r (qps r) (psns r) (t r) (incoming r) = BRet (qps r, t') \<and>
      (\<forall>q<P. q \<noteq> r \<longrightarrow> (\<exists>p h0 h v. map_of (qps r) (int q) = Some p \<and> hw r (t r) p = Some h0 \<and> hw r t' p = Some h \<and>
        hw_num h = hw_num h0 \<and> map_of (psns r) (int q) = Some v \<and> links_to (d r) (rem r q) v h))" for r t'
  have "\<exists>t'. r < P \<longrightarrow> fin r t'" for r
  proof (cases "r < P")
    case True
    have "incoming r (int q) = Some (rem r q)" if "q < P" "q \<noteq> r" for q
      using inc [OF True that(1)] preparedD(3) [OF prep [OF that(1)] True] that(2) by (auto simp: rem_def)
    from rank_finishes [where incoming = "incoming r" and rem = "rem r", OF driver [OF True] prep [OF True] this] show ?thesis unfolding fin_def by blast
  qed simp
  then obtain t' where t': "\<And>r. r < P \<Longrightarrow> fin r (t' r)" by metis
  have "\<exists>p p' hr hq. map_of (qps r) (int q) = Some p \<and> hw r (t' r) p = Some hr \<and>
      map_of (qps q) (int r) = Some p' \<and> hw q (t' q) p' = Some hq \<and> mesh_link (d r) (d q) hr hq"
    if r: "r < P" and q: "q < P" and ne: "r \<noteq> q" for r q
  proof -
    obtain p hr v where pr: "map_of (qps r) (int q) = Some p" "hw r (t' r) p = Some hr" "links_to (d r) (rem r q) v hr"
      using t' [OF r] q ne unfolding fin_def by blast
    obtain p' h0 hq v' where pq: "map_of (qps q) (int r) = Some p'" "hw q (t q) p' = Some h0" "hw q (t' q) p' = Some hq"
      "hw_num hq = hw_num h0" "map_of (psns q) (int r) = Some v'" "links_to (d q) (rem q r) v' hq"
      using t' [OF q] r ne unfolding fin_def by blast
    have "rem r q = info_of (d q) (of_nat q) v' (hw_num hq)"
      using preparedD(3) [OF prep [OF q] r ne] pq by (auto simp: rem_def)
    with pr(3) pq(6) dev [OF q] have "mesh_link (d r) (d q) hr hq" by (metis links_mesh)
    with pr pq show ?thesis by blast
  qed
  with t' show ?thesis unfolding fin_def by blast
qed

text \<open>All constructors together, run to their end.\<close>

lemma communicator_ends:
  assumes wired: "wired wire P B" and P: "P < 2 ^ 16"
    and driver: "\<forall>r<P. qp_driver (D r) (hw r)" and dev: "\<forall>r<P. device_ok (d r)"
    and iter: "\<forall>r xs. mset (iter r xs) = mset xs"
  shows "\<exists>qps t. always_ends (bexec wire)
    (tcp_job P (\<lambda>r. communicator_body (D r) (d r) (pd r) (scq r) (rcq r) (B r) (int r) (int P) (iter r) (s r)) z)
    (\<lambda>f. f = tcp_job P (\<lambda>r. BRet (qps r, t r)) z) \<and>
    (\<forall>r<P. \<forall>x\<in>set_bprog (communicator_body (D r) (d r) (pd r) (scq r) (rcq r) (B r) (int r) (int P) (iter r) (s r)). fst x = qps r) \<and>
    (\<forall>r<P. \<forall>q<P. r \<noteq> q \<longrightarrow> (\<exists>p p' hr hq. map_of (qps r) (int q) = Some p \<and> hw r (t r) p = Some hr \<and>
       map_of (qps q) (int r) = Some p' \<and> hw q (t q) p' = Some hq \<and> mesh_link (d r) (d q) hr hq))"
proof -
  define ready where "ready r qps psns out t \<longleftrightarrow>
      prepared (hw r) (d r) (int r) (peers_of P r) (s r) qps psns out t \<and>
      communicator_body (D r) (d r) (pd r) (scq r) (rcq r) (B r) (int r) (int P) (iter r) (s r) =
        exchange (B r) (iter r out) (finish (D r) (d r) P r qps psns t)" for r qps psns out t
  have "\<exists>qps psns out t. r < P \<longrightarrow> ready r qps psns out t" for r
    using body_prepared [of "D r" "hw r" r P] driver unfolding ready_def by blast
  then obtain qps psns out t where ready: "\<And>r. r < P \<Longrightarrow> ready r (qps r) (psns r) (out r) (t r)" by metis
  then have prep: "\<And>r. r < P \<Longrightarrow> prepared (hw r) (d r) (int r) (peers_of P r) (s r) (qps r) (psns r) (out r) (t r)"
    and body: "\<And>r. r < P \<Longrightarrow> communicator_body (D r) (d r) (pd r) (scq r) (rcq r) (B r) (int r) (int P) (iter r) (s r) =
      exchange (B r) (iter r (out r)) (finish (D r) (d r) P r (qps r) (psns r) (t r))"
    unfolding ready_def by blast+
  let ?sub = "\<lambda>r. iter r (out r)" and ?fin = "\<lambda>r. finish (D r) (d r) P r (qps r) (psns r) (t r)"
  have subs: "submissions_ok P ?sub"
    and inbox: "\<And>q. inbox q (full_table P ?sub) = (\<lambda>x. if 0 \<le> x \<and> x < int P then map_of (out (nat x)) q else None)"
    by (rule prepared_submissions [OF prep]; use dev iter P in simp)+
  obtain t' where t': "\<forall>r<P. ?fin r (inbox (int r) (full_table P ?sub)) = BRet (qps r, t' r)"
    "\<forall>r<P. \<forall>q<P. r \<noteq> q \<longrightarrow> (\<exists>p p' hr hq. map_of (qps r) (int q) = Some p \<and> hw r (t' r) p = Some hr \<and>
       map_of (qps q) (int r) = Some p' \<and> hw q (t' q) p' = Some hq \<and> mesh_link (d r) (d q) hr hq)"
    using mesh_after_exchange [OF _ _ prep, of D "\<lambda>r. inbox (int r) (full_table P ?sub)"] driver dev inbox by auto
  have "always_ends (bexec wire) (tcp_job P (\<lambda>r. exchange (B r) (?sub r) (?fin r)) z)
      (\<lambda>f. f = tcp_job P (\<lambda>r. ?fin r (inbox (int r) (full_table P ?sub))) z)"
    by (rule exchange_ends [OF wired subs]) (auto simp: finish_def split: prod.split sum.split)
  moreover have "tcp_job P (\<lambda>r. communicator_body (D r) (d r) (pd r) (scq r) (rcq r) (B r) (int r) (int P) (iter r) (s r)) z
      = tcp_job P (\<lambda>r. exchange (B r) (?sub r) (?fin r)) z"
    using body by (auto simp: tcp_job_def)
  ultimately have ends: "always_ends (bexec wire)
      (tcp_job P (\<lambda>r. communicator_body (D r) (d r) (pd r) (scq r) (rcq r) (B r) (int r) (int P) (iter r) (s r)) z)
      (\<lambda>f. f = tcp_job P (\<lambda>r. ?fin r (inbox (int r) (full_table P ?sub))) z)" by simp
  have "tcp_job P (\<lambda>r. ?fin r (inbox (int r) (full_table P ?sub))) z = tcp_job P (\<lambda>r. BRet (qps r, t' r)) z"
    using t'(1) by (auto simp: tcp_job_def)
  with ends have "always_ends (bexec wire)
      (tcp_job P (\<lambda>r. communicator_body (D r) (d r) (pd r) (scq r) (rcq r) (B r) (int r) (int P) (iter r) (s r)) z)
      (\<lambda>f. f = tcp_job P (\<lambda>r. BRet (qps r, t' r)) z)" by simp
  moreover have "\<forall>r<P. \<forall>x\<in>set_bprog (communicator_body (D r) (d r) (pd r) (scq r) (rcq r) (B r) (int r) (int P) (iter r) (s r)). fst x = qps r"
    using set_exchange body by (fastforce simp: finish_def split: prod.splits sum.splits)
  ultimately show ?thesis using t'(2) by blast
qed

section \<open>Properties\<close>

text \<open>
  C4: when all ranks of a job construct their \<^verbatim>\<open>Communicator\<close>, every interleaving ends with all
  constructors returned and a full mesh: for every two different ranks each has a queue
  pair for the other, ready to send, addressed to the other's queue pair and port, expecting
  the very sequence number the other starts from, and both with the same MTU.
\<close>

theorem communicator_mesh:
  assumes wired: "wired wire P B" and P: "P < 2 ^ 16"
    and driver: "\<forall>r<P. qp_driver (D r) (hw r)" and dev: "\<forall>r<P. device_ok (d r)"
    and iter: "\<forall>r xs. mset (iter r xs) = mset xs"
  shows "always_ends (bexec wire)
    (tcp_job P (\<lambda>r. communicator_body (D r) (d r) (pd r) (scq r) (rcq r) (B r) (int r) (int P) (iter r) (s r)) z)
    (\<lambda>f. \<exists>qps t. (\<forall>r<P. bprocs f r = BRet (qps r, t r)) \<and>
       (\<forall>r<P. \<forall>q<P. r \<noteq> q \<longrightarrow> (\<exists>p p' hr hq. map_of (qps r) (int q) = Some p \<and> hw r (t r) p = Some hr \<and>
          map_of (qps q) (int r) = Some p' \<and> hw q (t q) p' = Some hq \<and> mesh_link (d r) (d q) hr hq)))"
proof -
  obtain qps t where ends: "always_ends (bexec wire)
      (tcp_job P (\<lambda>r. communicator_body (D r) (d r) (pd r) (scq r) (rcq r) (B r) (int r) (int P) (iter r) (s r)) z)
      (\<lambda>f. f = tcp_job P (\<lambda>r. BRet (qps r, t r)) z)"
    and mesh: "\<forall>r<P. \<forall>q<P. r \<noteq> q \<longrightarrow> (\<exists>p p' hr hq. map_of (qps r) (int q) = Some p \<and> hw r (t r) p = Some hr \<and>
       map_of (qps q) (int r) = Some p' \<and> hw q (t q) p' = Some hq \<and> mesh_link (d r) (d q) hr hq)"
    using communicator_ends [OF assms] by meson
  show ?thesis
  proof (rule always_ends_mono [OF ends], intro exI conjI)
    fix f assume "f = tcp_job P (\<lambda>r. BRet (qps r, t r)) z"
    then show "\<forall>r<P. bprocs f r = BRet (qps r, t r)" by (simp add: tcp_job_def)
  qed (rule mesh)
qed

text \<open>Three ranks, the middle one on a port with a smaller MTU; maps are visited backwards.\<close>

definition mesh_device :: "nat \<Rightarrow> Device" where
  "mesh_device r = (sample_device False)\<lparr>port_attr := (port_attr (sample_device False))\<lparr>pa_active_mtu := if r = 1 then 3 else 5\<rparr>\<rparr>"

theorem communicator_mesh_witness:
  "always_ends (bexec sample_wire)
     (tcp_job 3 (\<lambda>r. communicator_body sim_driver (mesh_device r) 1 2 3 (sample_bootstrap 3 r) (int r) (int 3) rev one_qp)
       ([], one_qp))
     (\<lambda>f. \<exists>qps t p hr. bprocs f 0 = BRet (qps, t) \<and> map_of qps 1 = Some p \<and> sim_hw t p = Some hr \<and>
        qa_path_mtu (hw_attr hr) = 3)"
proof -
  have d: "\<forall>r<3. device_ok (mesh_device r)"
    by (simp add: device_ok_def mesh_device_def sample_device_def)
  have mtu: "min (pa_active_mtu (port_attr (mesh_device 0))) (pa_active_mtu (port_attr (mesh_device 1))) = 3"
    by (simp add: mesh_device_def)
  have lt: "0 < (3::nat)" "1 < (3::nat)" "(0::nat) \<noteq> 1" "(3::nat) < 2 ^ 16" by simp_all
  show ?thesis
  proof (rule always_ends_mono [OF communicator_mesh [where hw = "\<lambda>_. sim_hw", OF sample_wired [OF lt(1)] lt(4) _ d]])
    fix f :: "((int \<times> ptr) list \<times> sim) bjob"
    assume "\<exists>qps t. (\<forall>r<3. bprocs f r = BRet (qps r, t r)) \<and>
       (\<forall>r<3. \<forall>q<3. r \<noteq> q \<longrightarrow> (\<exists>p p' hr hq. map_of (qps r) (int q) = Some p \<and> sim_hw (t r) p = Some hr \<and>
          map_of (qps q) (int r) = Some p' \<and> sim_hw (t q) p' = Some hq \<and> mesh_link (mesh_device r) (mesh_device q) hr hq))"
    then obtain qps t where f: "\<forall>r<3. bprocs f r = BRet (qps r, t r)" and
       m: "\<forall>r<3. \<forall>q<3. r \<noteq> q \<longrightarrow> (\<exists>p p' hr hq. map_of (qps r) (int q) = Some p \<and> sim_hw (t r) p = Some hr \<and>
          map_of (qps q) (int r) = Some p' \<and> sim_hw (t q) p' = Some hq \<and> mesh_link (mesh_device r) (mesh_device q) hr hq)"
      by blast
    from m lt obtain p hr hq where "map_of (qps 0) (int 1) = Some p" "sim_hw (t 0) p = Some hr"
        "mesh_link (mesh_device 0) (mesh_device 1) hr hq"
      by meson
    moreover have "bprocs f 0 = BRet (qps 0, t 0)" using f lt(1) by blast
    ultimately show "\<exists>qps t p hr. bprocs f 0 = BRet (qps, t) \<and> map_of qps 1 = Some p \<and> sim_hw t p = Some hr \<and>
        qa_path_mtu (hw_attr hr) = 3"
      using mtu by (metis mesh_link_def of_nat_1)
  qed (use sim.qp_driver_axioms in auto)
qed

end
