(* ===== verification/Tcp_Stream.thy ===== *)
theory Tcp_Stream
  imports Prelude
begin

text \<open>
  \<^verbatim>\<open>send_exact\<close> and \<^verbatim>\<open>recv_exact\<close> of \<^verbatim>\<open>src/bootstrap/tcp_bootstrap.cc\<close>: the loops that turn the
  partial transfers of the socket calls into exact ones. The calls are a parameter; what
  POSIX documents for a connected stream is the locale \<open>byte_stream\<close>.
\<close>

section \<open>The loops\<close>

text \<open>
  \<open>sys_send fd bytes s\<close> gives the return value, \<^verbatim>\<open>errno\<close> and the new state; \<open>sys_recv fd len s\<close> gives
  the bytes written to the buffer as well.
\<close>

record 's sockets =
  sys_send :: "int \<Rightarrow> byte list \<Rightarrow> 's \<Rightarrow> int \<times> int \<times> 's"
  sys_recv :: "int \<Rightarrow> nat \<Rightarrow> 's \<Rightarrow> int \<times> int \<times> byte list \<times> 's"

abbreviation (input) EINTR :: int where "EINTR \<equiv> 4"

partial_function (option) send_exact_loop ::
    "'s sockets \<Rightarrow> int \<Rightarrow> byte list \<Rightarrow> nat \<Rightarrow> 's \<Rightarrow> (unit result \<times> 's) option" where
  "send_exact_loop S fd buf sent s =
     (if sent < length buf
      then (case sys_send S fd (drop sent buf) s of (n, errno, s') \<Rightarrow>
              if n < 0
              then if errno = EINTR then send_exact_loop S fd buf sent s'
                   else Some (Inl (RuntimeError ''bootstrap send failed: '' [errno]), s')
              else send_exact_loop S fd buf (sent + nat n) s')
      else Some (Inr (), s))"

definition send_exact :: "'s sockets \<Rightarrow> int \<Rightarrow> byte list \<Rightarrow> 's \<Rightarrow> (unit result \<times> 's) option" where
  "send_exact S fd buf s = send_exact_loop S fd buf 0 s"

text \<open>\<open>got\<close>: the part of the buffer that has been written.\<close>

partial_function (option) recv_exact_loop ::
    "'s sockets \<Rightarrow> int \<Rightarrow> nat \<Rightarrow> byte list \<Rightarrow> 's \<Rightarrow> (byte list result \<times> 's) option" where
  "recv_exact_loop S fd len got s =
     (if length got < len
      then (case sys_recv S fd (len - length got) s of (n, errno, bs, s') \<Rightarrow>
              if n < 0
              then if errno = EINTR then recv_exact_loop S fd len got s'
                   else Some (Inl (RuntimeError ''bootstrap recv failed: '' [errno]), s')
              else if n = 0
              then Some (Inl (RuntimeError ''bootstrap peer closed connection mid-message'' []), s')
              else recv_exact_loop S fd len (got @ take (nat n) bs) s')
      else Some (Inr got, s))"

definition recv_exact :: "'s sockets \<Rightarrow> int \<Rightarrow> nat \<Rightarrow> 's \<Rightarrow> (byte list result \<times> 's) option" where
  "recv_exact S fd len s = recv_exact_loop S fd len [] s"

text \<open>What no receive changes, \<^verbatim>\<open>recv_exact\<close> does not change.\<close>

lemma recv_exact_frame:
  assumes frame: "\<And>fd len s n errno bs s'. sys_recv S fd len s = (n, errno, bs, s') \<Longrightarrow> g s' = g s"
    and res: "recv_exact S fd len s = Some (r, s')"
  shows "g s' = g s"
proof -
  have "recv_exact_loop S' fd len got s = Some y \<Longrightarrow> S' = S \<longrightarrow> g (snd y) = g s" for S' got y
    by (erule recv_exact_loop.raw_induct [rotated])
      (auto split: if_splits prod.splits dest!: frame)
  with res show ?thesis unfolding recv_exact_def by fastforce
qed

section \<open>Connected streams\<close>

text \<open>
  \<open>inq s fd\<close> are the bytes the peer has sent or will send before it closes, less those
  received; \<open>outq s fd\<close> are the bytes handed to the system for the peer. A call transfers at
  least one byte and at most what was asked, or is interrupted; a receive returns 0 at the
  end of the peer's bytes. \<open>signals s\<close> bounds the interruptions still to come.
\<close>

locale byte_stream =
  fixes S :: "'s sockets" and inq outq :: "'s \<Rightarrow> int \<Rightarrow> byte list" and signals :: "'s \<Rightarrow> nat"
  assumes send_partial: "bs \<noteq> [] \<Longrightarrow> sys_send S fd bs s = (n, errno, s') \<Longrightarrow>
      n = -1 \<and> errno = EINTR \<and> inq s' = inq s \<and> outq s' = outq s \<and> signals s' < signals s \<or>
      0 < n \<and> n \<le> int (length bs) \<and> inq s' = inq s \<and>
        outq s' = (outq s)(fd := outq s fd @ take (nat n) bs) \<and> signals s' \<le> signals s"
    and recv_partial: "0 < len \<Longrightarrow> sys_recv S fd len s = (n, errno, bs, s') \<Longrightarrow>
      n = -1 \<and> errno = EINTR \<and> inq s' = inq s \<and> outq s' = outq s \<and> signals s' < signals s \<or>
      (0 < n \<longleftrightarrow> inq s fd \<noteq> []) \<and> 0 \<le> n \<and> n \<le> int len \<and> nat n \<le> length (inq s fd) \<and>
        bs = take (nat n) (inq s fd) \<and> inq s' = (inq s)(fd := drop (nat n) (inq s fd)) \<and>
        outq s' = outq s \<and> signals s' \<le> signals s"
begin

lemma send_loop_exact:
  "sent \<le> length buf \<Longrightarrow> \<exists>s'. send_exact_loop S fd buf sent s = Some (Inr (), s') \<and> inq s' = inq s \<and>
     outq s' = (outq s)(fd := outq s fd @ drop sent buf)"
proof (induction "signals s + (length buf - sent)" arbitrary: s sent rule: less_induct)
  case less
  show ?case
  proof (cases "sent < length buf")
    case True
    obtain n errno t where call: "sys_send S fd (drop sent buf) s = (n, errno, t)"
      by (metis prod_cases3)
    have loop: "send_exact_loop S fd buf sent s =
        (if n < 0 then if errno = EINTR then send_exact_loop S fd buf sent t
                       else Some (Inl (RuntimeError ''bootstrap send failed: '' [errno]), t)
         else send_exact_loop S fd buf (sent + nat n) t)"
      using True call by (subst send_exact_loop.simps) simp
    from True have "drop sent buf \<noteq> []" by simp
    from send_partial [OF this call] show ?thesis
    proof (elim disjE conjE)
      assume "n = -1" "errno = EINTR" "inq t = inq s" "outq t = outq s" "signals t < signals s"
      with less.hyps [of t sent] less.prems show ?thesis unfolding loop by simp
    next
      assume n: "0 < n" "n \<le> int (length (drop sent buf))" and t: "inq t = inq s"
        "outq t = (outq s)(fd := outq s fd @ take (nat n) (drop sent buf))" "signals t \<le> signals s"
      have le: "sent + nat n \<le> length buf" using n True by simp
      have "take (nat n) (drop sent buf) @ drop (sent + nat n) buf = drop sent buf"
        by (metis append_take_drop_id drop_drop add.commute)
      with less.hyps [OF _ le, of t] n t True show ?thesis unfolding loop by auto
    qed
  qed (use less.prems in \<open>simp add: send_exact_loop.simps\<close>)
qed

lemma recv_loop_exact:
  "length got \<le> len \<Longrightarrow> \<exists>s'. recv_exact_loop S fd len got s =
     Some (if len - length got \<le> length (inq s fd) then Inr (got @ take (len - length got) (inq s fd))
           else Inl (RuntimeError ''bootstrap peer closed connection mid-message'' []), s') \<and>
     inq s' = (inq s)(fd := drop (len - length got) (inq s fd)) \<and> outq s' = outq s"
proof (induction "signals s + (len - length got)" arbitrary: s got rule: less_induct)
  case less
  show ?case
  proof (cases "length got < len")
    case True
    let ?k = "len - length got"
    obtain n errno bs t where call: "sys_recv S fd ?k s = (n, errno, bs, t)"
      by (metis prod_cases4)
    have loop: "recv_exact_loop S fd len got s =
        (if n < 0 then if errno = EINTR then recv_exact_loop S fd len got t
                       else Some (Inl (RuntimeError ''bootstrap recv failed: '' [errno]), t)
         else if n = 0 then Some (Inl (RuntimeError ''bootstrap peer closed connection mid-message'' []), t)
         else recv_exact_loop S fd len (got @ take (nat n) bs) t)"
      using True call by (subst recv_exact_loop.simps) simp
    from True have "0 < ?k" by simp
    from recv_partial [OF this call] show ?thesis
    proof (elim disjE conjE)
      assume t: "n = -1" "errno = EINTR" "inq t = inq s" "outq t = outq s" "signals t < signals s"
      then have "signals t + ?k < signals s + ?k" by simp
      from less.hyps [OF this less.prems] t(1,2) show ?thesis unfolding loop t(3,4) by simp
    next
      assume n: "0 < n \<longleftrightarrow> inq s fd \<noteq> []" "0 \<le> n" "n \<le> int ?k" "nat n \<le> length (inq s fd)"
        and bs: "bs = take (nat n) (inq s fd)"
        and t: "inq t = (inq s)(fd := drop (nat n) (inq s fd))" "outq t = outq s" "signals t \<le> signals s"
      show ?thesis
      proof (cases "n = 0")
        case True
        with n have "inq s fd = []" by simp
        with loop True t \<open>0 < ?k\<close> show ?thesis by simp
      next
        case False
        let ?got = "got @ take (nat n) bs"
        have len: "length ?got = length got + nat n" using n bs by simp
        have 1: "length ?got \<le> len" "len - length ?got = ?k - nat n" using n len True by simp_all
        have "signals t + (len - length ?got) < signals s + ?k" unfolding 1(2) using t(3) False n(2,3) by linarith
        from less.hyps [OF this 1(1)] obtain s' where s': "recv_exact_loop S fd len ?got t =
            Some (if ?k - nat n \<le> length (inq t fd) then Inr (?got @ take (?k - nat n) (inq t fd))
              else Inl (RuntimeError ''bootstrap peer closed connection mid-message'' []), s')"
          "inq s' = (inq t)(fd := drop (?k - nat n) (inq t fd))" "outq s' = outq t"
          unfolding 1(2) by blast
        have "take (nat n) (inq s fd) @ take (?k - nat n) (drop (nat n) (inq s fd)) = take ?k (inq s fd)"
          by (metis append_take_drop_id n(3) nat_le_iff take_add le_add_diff_inverse)
        moreover have "?k - nat n \<le> length (inq s fd) - nat n \<longleftrightarrow> ?k \<le> length (inq s fd)"
          using n by linarith
        ultimately show ?thesis using s' t bs n False unfolding loop by auto
      qed
    qed
  qed (use less.prems in \<open>simp add: recv_exact_loop.simps\<close>)
qed

end

section \<open>A network with given fragmentation\<close>

text \<open>
  Calls follow a script: 0 interrupts the call, \<open>k > 0\<close> transfers at most \<open>k\<close> bytes; a call after
  the script transfers all it can.
\<close>

record scripted =
  tin :: "int \<Rightarrow> byte list"
  tout :: "int \<Rightarrow> byte list"
  script :: "nat list"

definition next_chunk :: "nat list \<Rightarrow> nat \<Rightarrow> nat option" where
  "next_chunk fs len = (case fs of [] \<Rightarrow> Some len | f # _ \<Rightarrow> if f = 0 then None else Some (min f len))"

definition scripted_send :: "int \<Rightarrow> byte list \<Rightarrow> scripted \<Rightarrow> int \<times> int \<times> scripted" where
  "scripted_send fd bs s =
     (case next_chunk (script s) (length bs) of
        None \<Rightarrow> (-1, EINTR, s\<lparr>script := tl (script s)\<rparr>)
      | Some n \<Rightarrow> (int n, 0, s\<lparr>tout := (tout s)(fd := tout s fd @ take n bs), script := tl (script s)\<rparr>))"

definition scripted_recv :: "int \<Rightarrow> nat \<Rightarrow> scripted \<Rightarrow> int \<times> int \<times> byte list \<times> scripted" where
  "scripted_recv fd len s =
     (case next_chunk (script s) (min len (length (tin s fd))) of
        None \<Rightarrow> (-1, EINTR, [], s\<lparr>script := tl (script s)\<rparr>)
      | Some n \<Rightarrow> (int n, 0, take n (tin s fd),
          s\<lparr>tin := (tin s)(fd := drop n (tin s fd)), script := tl (script s)\<rparr>))"

definition scripted_sockets :: "scripted sockets" where
  "scripted_sockets = \<lparr>sys_send = scripted_send, sys_recv = scripted_recv\<rparr>"

interpretation scripted: byte_stream scripted_sockets tin tout "\<lambda>s. length (script s)"
proof unfold_locales
  fix fd n errno s' bs and len :: nat and s :: scripted
  show "n = - 1 \<and> errno = EINTR \<and> tin s' = tin s \<and> tout s' = tout s \<and> length (script s') < length (script s) \<or>
      0 < n \<and> n \<le> int (length bs) \<and> tin s' = tin s \<and>
      tout s' = (tout s)(fd := tout s fd @ take (nat n) bs) \<and> length (script s') \<le> length (script s)"
    if "bs \<noteq> []" "sys_send scripted_sockets fd bs s = (n, errno, s')"
    using that by (cases "script s") (auto simp: scripted_sockets_def scripted_send_def next_chunk_def split: if_splits)
  show "n = - 1 \<and> errno = EINTR \<and> tin s' = tin s \<and> tout s' = tout s \<and> length (script s') < length (script s) \<or>
      (0 < n \<longleftrightarrow> tin s fd \<noteq> []) \<and> 0 \<le> n \<and> n \<le> int len \<and> nat n \<le> length (tin s fd) \<and>
      bs = take (nat n) (tin s fd) \<and> tin s' = (tin s)(fd := drop (nat n) (tin s fd)) \<and>
      tout s' = tout s \<and> length (script s') \<le> length (script s)"
    if "0 < len" "sys_recv scripted_sockets fd len s = (n, errno, bs, s')"
    using that by (cases "script s") (auto simp: scripted_sockets_def scripted_recv_def next_chunk_def split: if_splits)
qed

section \<open>Properties\<close>

text \<open>
  C22: on a connected stream \<^verbatim>\<open>recv_exact\<close> ends, whatever the fragmentation and the interruptions
  by signals: it gives exactly the next \<open>len\<close> bytes the peer sends and leaves the following
  ones unread, or, when the peer closes before, throws instead of returning a short message.
\<close>

theorem recv_exact_correct:
  assumes "byte_stream S inq outq signals"
  shows "\<exists>s'. recv_exact S fd len s =
      Some (if len \<le> length (inq s fd) then Inr (take len (inq s fd))
            else Inl (RuntimeError ''bootstrap peer closed connection mid-message'' []), s') \<and>
    inq s' = (inq s)(fd := drop len (inq s fd)) \<and> outq s' = outq s"
  using byte_stream.recv_loop_exact [OF assms, of "[]" len fd s] unfolding recv_exact_def
  by (simp cong: if_cong)

theorem recv_exact_correct_witness:
  "\<exists>s'. recv_exact scripted_sockets 3 4 \<lparr>tin = \<lambda>_. [1, 2, 3, 4, 5, 6], tout = \<lambda>_. [], script = [0, 1, 0, 2]\<rparr> =
      Some (Inr [1, 2, 3, 4], s') \<and> tin s' 3 = [5, 6]"
  using recv_exact_correct [OF scripted.byte_stream_axioms, of 3 4
      "\<lparr>tin = \<lambda>_. [1, 2, 3, 4, 5, 6], tout = \<lambda>_. [], script = [0, 1, 0, 2]\<rparr>"] by auto

text \<open>
  C23: on a connected stream \<^verbatim>\<open>send_exact\<close> ends, whatever the fragmentation and the interruptions,
  and hands the system every byte of the buffer exactly once and in order.
\<close>

theorem send_exact_correct:
  assumes "byte_stream S inq outq signals"
  shows "\<exists>s'. send_exact S fd buf s = Some (Inr (), s') \<and> inq s' = inq s \<and>
    outq s' = (outq s)(fd := outq s fd @ buf)"
  using byte_stream.send_loop_exact [OF assms, of 0 buf fd s] by (simp add: send_exact_def)

theorem send_exact_correct_witness:
  "\<exists>s'. send_exact scripted_sockets 3 [7, 8, 9] \<lparr>tin = \<lambda>_. [], tout = \<lambda>_. [1], script = [2, 0, 0]\<rparr> =
      Some (Inr (), s') \<and> tout s' 3 = [1, 7, 8, 9]"
  using send_exact_correct [OF scripted.byte_stream_axioms, of 3 "[7, 8, 9]"
      "\<lparr>tin = \<lambda>_. [], tout = \<lambda>_. [1], script = [2, 0, 0]\<rparr>"] by auto

end
