(* ===== verification/Rendezvous.thy ===== *)
theory Rendezvous
  imports Bootstrap Tcp_Stream
begin

text \<open>
  Construction and destruction of \<^verbatim>\<open>TcpBootstrap\<close> (\<^verbatim>\<open>src/bootstrap/tcp_bootstrap.cc\<close>): rank 0 listens and
  files every accepted connection under the rank its peer announces, the other ranks
  connect, retrying while rank 0 is not up. The system calls are a parameter; the
  contract \<open>rendezvous\<close> says what a working network gives.
\<close>

section \<open>System calls\<close>

text \<open>
  A call with an outcome returns its value, \<^verbatim>\<open>errno\<close> and the new state; calls whose outcome the
  code ignores return the new state.
\<close>

record 's os_calls =
  os_sockets :: "'s sockets"
  sys_socket :: "'s \<Rightarrow> int \<times> int \<times> 's"
  sys_bind :: "int \<Rightarrow> u16 \<Rightarrow> 's \<Rightarrow> int \<times> int \<times> 's"
  sys_listen :: "int \<Rightarrow> int \<Rightarrow> 's \<Rightarrow> int \<times> int \<times> 's"
  sys_accept :: "int \<Rightarrow> 's \<Rightarrow> int \<times> int \<times> 's"
  sys_getaddrinfo :: "string \<Rightarrow> u16 \<Rightarrow> 's \<Rightarrow> int \<times> 's"
  sys_freeaddrinfo :: "'s \<Rightarrow> 's"
  sys_connect :: "int \<Rightarrow> string \<Rightarrow> u16 \<Rightarrow> 's \<Rightarrow> int \<times> int \<times> 's"
  sys_setsockopt :: "int \<Rightarrow> 's \<Rightarrow> 's"
  sys_sleep :: "'s \<Rightarrow> 's"
  sys_close :: "int \<Rightarrow> 's \<Rightarrow> 's"

section \<open>Connecting to rank 0\<close>

text \<open>\<open>n\<close> attempts are left; \<open>last_error\<close> is the \<^verbatim>\<open>errno\<close> of the last failed one (0: none).\<close>

fun connect_loop ::
    "'s os_calls \<Rightarrow> string \<Rightarrow> u16 \<Rightarrow> nat \<Rightarrow> int \<Rightarrow> 's \<Rightarrow> int result \<times> 's" where
  "connect_loop N host port 0 last_error s =
     (Inl (RuntimeError (''could not connect to '' @ host @ '' after retries, last error: '')
        [int (unat port), last_error]), sys_freeaddrinfo N s)"
| "connect_loop N host port (Suc n) last_error s =
     (case sys_socket N s of (fd, errno, s) \<Rightarrow>
        if fd < 0 then (Inl (RuntimeError ''socket() failed: '' [errno]), sys_freeaddrinfo N s)
        else (case sys_connect N fd host port s of (rc, errno, s) \<Rightarrow>
                if rc = 0 then (Inr fd, sys_setsockopt N fd (sys_freeaddrinfo N s))
                else connect_loop N host port n errno (sys_sleep N (sys_close N fd s))))"

definition kMaxAttempts :: nat where "kMaxAttempts = 50"

definition connect_with_retry :: "'s os_calls \<Rightarrow> string \<Rightarrow> u16 \<Rightarrow> 's \<Rightarrow> int result \<times> 's" where
  "connect_with_retry N host port s =
     (case sys_getaddrinfo N host port s of (gai, s) \<Rightarrow>
        if gai \<noteq> 0 then (Inl (RuntimeError (''getaddrinfo('' @ host @ '') failed: '') [gai]), s)
        else connect_loop N host port kMaxAttempts 0 s)"

section \<open>The constructor\<close>

text \<open>The loop of rank 0 over the connections still to accept.\<close>

fun accept_loop ::
    "'s os_calls \<Rightarrow> int \<Rightarrow> int \<Rightarrow> nat \<Rightarrow> int list \<Rightarrow> 's \<Rightarrow> (int list result \<times> 's) option" where
  "accept_loop N world_size lfd 0 fds s = Some (Inr fds, s)"
| "accept_loop N world_size lfd (Suc n) fds s =
     (case sys_accept N lfd s of (fd, errno, s) \<Rightarrow>
        if fd < 0 then Some (Inl (RuntimeError ''accept() failed: '' [errno]), s)
        else (case recv_exact (os_sockets N) fd 4 (sys_setsockopt N fd s) of
                None \<Rightarrow> None
              | Some (Inl e, s) \<Rightarrow> Some (Inl e, s)
              | Some (Inr be, s) \<Rightarrow>
                  (let their_rank = fst (get_u32 be) in
                   if their_rank = 0 \<or> word_of_int world_size \<le> their_rank
                   then Some (Inl (RuntimeError ''bootstrap: peer announced invalid rank ''
                          [int (unat their_rank)]), sys_close N fd s)
                   else accept_loop N world_size lfd n (fds[unat their_rank := fd]) s)))"

definition root_ctor :: "'s os_calls \<Rightarrow> int \<Rightarrow> u16 \<Rightarrow> 's \<Rightarrow> (TcpBootstrap result \<times> 's) option" where
  "root_ctor N world_size root_port s =
     (case sys_socket N s of (lfd, errno, s) \<Rightarrow>
        if lfd < 0 then Some (Inl (RuntimeError ''socket() failed: '' [errno]), s)
        else (case sys_bind N lfd root_port (sys_setsockopt N lfd s) of (rc, errno, s) \<Rightarrow>
          if rc \<noteq> 0 then Some (Inl (RuntimeError ''bind() failed: '' [errno]), s)
          else (case sys_listen N lfd world_size s of (rc, errno, s) \<Rightarrow>
            if rc \<noteq> 0 then Some (Inl (RuntimeError ''listen() failed: '' [errno]), s)
            else if world_size < 0 then Some (Inl LengthError, s)
            else map_option (map_prod (\<lambda>res. bind_res res (\<lambda>fds.
                     Inr \<lparr>bs_rank = 0, bs_world_size = world_size, conn_fd = -1, listen_fd = lfd, peer_fds = fds\<rparr>)) id)
                   (accept_loop N world_size lfd (nat (world_size - 1)) (replicate (nat world_size) (-1)) s))))"

definition client_ctor ::
    "'s os_calls \<Rightarrow> int \<Rightarrow> int \<Rightarrow> string \<Rightarrow> u16 \<Rightarrow> 's \<Rightarrow> (TcpBootstrap result \<times> 's) option" where
  "client_ctor N rank world_size root_host root_port s =
     (case connect_with_retry N root_host root_port s of
        (Inl e, s) \<Rightarrow> Some (Inl e, s)
      | (Inr fd, s) \<Rightarrow>
          map_option (map_prod (\<lambda>res. bind_res res (\<lambda>_.
              Inr \<lparr>bs_rank = rank, bs_world_size = world_size, conn_fd = fd, listen_fd = -1, peer_fds = []\<rparr>)) id)
            (send_exact (os_sockets N) fd (put_u32 (word_of_int rank)) s))"

definition tcp_bootstrap_ctor ::
    "'s os_calls \<Rightarrow> int \<Rightarrow> int \<Rightarrow> string \<Rightarrow> u16 \<Rightarrow> 's \<Rightarrow> (TcpBootstrap result \<times> 's) option" where
  "tcp_bootstrap_ctor N rank world_size root_host root_port s =
     (if rank = 0 then root_ctor N world_size root_port s
      else client_ctor N rank world_size root_host root_port s)"

text \<open>The destructor: the descriptors it closes, in order.\<close>

definition tcp_bootstrap_dtor :: "TcpBootstrap \<Rightarrow> int list" where
  "tcp_bootstrap_dtor b =
     (if conn_fd b \<ge> 0 then [conn_fd b] else []) @
     (if listen_fd b \<ge> 0 then [listen_fd b] else []) @ filter (\<lambda>fd. fd \<ge> 0) (peer_fds b)"

section \<open>A working network\<close>

text \<open>
  \<open>pending s\<close> are the descriptors that the next calls of \<^verbatim>\<open>accept\<close> will return. The other calls leave
  the streams and the pending connections alone.
\<close>

locale rendezvous = byte_stream "os_sockets N" inq outq signals
  for N :: "'s os_calls" and inq outq signals +
  fixes pending :: "'s \<Rightarrow> int list"
  assumes socket_ok: "sys_socket N s = (fd, errno, s') \<Longrightarrow>
      0 \<le> fd \<and> inq s' = inq s \<and> outq s' = outq s \<and> pending s' = pending s"
    and bind_ok: "sys_bind N fd port s = (rc, errno, s') \<Longrightarrow>
      rc = 0 \<and> inq s' = inq s \<and> outq s' = outq s \<and> pending s' = pending s"
    and listen_ok: "sys_listen N fd n s = (rc, errno, s') \<Longrightarrow>
      rc = 0 \<and> inq s' = inq s \<and> outq s' = outq s \<and> pending s' = pending s"
    and setsockopt_ok: "inq (sys_setsockopt N fd s) = inq s \<and> outq (sys_setsockopt N fd s) = outq s \<and>
      pending (sys_setsockopt N fd s) = pending s"
    and accept_ok: "pending s = fd # fds \<Longrightarrow> \<exists>errno s'. sys_accept N lfd s = (fd, errno, s') \<and>
      0 \<le> fd \<and> inq s' = inq s \<and> outq s' = outq s \<and> pending s' = fds"
    and recv_pending: "sys_recv (os_sockets N) fd len s = (n, errno, bs, s') \<Longrightarrow> pending s' = pending s"
begin

lemma recv_announcement:
  assumes "inq s fd = put_u32 v @ rest"
  shows "\<exists>s'. recv_exact (os_sockets N) fd 4 (sys_setsockopt N fd s) = Some (Inr (put_u32 v), s') \<and>
    inq s' = (inq s)(fd := rest) \<and> outq s' = outq s \<and> pending s' = pending s"
proof -
  have inq: "inq (sys_setsockopt N fd s) = inq s" using setsockopt_ok by blast
  obtain s' where s': "recv_exact (os_sockets N) fd 4 (sys_setsockopt N fd s) = Some (Inr (put_u32 v), s')"
    "inq s' = (inq s)(fd := rest)" "outq s' = outq s"
    using recv_loop_exact [of "[]" 4 fd "sys_setsockopt N fd s"] assms setsockopt_ok [of fd s]
    by (auto simp: recv_exact_def)
  moreover have "pending s' = pending s"
    using recv_exact_frame [where g = pending, OF recv_pending s'(1)] setsockopt_ok [of fd s] by simp
  ultimately show ?thesis by blast
qed

text \<open>\<open>cs\<close>: the connections in the order of their acceptance, each with the announced rank.\<close>

lemma accept_loop_files:
  assumes "W < 2 ^ 32"
  shows "pending s = map fst cs @ later \<Longrightarrow> distinct (map fst cs) \<Longrightarrow>
    \<forall>(fd, a)\<in>set cs. 0 < a \<and> a < W \<and> inq s fd = put_u32 (of_nat a) @ rest fd \<Longrightarrow>
    \<exists>s'. accept_loop N (int W) lfd (length cs) fds s =
        Some (Inr (foldl (\<lambda>fds (fd, a). fds[a := fd]) fds cs), s') \<and>
      inq s' = (\<lambda>fd. if fd \<in> fst ` set cs then rest fd else inq s fd) \<and> outq s' = outq s \<and> pending s' = later"
proof (induction cs arbitrary: fds s)
  case (Cons c cs)
  obtain fd a where c: "c = (fd, a)" by force
  then have a: "0 < a" "a < W" "inq s fd = put_u32 (of_nat a) @ rest fd" using Cons.prems(3) by auto
  obtain errno s1 where s1: "sys_accept N lfd s = (fd, errno, s1)" "0 \<le> fd" "inq s1 = inq s" "outq s1 = outq s"
    "pending s1 = map fst cs @ later"
    using accept_ok [of s fd "map fst cs @ later" lfd] Cons.prems(1) c by auto
  obtain s2 where s2: "recv_exact (os_sockets N) fd 4 (sys_setsockopt N fd s1) = Some (Inr (put_u32 (of_nat a)), s2)"
    "inq s2 = (inq s)(fd := rest fd)" "outq s2 = outq s" "pending s2 = map fst cs @ later"
    using recv_announcement [of s1 fd "of_nat a" "rest fd"] s1 a by auto
  have rank: "fst (get_u32 (put_u32 (of_nat a))) = of_nat a" using u32.dec_enc [OF TrueI, of "of_nat a" "[]"] by simp
  have ua: "unat (of_nat a :: u32) = a" "unat (of_nat W :: u32) = W" using a assms by (simp_all add: unat_of_nat)
  then have ok: "of_nat a \<noteq> (0 :: u32)" "\<not> (of_nat W :: u32) \<le> of_nat a"
    using a by (auto simp: word_le_nat_alt dest: arg_cong [where f = unat])
  have step: "accept_loop N (int W) lfd (length (c # cs)) fds s = accept_loop N (int W) lfd (length cs) (fds[a := fd]) s2"
    using s1(1,2) s2(1) ok by (simp add: rank ua)
  have fresh: "fd \<notin> fst ` set cs" using Cons.prems(2) c by auto
  have "\<forall>(fd', a)\<in>set cs. 0 < a \<and> a < W \<and> inq s2 fd' = put_u32 (of_nat a) @ rest fd'"
    using Cons.prems(3) fresh s2(2) by force
  with Cons.IH [of s2 "fds[a := fd]"] s2(4) Cons.prems(2) obtain s' where
    "accept_loop N (int W) lfd (length cs) (fds[a := fd]) s2 =
       Some (Inr (foldl (\<lambda>fds (fd, a). fds[a := fd]) (fds[a := fd]) cs), s')"
    "inq s' = (\<lambda>fd. if fd \<in> fst ` set cs then rest fd else inq s2 fd)" "outq s' = outq s2" "pending s' = later"
    by auto
  with step s2 fresh c show ?case by (intro exI [of _ s']) (auto simp: fun_eq_iff)
qed simp

lemma root_ctor_accepts:
  "\<exists>lfd s1. 0 \<le> lfd \<and> inq s1 = inq s \<and> outq s1 = outq s \<and> pending s1 = pending s \<and>
    root_ctor N (int W) port s = map_option (map_prod (\<lambda>res. bind_res res (\<lambda>fds.
      Inr \<lparr>bs_rank = 0, bs_world_size = int W, conn_fd = -1, listen_fd = lfd, peer_fds = fds\<rparr>)) id)
        (accept_loop N (int W) lfd (W - 1) (replicate W (-1)) s1)"
proof -
  obtain lfd e1 s1 where s1: "sys_socket N s = (lfd, e1, s1)" by (metis prod_cases3)
  obtain rc e2 s2 where s2: "sys_bind N lfd port (sys_setsockopt N lfd s1) = (rc, e2, s2)" by (metis prod_cases3)
  obtain rc' e3 s3 where s3: "sys_listen N lfd (int W) s2 = (rc', e3, s3)" by (metis prod_cases3)
  have "nat (int W - 1) = W - 1" by simp
  then show ?thesis
    using socket_ok [OF s1] bind_ok [OF s2] listen_ok [OF s3] setsockopt_ok [of lfd s1] s1 s2 s3
    by (intro exI [of _ lfd] exI [of _ s3]) (simp add: root_ctor_def)
qed

text \<open>Rank 0 files the accepted connections under the announced ranks.\<close>

lemma root_ctor_files:
  assumes "W < 2 ^ 32" "pending s = map fst cs" "length cs = W - 1" "distinct (map fst cs)"
    and "\<forall>(fd, a)\<in>set cs. 0 < a \<and> a < W \<and> inq s fd = put_u32 (of_nat a) @ rest fd"
  shows "\<exists>lfd s'. 0 \<le> lfd \<and> root_ctor N (int W) port s =
      Some (Inr \<lparr>bs_rank = 0, bs_world_size = int W, conn_fd = -1, listen_fd = lfd,
        peer_fds = foldl (\<lambda>fds (fd, a). fds[a := fd]) (replicate W (-1)) cs\<rparr>, s') \<and>
      inq s' = (\<lambda>fd. if fd \<in> fst ` set cs then rest fd else inq s fd) \<and> outq s' = outq s"
proof -
  obtain lfd s1 where s1: "0 \<le> lfd" "inq s1 = inq s" "outq s1 = outq s" "pending s1 = map fst cs @ []"
    and ctor: "root_ctor N (int W) port s = map_option (map_prod (\<lambda>res. bind_res res (\<lambda>fds.
      Inr \<lparr>bs_rank = 0, bs_world_size = int W, conn_fd = -1, listen_fd = lfd, peer_fds = fds\<rparr>)) id)
        (accept_loop N (int W) lfd (length cs) (replicate W (-1)) s1)"
    using root_ctor_accepts [of s W port] assms(2,3) by auto
  have "\<forall>(fd, a)\<in>set cs. 0 < a \<and> a < W \<and> inq s1 fd = put_u32 (of_nat a) @ rest fd"
    using assms(5) s1(2) by simp
  from accept_loop_files [OF assms(1) s1(4) assms(4) this, of lfd "replicate W (-1)"] s1 ctor show ?thesis
    by (auto cong: if_cong)
qed

end

text \<open>Filing by rank, on lists.\<close>

lemma length_file_all [simp]: "length (foldl (\<lambda>fds (fd, a). fds[a := fd]) fds cs) = length fds"
  by (induction cs arbitrary: fds) auto

lemma file_all_other: "i \<notin> snd ` set cs \<Longrightarrow> foldl (\<lambda>fds (fd, a). fds[a := fd]) fds cs ! i = fds ! i"
  by (induction cs arbitrary: fds) auto

lemma file_all_nth:
  "(fd, a) \<in> set cs \<Longrightarrow> distinct (map snd cs) \<Longrightarrow> a < length fds \<Longrightarrow>
   foldl (\<lambda>fds (fd, a). fds[a := fd]) fds cs ! a = fd"
proof (induction cs arbitrary: fds)
  case (Cons c cs)
  show ?case
  proof (cases "c = (fd, a)")
    case True
    then have "a \<notin> snd ` set cs" using Cons.prems by auto
    with True Cons.prems file_all_other [of a cs "fds[a := fd]"] show ?thesis by simp
  next
    case False
    with Cons.IH [of "fds[snd c := fst c]"] Cons.prems show ?thesis by (auto simp: case_prod_beta)
  qed
qed simp

lemma ranks_complete:
  assumes "distinct rs" "set rs \<subseteq> {1..<P}" "length rs = P - 1"
  shows "set rs = {1..<P}"
  by (rule card_subset_eq) (use assms distinct_card [of rs] in auto)

lemma ranks_incomplete:
  assumes "\<not> distinct rs" "set rs \<subseteq> {1..<P}" "length rs = P - 1"
  shows "\<exists>r\<in>{1..<P}. r \<notin> set rs"
proof (rule ccontr)
  assume "\<not> (\<exists>r\<in>{1..<P}. r \<notin> set rs)"
  then have "set rs = {1..<P}" using assms(2) by auto
  then have "card (set rs) = length rs" using assms(3) by simp
  then show False using assms(1) card_distinct by blast
qed

lemma file_all_table:
  assumes "distinct (map snd cs)" "snd ` set cs = {1..<P}" "0 < P"
  shows "\<exists>ys. foldl (\<lambda>fds (fd, a). fds[a := fd]) (replicate P (-1)) cs = -1 # ys \<and> set ys = fst ` set cs"
proof -
  let ?fds = "foldl (\<lambda>fds (fd, a). fds[a := fd]) (replicate P (-1)) cs"
  have filed: "0 < a \<and> a < P \<and> ?fds ! a = fd" if "(fd, a) \<in> set cs" for fd a
  proof -
    have "a \<in> {1..<P}" using that assms(2) by force
    then show ?thesis using file_all_nth [OF that assms(1), of "replicate P (-1)"] by simp
  qed
  have "?fds ! 0 = -1" by (subst file_all_other) (use filed assms(2,3) in auto)
  moreover have "?fds \<noteq> []" using assms(3) by (metis length_file_all length_replicate list.size(3) not_less0)
  ultimately have hd: "?fds = -1 # tl ?fds" by (metis hd_conv_nth list.collapse)
  have "set (tl ?fds) \<subseteq> fst ` set cs"
  proof
    fix fd assume "fd \<in> set (tl ?fds)"
    then obtain i where i: "Suc i < P" "?fds ! Suc i = fd"
      by (auto simp: in_set_conv_nth nth_tl less_diff_conv)
    then have "Suc i \<in> snd ` set cs" using assms(2) by simp
    then obtain fd' where "(fd', Suc i) \<in> set cs" by auto
    with filed i(2) show "fd \<in> fst ` set cs" by force
  qed
  moreover have "fst ` set cs \<subseteq> set (tl ?fds)"
  proof clarify
    fix fd a assume "(fd, a) \<in> set cs"
    then have a: "0 < a" "a < P" "?fds ! a = fd" using filed by blast+
    then have "tl ?fds ! (a - 1) = fd" "a - 1 < length (tl ?fds)" by (auto simp: nth_tl)
    then show "fst (fd, a) \<in> set (tl ?fds)" by (metis fst_conv nth_mem)
  qed
  ultimately show ?thesis using hd by blast
qed

section \<open>A network for examples\<close>

text \<open>
  A state has the streams of \<open>Tcp_Stream\<close>, the connections waiting to be accepted, the next descriptor
  number, the number of connection attempts that will be refused, and the descriptors closed.
\<close>

record host =
  streams :: scripted
  backlog :: "nat list"
  next_fd :: nat
  refusals :: nat
  closed :: "int list"

definition host_sockets :: "host sockets" where
  "host_sockets =
     \<lparr>sys_send = (\<lambda>fd bs s. case scripted_send fd bs (streams s) of (n, errno, t) \<Rightarrow> (n, errno, s\<lparr>streams := t\<rparr>)),
      sys_recv = (\<lambda>fd len s. case scripted_recv fd len (streams s) of (n, errno, bs, t) \<Rightarrow>
        (n, errno, bs, s\<lparr>streams := t\<rparr>))\<rparr>"

definition host_calls :: "host os_calls" where
  "host_calls =
     \<lparr>os_sockets = host_sockets,
      sys_socket = (\<lambda>s. (int (next_fd s), 0, s\<lparr>next_fd := Suc (next_fd s)\<rparr>)),
      sys_bind = (\<lambda>fd port s. (0, 0, s)), sys_listen = (\<lambda>fd n s. (0, 0, s)),
      sys_accept = (\<lambda>lfd s. case backlog s of [] \<Rightarrow> (-1, 22, s) | fd # fds \<Rightarrow> (int fd, 0, s\<lparr>backlog := fds\<rparr>)),
      sys_getaddrinfo = (\<lambda>node port s. (0, s)), sys_freeaddrinfo = id,
      sys_connect = (\<lambda>fd node port s. if refusals s = 0 then (0, 0, s) else (-1, 111, s\<lparr>refusals := refusals s - 1\<rparr>)),
      sys_setsockopt = (\<lambda>fd s. s), sys_sleep = id, sys_close = (\<lambda>fd s. s\<lparr>closed := closed s @ [fd]\<rparr>)\<rparr>"

interpretation host: rendezvous host_calls "\<lambda>s. tin (streams s)" "\<lambda>s. tout (streams s)"
    "\<lambda>s. length (script (streams s))" "\<lambda>s. map int (backlog s)"
proof unfold_locales
  fix fd n errno and bs :: "byte list" and len :: nat and s s' :: host
  show "n = - 1 \<and> errno = EINTR \<and> tin (streams s') = tin (streams s) \<and> tout (streams s') = tout (streams s) \<and>
      length (script (streams s')) < length (script (streams s)) \<or>
      0 < n \<and> n \<le> int (length bs) \<and> tin (streams s') = tin (streams s) \<and>
      tout (streams s') = (tout (streams s))(fd := tout (streams s) fd @ take (nat n) bs) \<and>
      length (script (streams s')) \<le> length (script (streams s))"
    if "bs \<noteq> []" "sys_send (os_sockets host_calls) fd bs s = (n, errno, s')"
    using that scripted.send_partial [of bs fd "streams s"]
    by (auto simp: host_calls_def host_sockets_def scripted_sockets_def split: prod.splits)
  show "n = - 1 \<and> errno = EINTR \<and> tin (streams s') = tin (streams s) \<and> tout (streams s') = tout (streams s) \<and>
      length (script (streams s')) < length (script (streams s)) \<or>
      (0 < n \<longleftrightarrow> tin (streams s) fd \<noteq> []) \<and> 0 \<le> n \<and> n \<le> int len \<and> nat n \<le> length (tin (streams s) fd) \<and>
      bs = take (nat n) (tin (streams s) fd) \<and>
      tin (streams s') = (tin (streams s))(fd := drop (nat n) (tin (streams s) fd)) \<and>
      tout (streams s') = tout (streams s) \<and> length (script (streams s')) \<le> length (script (streams s))"
    if "0 < len" "sys_recv (os_sockets host_calls) fd len s = (n, errno, bs, s')"
    using that scripted.recv_partial [of len fd "streams s"]
    by (auto simp: host_calls_def host_sockets_def scripted_sockets_def split: prod.splits)
qed (auto simp: host_calls_def host_sockets_def split: prod.splits)

section \<open>Properties\<close>

text \<open>
  C15: rank 0 waits for all other ranks and files each connection under the right rank, whatever
  the order in which they arrive and however their announcements are split: the constructor
  ends with every rank wired to rank 0, has read exactly the announcements, and the
  destructor later closes the listening socket and every connection, each once.
\<close>

theorem tcp_bootstrap_ctor_wires:
  assumes net: "rendezvous N inq outq signals pending" and P: "0 < P" "P < 2 ^ 31"
    and fds: "pending s = fds" "length fds = P - 1" "distinct fds" "\<forall>fd\<in>set fds. 0 \<le> fd"
    and peers: "\<forall>fd\<in>set fds. wire 0 fd \<in> {1..<P} \<and> inq s fd = put_u32 (of_nat (wire 0 fd)) @ rest fd"
      "inj_on (wire 0) (set fds)"
    and clients: "\<forall>r\<in>{1..<P}. bs_rank (B r) = int r \<and> bs_world_size (B r) = int P \<and> wire r (conn_fd (B r)) = 0"
  shows "\<exists>b s'. tcp_bootstrap_ctor N 0 (int P) host port s = Some (Inr b, s') \<and> wired wire P (B(0 := b)) \<and>
    (\<forall>fd\<in>set fds. inq s' fd = rest fd) \<and>
    length (tcp_bootstrap_dtor b) = P \<and> set (tcp_bootstrap_dtor b) = insert (listen_fd b) (set fds)"
proof -
  let ?cs = "map (\<lambda>fd. (fd, wire 0 fd)) fds"
  let ?b = "\<lambda>lfd ys. \<lparr>bs_rank = 0, bs_world_size = int P, conn_fd = -1, listen_fd = lfd, peer_fds = -1 # ys\<rparr>"
  have cs: "map fst ?cs = fds" "fst ` set ?cs = set fds" by (simp_all add: comp_def image_image)
  have dist: "distinct (map snd ?cs)" using fds(3) peers(2) by (simp add: comp_def distinct_map)
  have "set (map snd ?cs) = {1..<P}"
    by (rule ranks_complete [OF dist]) (use fds(2) peers(1) in auto)
  then have ranks: "snd ` set ?cs = {1..<P}" by (simp add: image_image)
  obtain ys where ys: "foldl (\<lambda>fds (fd, a). fds[a := fd]) (replicate P (-1)) ?cs = -1 # ys" "set ys = set fds"
    using file_all_table [OF dist ranks P(1)] unfolding cs(2) by blast
  have "\<forall>(fd, a)\<in>set ?cs. 0 < a \<and> a < P \<and> inq s fd = put_u32 (of_nat a) @ rest fd"
    using peers(1) by auto
  with rendezvous.root_ctor_files [OF net, of P s ?cs rest port] P(2) fds cs
  obtain lfd s' where s': "0 \<le> lfd" "root_ctor N (int P) port s = Some (Inr (?b lfd ys), s')"
      "inq s' = (\<lambda>fd. if fd \<in> set fds then rest fd else inq s fd)"
    unfolding ys(1) by auto
  have filed: "(-1 # ys) ! wire 0 fd = fd" if "fd \<in> set fds" for fd
    unfolding ys(1) [symmetric] by (rule file_all_nth [OF _ dist]) (use that peers(1) in auto)
  have "\<forall>r\<in>{1..<P}. wire 0 ((-1 # ys) ! r) = r"
  proof
    fix r assume "r \<in> {1..<P}"
    then obtain fd where "fd \<in> set fds" "r = wire 0 fd" unfolding ranks [symmetric] by auto
    with filed [of fd] show "wire 0 ((-1 # ys) ! r) = r" by simp
  qed
  moreover have len: "length (-1 # ys) = P" unfolding ys(1) [symmetric] by simp
  ultimately have "wired wire P (B(0 := ?b lfd ys))" using P(1) clients by (auto simp: wired_def)
  moreover have "tcp_bootstrap_dtor (?b lfd ys) = lfd # ys"
    using s'(1) ys(2) fds(4) by (simp add: tcp_bootstrap_dtor_def filter_id_conv)
  ultimately show ?thesis
    using s' ys(2) len by (intro exI conjI) (auto simp: tcp_bootstrap_ctor_def)
qed

text \<open>Two peers, the second rank first, their announcements split and interrupted.\<close>

definition two_peers :: host where
  "two_peers =
     \<lparr>streams = \<lparr>tin = (\<lambda>fd. if fd = 5 then put_u32 2 @ [7] else if fd = 6 then put_u32 1 else []),
        tout = (\<lambda>_. []), script = [1, 0, 2]\<rparr>,
      backlog = [5, 6], next_fd = 3, refusals = 0, closed = []\<rparr>"

theorem tcp_bootstrap_ctor_wires_witness:
  "\<exists>b s'. tcp_bootstrap_ctor host_calls 0 3 [] 7000 two_peers = Some (Inr b, s') \<and>
     length (tcp_bootstrap_dtor b) = 3 \<and> tin (streams s') 5 = [7]"
proof -
  let ?wire = "\<lambda>r fd. if r = 0 then nat (7 - fd) else 0"
  let ?rest = "\<lambda>fd. if fd = 5 then [7] else []"
  let ?B = "\<lambda>r. \<lparr>bs_rank = int r, bs_world_size = 3, conn_fd = 4, listen_fd = -1, peer_fds = []\<rparr>"
  have "\<exists>b s'. tcp_bootstrap_ctor host_calls 0 (int 3) [] 7000 two_peers = Some (Inr b, s') \<and> wired ?wire 3 (?B(0 := b)) \<and>
      (\<forall>fd\<in>set [5, 6]. tin (streams s') fd = ?rest fd) \<and>
      length (tcp_bootstrap_dtor b) = 3 \<and> set (tcp_bootstrap_dtor b) = insert (listen_fd b) (set [5, 6])"
    by (rule tcp_bootstrap_ctor_wires [OF host.rendezvous_axioms]) (auto simp: two_peers_def inj_on_def)
  then show ?thesis by auto
qed

text \<open>
  C40: rank 0 does not notice that two peers announce the same rank: the constructor still
  succeeds once it has accepted as many connections as there are other ranks, and leaves
  some rank without a socket, -1 in its place.
\<close>

theorem duplicate_rank_accepted:
  assumes net: "rendezvous N inq outq signals pending" and P: "P < 2 ^ 31"
    and cs: "pending s = map fst cs" "length cs = P - 1" "distinct (map fst cs)"
      "\<forall>(fd, a)\<in>set cs. 0 < a \<and> a < P \<and> inq s fd = put_u32 (of_nat a) @ rest fd"
    and dup: "\<not> distinct (map snd cs)"
  shows "\<exists>b s'. tcp_bootstrap_ctor N 0 (int P) host port s = Some (Inr b, s') \<and>
    (\<exists>r\<in>{1..<P}. peer_fds b ! r = -1)"
proof -
  let ?fds = "foldl (\<lambda>fds (fd, a). fds[a := fd]) (replicate P (-1)) cs"
  obtain r where r: "r \<in> {1..<P}" "r \<notin> set (map snd cs)"
    using ranks_incomplete [OF dup, of P] cs(2,4) by fastforce
  then have "?fds ! r = -1" using file_all_other [of r cs "replicate P (-1)"] by simp
  moreover obtain b s' where "root_ctor N (int P) port s = Some (Inr b, s')" "peer_fds b = ?fds"
    using rendezvous.root_ctor_files [OF net _ cs(1-3), of rest port] P cs(4) by auto
  ultimately show ?thesis using r(1) by (auto simp: tcp_bootstrap_ctor_def)
qed

theorem duplicate_rank_accepted_witness:
  "\<exists>b s' r. tcp_bootstrap_ctor host_calls 0 3 [] 7000
       (two_peers\<lparr>streams := \<lparr>tin = \<lambda>_. put_u32 1, tout = \<lambda>_. [], script = []\<rparr>\<rparr>) = Some (Inr b, s') \<and>
     r \<in> {1..<3} \<and> peer_fds b ! r = -1"
proof -
  let ?s = "two_peers\<lparr>streams := \<lparr>tin = \<lambda>_. put_u32 1, tout = \<lambda>_. [], script = []\<rparr>\<rparr>"
  have "\<exists>b s'. tcp_bootstrap_ctor host_calls 0 (int 3) [] 7000 ?s = Some (Inr b, s') \<and>
      (\<exists>r\<in>{1..<3}. peer_fds b ! r = -1)"
    by (rule duplicate_rank_accepted [OF host.rendezvous_axioms, where cs = "[(5, 1), (6, 1)]" and rest = "\<lambda>_. []"])
      (auto simp: two_peers_def)
  then show ?thesis by auto
qed

text \<open>\<open>refused N host port k s t\<close>: \<open>k\<close> attempts in a row, each with a socket of its own that is closed
  afterwards, fail and lead from \<open>s\<close> to \<open>t\<close>.\<close>

fun refused :: "'s os_calls \<Rightarrow> string \<Rightarrow> u16 \<Rightarrow> nat \<Rightarrow> 's \<Rightarrow> 's \<Rightarrow> bool" where
  "refused N host port 0 s t \<longleftrightarrow> s = t"
| "refused N host port (Suc k) s t \<longleftrightarrow>
     (\<exists>fd errno s1 rc errno' s2. sys_socket N s = (fd, errno, s1) \<and> 0 \<le> fd \<and>
        sys_connect N fd host port s1 = (rc, errno', s2) \<and> rc \<noteq> 0 \<and>
        refused N host port k (sys_sleep N (sys_close N fd s2)) t)"

lemma connect_loop_refused:
  "refused N host port k s t \<Longrightarrow> \<exists>e'. connect_loop N host port (k + n) e s = connect_loop N host port n e' t"
  by (induction k arbitrary: s e) auto

text \<open>
  C38: connecting to rank 0 retries: after fewer than 50 refused attempts the first one that
  succeeds gives the socket, and 50 refused attempts end in an error; the sockets of the
  refused attempts are closed and the address list is freed once on either path.
\<close>

theorem connect_with_retry_bounded:
  assumes "sys_getaddrinfo N host port s = (0, s0)" "refused N host port k s0 t"
  shows "(k < 50 \<longrightarrow> sys_socket N t = (fd, e, t1) \<longrightarrow> 0 \<le> fd \<longrightarrow> sys_connect N fd host port t1 = (0, e', t2) \<longrightarrow>
      connect_with_retry N host port s = (Inr fd, sys_setsockopt N fd (sys_freeaddrinfo N t2))) \<and>
    (k = 50 \<longrightarrow> (\<exists>last. connect_with_retry N host port s =
      (Inl (RuntimeError (''could not connect to '' @ host @ '' after retries, last error: '')
        [int (unat port), last]), sys_freeaddrinfo N t)))"
proof -
  have start: "connect_with_retry N host port s = connect_loop N host port 50 0 s0"
    using assms(1) by (simp add: connect_with_retry_def kMaxAttempts_def)
  have "connect_with_retry N host port s = (Inr fd, sys_setsockopt N fd (sys_freeaddrinfo N t2))"
    if "k < 50" "sys_socket N t = (fd, e, t1)" "0 \<le> fd" "sys_connect N fd host port t1 = (0, e', t2)"
  proof -
    have "k + Suc (49 - k) = 50" using that(1) by simp
    with connect_loop_refused [OF assms(2), of "Suc (49 - k)" 0] obtain e'' where
      "connect_loop N host port 50 0 s0 = connect_loop N host port (Suc (49 - k)) e'' t" by metis
    with that show ?thesis by (simp add: start)
  qed
  moreover have "\<exists>last. connect_with_retry N host port s =
      (Inl (RuntimeError (''could not connect to '' @ host @ '' after retries, last error: '')
        [int (unat port), last]), sys_freeaddrinfo N t)" if k: "k = 50"
  proof -
    obtain e'' where "connect_loop N host port (50 + 0) 0 s0 = connect_loop N host port 0 e'' t"
      using connect_loop_refused [OF assms(2), of 0 0] unfolding k by blast
    then show ?thesis by (simp add: start)
  qed
  ultimately show ?thesis by blast
qed

theorem connect_with_retry_bounded_witness:
  "connect_with_retry host_calls [] 7000 (two_peers\<lparr>refusals := 2\<rparr>) =
     (Inr 5, two_peers\<lparr>next_fd := 6, closed := [3, 4]\<rparr>)"
proof -
  let ?t = "two_peers\<lparr>next_fd := 5, closed := [3, 4]\<rparr>"
  have "refused host_calls [] 7000 2 (two_peers\<lparr>refusals := 2\<rparr>) ?t"
    by (simp add: host_calls_def two_peers_def numeral_2_eq_2)
  from connect_with_retry_bounded [OF _ this, of "two_peers\<lparr>refusals := 2\<rparr>" 5 0 "?t\<lparr>next_fd := 6\<rparr>" 0 "?t\<lparr>next_fd := 6\<rparr>"]
  show ?thesis by (simp add: host_calls_def two_peers_def)
qed

end
