(* ===== verification/Startup.thy ===== *)
theory Startup
  imports Rank_Process Communicator Rendezvous
begin

text \<open>
  What every main program of the repository does before and around its collectives: it opens a device, constructs a
  \<^verbatim>\<open>Communicator\<close> with all its members, allocates and registers buffers, and calls \<^verbatim>\<open>Communicator::barrier\<close>. The libraries
  below the repository are the parameter \<open>host_env\<close>.
\<close>

section \<open>The environment of a process\<close>

text \<open>
  The verbs library as theory \<open>Device\<close> sees it; allocation of protection domains, completion queues and memory regions,
  and the local key of a region, calls that a process makes several times numbered from 0; the address of the \<open>i\<close>-th array of some bytes the process allocates; the queue
  pair calls; the socket calls; the order in which a hash map is visited; the durations the clock will show.
\<close>

record ('q, 'o) host_env =
  he_verbs :: verbs
  he_alloc_pd :: "ptr \<Rightarrow> ptr option \<times> int"
  he_create_cq :: "nat \<Rightarrow> ptr \<Rightarrow> int \<Rightarrow> ptr option \<times> int"
  he_reg_mr :: "nat \<Rightarrow> ptr \<Rightarrow> nat \<Rightarrow> nat \<Rightarrow> nat \<Rightarrow> ptr option \<times> int"
  he_lkey :: "ptr \<Rightarrow> nat"
  he_array :: "nat \<Rightarrow> nat \<Rightarrow> nat"
  he_qp :: "'q qp_calls"
  he_os :: "'o os_calls"
  he_iter :: "entry list \<Rightarrow> entry list"
  he_clock :: "nat \<Rightarrow> nat"

text \<open>A step of a process that may throw, and one that may also never return.\<close>

definition mtry :: "'a result \<Rightarrow> ('a \<Rightarrow> 't mprog) \<Rightarrow> 't mprog" where
  "mtry x k = (case x of Inl e \<Rightarrow> Fail e | Inr v \<Rightarrow> k v)"

definition mtry_loop :: "('a result \<times> 's) option \<Rightarrow> ('a \<Rightarrow> 't mprog) \<Rightarrow> 't mprog" where
  "mtry_loop x k = (case x of None \<Rightarrow> Spin | Some (res, _) \<Rightarrow> mtry res k)"

lemma mtry_simps [simp]:
  "mtry (Inl e) k = Fail e" "mtry (Inr v) k = k v"
  "mtry_loop None k' = Spin" "mtry_loop (Some (res, s)) k' = mtry res k'"
  by (simp_all add: mtry_def mtry_loop_def)

text \<open>\<^verbatim>\<open>native()\<close> of a wrapper: the pointer it holds, 0 for \<^verbatim>\<open>nullptr\<close>.\<close>

definition native :: "ptr option \<Rightarrow> ptr" where
  "native h = (case h of None \<Rightarrow> 0 | Some p \<Rightarrow> p)"

lemma native_Some [simp]: "native (Some p) = p"
  by (simp add: native_def)

text \<open>
  \<^verbatim>\<open>std::vector\<close> of \<open>len\<close> bytes, zeroed: too large a length throws. \<open>i\<close> numbers the arrays of the process.
\<close>

definition new_array :: "('q, 'o) host_env \<Rightarrow> nat \<Rightarrow> nat \<Rightarrow> (nat \<Rightarrow> 't mprog) \<Rightarrow> 't mprog" where
  "new_array H i len k =
     (if 2 ^ 63 \<le> len then Fail LengthError
      else let a = he_array H i len in Rdma (Compute (\<lambda>m. Inr (mem_write m a (replicate len 0))) Return) (k a))"

text \<open>\<^verbatim>\<open>MemoryRegion\<close> with the access flags of its default argument (local write, remote write, remote read).\<close>

definition register :: "('q, 'o) host_env \<Rightarrow> nat \<Rightarrow> ptr \<Rightarrow> nat \<Rightarrow> nat \<Rightarrow> (MemoryRegion \<Rightarrow> 't mprog) \<Rightarrow> 't mprog" where
  "register H i pd a len k =
     mtry (mr_ctor (he_reg_mr H i) pd a len 7) (\<lambda>h. k \<lparr>mr_lkey = he_lkey H (native h), mr_addr = a, mr_length = len\<rparr>)"

section \<open>Communicator\<close>

text \<open>
  The object: what collectives use of it, its protection domain, its bootstrap and the state of the driver after construction.
  A queue pair is named by the rank it leads to; that it does lead there is \<open>communicator_ends\<close>.
\<close>

record 'q comm_object =
  c_comm :: communicator
  c_pd :: ptr
  c_bootstrap :: TcpBootstrap
  c_qps :: "(int \<times> ptr) list"
  c_driver :: 'q

type_synonym 'q built = "(int \<times> ptr) list \<times> 'q"

definition comm_of :: "int \<Rightarrow> int \<Rightarrow> (int \<times> ptr) list \<Rightarrow> communicator" where
  "comm_of rank world_size qps =
     \<lparr>comm_rank = rank, comm_size = world_size, comm_qps = (\<lambda>p. map_option (\<lambda>_. nat p) (map_of qps p))\<rparr>"

text \<open>
  The constructor: its members in the order of their declaration, then its body. \<open>k\<close> is what the process does with the object.
\<close>

definition communicator_ctor ::
    "('q, 'o) host_env \<Rightarrow> Device \<Rightarrow> int \<Rightarrow> int \<Rightarrow> string \<Rightarrow> u16 \<Rightarrow> 'q \<Rightarrow> 'o \<Rightarrow>
      ('q comm_object \<Rightarrow> 'q built mprog) \<Rightarrow> 'q built mprog" where
  "communicator_ctor H device rank world_size root_host root_port q s k =
     mtry (pd_ctor (he_alloc_pd H) (native (context_ptr device))) (\<lambda>pd.
     mtry (cq_ctor (he_create_cq H 0) (native (context_ptr device)) 128) (\<lambda>send_cq.
     mtry (cq_ctor (he_create_cq H 1) (native (context_ptr device)) 128) (\<lambda>recv_cq.
     mtry_loop (tcp_bootstrap_ctor (he_os H) rank world_size root_host root_port s) (\<lambda>bootstrap.
     Tcp (communicator_body (he_qp H) device (native pd) (native send_cq) (native recv_cq) bootstrap rank world_size (he_iter H) q)
       (\<lambda>(qps, q). k \<lparr>c_comm = comm_of rank world_size qps, c_pd = native pd, c_bootstrap = bootstrap, c_qps = qps, c_driver = q\<rparr>)))))"

definition comm_barrier :: "'q comm_object \<Rightarrow> 'q built mprog \<Rightarrow> 'q built mprog" where
  "comm_barrier c k = Tcp (barrier (c_bootstrap c) (BRet ([], c_driver c))) (\<lambda>_. k)"

section \<open>A host that works\<close>

text \<open>The device opens as \<open>d\<close> and its domain and completion queues can be allocated.\<close>

definition opens :: "('q, 'o) host_env \<Rightarrow> Device \<Rightarrow> bool" where
  "opens H d \<longleftrightarrow> (\<exists>calls. device_ctor (he_verbs H) [] = Some (Inr d, calls)) \<and> device_ok d \<and>
     (\<exists>p errno. he_alloc_pd H (native (context_ptr d)) = (Some p, errno)) \<and>
     (\<forall>i<2. \<exists>p errno. he_create_cq H i (native (context_ptr d)) 128 = (Some p, errno)) \<and>
     (\<forall>xs. mset (he_iter H xs) = mset xs)"

text \<open>The bootstrap's constructor ends with \<open>b\<close>; theory \<open>Rendezvous\<close> says when it does.\<close>

definition joins :: "('q, 'o) host_env \<Rightarrow> int \<Rightarrow> int \<Rightarrow> string \<Rightarrow> u16 \<Rightarrow> 'o \<Rightarrow> TcpBootstrap \<Rightarrow> bool" where
  "joins H rank world_size root_host root_port s b \<longleftrightarrow>
     (\<exists>t. tcp_bootstrap_ctor (he_os H) rank world_size root_host root_port s = Some (Inr b, t))"

definition the_pd :: "('q, 'o) host_env \<Rightarrow> Device \<Rightarrow> ptr" where
  "the_pd H d = native (fst (he_alloc_pd H (native (context_ptr d))))"

text \<open>The \<open>i\<close>-th registration succeeds and the hardware knows the region.\<close>

definition the_mr :: "('q, 'o) host_env \<Rightarrow> nat \<Rightarrow> ptr \<Rightarrow> nat \<Rightarrow> nat \<Rightarrow> MemoryRegion" where
  "the_mr H i pd a len = \<lparr>mr_lkey = he_lkey H (native (fst (he_reg_mr H i pd a len 7))), mr_addr = a, mr_length = len\<rparr>"

definition registers :: "('q, 'o) host_env \<Rightarrow> endpoint \<Rightarrow> nat \<Rightarrow> ptr \<Rightarrow> nat \<Rightarrow> nat \<Rightarrow> bool" where
  "registers H e i pd a len \<longleftrightarrow>
     (\<exists>p errno. he_reg_mr H i pd a len 7 = (Some p, errno)) \<and> registered e (the_mr H i pd a len)"

lemma register_ok: "registers H e i pd a len \<Longrightarrow> register H i pd a len k = k (the_mr H i pd a len)"
  by (auto simp: registers_def register_def the_mr_def mr_ctor_def check_ptr_def bind_res_def)

lemma the_mr_sel [simp]: "mr_addr (the_mr H i pd a len) = a" "mr_length (the_mr H i pd a len) = len"
  by (simp_all add: the_mr_def)

section \<open>Phases of the start\<close>

lemma mstage_cong: "mstage w P m M E \<Longrightarrow> (\<And>r. r < P \<Longrightarrow> m r = m' r) \<Longrightarrow> mstage w P m' M E"
proof -
  assume w: "mstage w P m M E" and "\<And>r. r < P \<Longrightarrow> m r = m' r"
  then have "mranks P m = mranks P m'" by (auto simp: mranks_def)
  with w show ?thesis by (simp add: mstage_def)
qed

text \<open>Code of all ranks that does not communicate.\<close>

lemma phase_compute:
  assumes "\<And>r. r < P \<Longrightarrow> f r (M r) = Inr (M' r)" "\<And>r. P \<le> r \<Longrightarrow> M' r = M r"
    and w: "mstage w P (\<lambda>r. Rdma (Compute (f r) Return) (k r)) M E"
  shows "\<exists>w'. mreach wire w w' \<and> mstage w' P k M' E"
proof -
  have "\<exists>as u' M2. run (exec rc_fabric) as u = Some u' \<and> stage u' (ranks P (\<lambda>_. Return)) M2 E \<and> M2 = M'"
    if "stage u (ranks P (\<lambda>r. Compute (f r) Return)) M E" for u
    using compute_stage [OF that assms(1,2)] by blast
  from phase_rdma [OF w this] show ?thesis by blast
qed

definition zeroed :: "nat \<Rightarrow> (nat \<Rightarrow> nat) \<Rightarrow> (nat \<Rightarrow> nat) \<Rightarrow> (nat \<Rightarrow> mem) \<Rightarrow> nat \<Rightarrow> mem" where
  "zeroed P a len M r = (if r < P then mem_write (M r) (a r) (replicate (len r) 0) else M r)"

lemma phase_array:
  assumes "\<And>r. r < P \<Longrightarrow> len r < 2 ^ 63"
    and w: "mstage w P (\<lambda>r. new_array (H r) i (len r) (k r)) M E"
  shows "\<exists>w'. mreach wire w w' \<and> mstage w' P (\<lambda>r. k r (he_array (H r) i (len r))) (zeroed P (\<lambda>r. he_array (H r) i (len r)) len M) E"
proof -
  let ?a = "\<lambda>r. he_array (H r) i (len r)"
  have "new_array (H r) i (len r) (k r) =
      Rdma (Compute (\<lambda>m. Inr (mem_write m (?a r) (replicate (len r) 0))) Return) (k r (?a r))" if "r < P" for r
    using assms(1) [OF that] by (simp add: new_array_def Let_def)
  with w have "mstage w P (\<lambda>r. Rdma (Compute (\<lambda>m. Inr (mem_write m (?a r) (replicate (len r) 0))) Return) (k r (?a r))) M E"
    by (rule mstage_cong)
  then show ?thesis by (rule phase_compute [rotated 2]) (simp_all add: zeroed_def)
qed

lemma phase_new_array:
  assumes "n < 2 ^ 63" and "mstage w P (\<lambda>r. new_array (H r) i n (\<lambda>_. k r)) M E"
  obtains w' M' where "mreach wire w w'" "mstage w' P k M' E"
  using phase_array [where len = "\<lambda>_. n", OF assms] by blast

lemma new_array_cong: "k (he_array H i len) = k' (he_array H i len) \<Longrightarrow> new_array H i len k = new_array H i len k'"
  by (simp add: new_array_def Let_def)

lemma mdisc_array: "mdisc (k (he_array H i len)) \<Longrightarrow> mdisc (new_array H i len k)"
  by (simp add: new_array_def Let_def)

text \<open>The object the constructor of rank \<open>r\<close> makes of its queue pairs.\<close>

definition made ::
    "('q, 'o) host_env \<Rightarrow> Device \<Rightarrow> nat \<Rightarrow> nat \<Rightarrow> TcpBootstrap \<Rightarrow> (int \<times> ptr) list \<Rightarrow> 'q \<Rightarrow> 'q comm_object" where
  "made H d P r b qps q = \<lparr>c_comm = comm_of (int r) (int P) qps, c_pd = the_pd H d, c_bootstrap = b, c_qps = qps, c_driver = q\<rparr>"

lemma made_sel [simp]:
  "c_comm (made H d P r b qps q) = comm_of (int r) (int P) qps" "c_pd (made H d P r b qps q) = the_pd H d"
  "c_bootstrap (made H d P r b qps q) = b" "c_qps (made H d P r b qps q) = qps" "c_driver (made H d P r b qps q) = q"
  by (simp_all add: made_def)

text \<open>Every two ranks have a pair of queue pairs ready to send, linked with each other.\<close>

definition meshed ::
    "nat \<Rightarrow> (nat \<Rightarrow> Device) \<Rightarrow> (nat \<Rightarrow> 'q \<Rightarrow> ptr \<rightharpoonup> qp_hw) \<Rightarrow> (nat \<Rightarrow> (int \<times> ptr) list) \<Rightarrow> (nat \<Rightarrow> 'q) \<Rightarrow> bool" where
  "meshed P d hw qps t \<longleftrightarrow>
     (\<forall>r<P. \<forall>q<P. r \<noteq> q \<longrightarrow> (\<exists>p p' hr hq. map_of (qps r) (int q) = Some p \<and> hw r (t r) p = Some hr \<and>
        map_of (qps q) (int r) = Some p' \<and> hw q (t q) p' = Some hq \<and> mesh_link (d r) (d q) hr hq))"

lemma meshed_connected: "meshed P d hw qps t \<Longrightarrow> r < P \<Longrightarrow> connected P r (comm_of (int r) (int P) (qps r))"
  unfolding meshed_def connected_def comm_of_def by fastforce

text \<open>
  All ranks construct their communicators: afterwards the mesh stands, and each rank goes on with its own.
\<close>

lemma phase_communicator:
  fixes q :: "nat \<Rightarrow> 'q"
  assumes wired: "wired wire P B" "P < 2 ^ 16"
    and host: "\<And>r. r < P \<Longrightarrow> opens (H r) (d r) \<and> joins (H r) (int r) (int P) (host r) (port r) (s r) (B r)"
    and driver: "\<And>r. r < P \<Longrightarrow> qp_driver (he_qp (H r)) (hw r)"
  defines "ctor \<equiv> \<lambda>k r. communicator_ctor (H r) (d r) (int r) (int P) (host r) (port r) (q r) (s r) (k r)"
  shows "\<exists>qps t. meshed P d hw qps t \<and>
    (\<forall>k r. r < P \<longrightarrow> (\<forall>x. mdisc (k r (made (H r) (d r) P r (B r) (qps r) x))) \<longrightarrow> mdisc (ctor k r)) \<and>
    (\<forall>k w M E. mstage w P (ctor k) M E \<longrightarrow>
       (\<exists>w'. mreach wire w w' \<and> mstage w' P (\<lambda>r. k r (made (H r) (d r) P r (B r) (qps r) (t r))) M E))"
proof -
  define cq where "cq i r = native (fst (he_create_cq (H r) i (native (context_ptr (d r))) 128))" for i r
  define iter where "iter r = (if r < P then he_iter (H r) else id)" for r
  define body where "body r = communicator_body (he_qp (H r)) (d r) (the_pd (H r) (d r)) (cq 0 r) (cq 1 r) (B r) (int r) (int P) (iter r) (q r)" for r
  let ?made = "\<lambda>r x. made (H r) (d r) P r (B r) (fst x) (snd x)"
  have ctor: "ctor k r = Tcp (body r) (\<lambda>x. k r (?made r x))" if r: "r < P" for k r
  proof -
    obtain p e p0 e0 p1 e1 calls s' where ok: "device_ctor (he_verbs (H r)) [] = Some (Inr (d r), calls)"
      "he_alloc_pd (H r) (native (context_ptr (d r))) = (Some p, e)"
      "he_create_cq (H r) 0 (native (context_ptr (d r))) 128 = (Some p0, e0)"
      "he_create_cq (H r) 1 (native (context_ptr (d r))) 128 = (Some p1, e1)"
      "tcp_bootstrap_ctor (he_os (H r)) (int r) (int P) (host r) (port r) (s r) = Some (Inr (B r), s')"
      using host [OF r] unfolding opens_def joins_def by (metis one_less_numeral_iff semiring_norm(76) zero_less_numeral)
    then have "pd_ctor (he_alloc_pd (H r)) (native (context_ptr (d r))) = Inr (Some p)"
      "cq_ctor (he_create_cq (H r) 0) (native (context_ptr (d r))) 128 = Inr (Some p0)"
      "cq_ctor (he_create_cq (H r) 1) (native (context_ptr (d r))) 128 = Inr (Some p1)"
      by (simp_all add: pd_ctor_def cq_ctor_def check_ptr_def bind_res_def)
    with ok r show ?thesis
      by (simp add: ctor_def communicator_ctor_def the_pd_def cq_def body_def iter_def made_def split_beta' fun_eq_iff)
  qed
  have iter_perm: "\<forall>r xs. mset (iter r xs) = mset xs" using host by (simp add: iter_def opens_def)
  obtain qps t where ends: "always_ends (bexec wire) (tcp_job P body ([], q 0)) (\<lambda>f. f = tcp_job P (\<lambda>r. BRet (qps r, t r)) ([], q 0))"
    and res: "\<forall>r<P. \<forall>x\<in>set_bprog (body r). fst x = qps r" and mesh: "meshed P d hw qps t"
    using iter_perm communicator_ends [of wire P B "\<lambda>r. he_qp (H r)" hw d iter "\<lambda>r. the_pd (H r) (d r)" "cq 0" "cq 1" q "([], q 0)"]
      wired driver host unfolding body_def [symmetric] meshed_def [symmetric] by (auto simp: opens_def)
  have "reach wire (tcp_job P body ([], q 0)) (tcp_job P (\<lambda>r. BRet (qps r, t r)) ([], q 0))"
    using always_ends_exists [OF ends] unfolding reach_def by blast
  then have phase: "\<exists>w'. mreach wire w w' \<and> mstage w' P (\<lambda>r. k r (?made r (qps r, t r))) M E" if "mstage w P (ctor k) M E" for k w M E
    using phase_tcp [OF mstage_cong [OF that ctor]] by fastforce
  have "mdisc (ctor k r)" if "r < P" "\<forall>x. mdisc (k r (made (H r) (d r) P r (B r) (qps r) x))" for k r
    using res that by (auto simp: ctor)
  with phase mesh show ?thesis by (intro exI [of _ qps] exI [of _ t]) simp
qed

text \<open>
  The same for programs: what all ranks do once each has a communicator that works decides what they do as a whole.
\<close>

definition comm_works :: "('q, 'o) host_env \<Rightarrow> Device \<Rightarrow> TcpBootstrap \<Rightarrow> nat \<Rightarrow> nat \<Rightarrow> 'q comm_object \<Rightarrow> bool" where
  "comm_works H d b P r c \<longleftrightarrow> c_pd c = the_pd H d \<and> c_bootstrap c = b \<and> connected P r (c_comm c)"

lemma communicators_end:
  fixes q :: "nat \<Rightarrow> 'q"
  assumes F: "rc_contract F \<alpha>" "mprocs w = mranks P m" "wchan w = (\<lambda>_ _. [])" and idle: "\<And>x. idle (\<alpha> (wnet w) x)"
    and wired: "wired wire P B" "P < 2 ^ 16"
    and start: "\<And>r. r < P \<Longrightarrow> m r = communicator_ctor (H r) (d r) (int r) (int P) (host r) (port r) (q r) (s r) (k r)"
    and host: "\<And>r. r < P \<Longrightarrow> opens (H r) (d r) \<and> joins (H r) (int r) (int P) (host r) (port r) (s r) (B r)"
    and driver: "\<And>r. r < P \<Longrightarrow> qp_driver (he_qp (H r)) (hw r)" and fin: "\<And>r. r < P \<Longrightarrow> ended (m' r)"
    and disc: "\<forall>c. (\<forall>r<P. comm_works (H r) (d r) (B r) P r (c r)) \<longrightarrow> (\<forall>r<P. mdisc (k r (c r)))"
    and rest: "\<forall>c u M. (\<forall>r<P. comm_works (H r) (d r) (B r) P r (c r)) \<longrightarrow> mstage u P (\<lambda>r. k r (c r)) M (\<alpha> (wnet w)) \<longrightarrow>
      (\<exists>u' M'. mreach wire u u' \<and> mstage u' P m' M' (\<alpha> (wnet w)) \<and> Q M')"
  shows "always_ends (mexec F wire) w (\<lambda>f. (\<forall>r<P. mprocs f r = m' r) \<and> Q (wmems f))"
proof (rule world_ends [OF F idle])
  let ?ctor = "\<lambda>r. communicator_ctor (H r) (d r) (int r) (int P) (host r) (port r) (q r) (s r)"
  have ex: "\<exists>qps t. meshed P d hw qps t \<and>
      (\<forall>k r. r < P \<longrightarrow> (\<forall>x. mdisc (k r (made (H r) (d r) P r (B r) (qps r) x))) \<longrightarrow> mdisc (?ctor r (k r))) \<and>
      (\<forall>k w M E. mstage w P (\<lambda>r. ?ctor r (k r)) M E \<longrightarrow>
        (\<exists>w'. mreach wire w w' \<and> mstage w' P (\<lambda>r. k r (made (H r) (d r) P r (B r) (qps r) (t r))) M E))"
    by (rule phase_communicator [OF wired host driver])
  obtain qps t where mesh: "meshed P d hw qps t"
    and d: "\<forall>k r. r < P \<longrightarrow> (\<forall>x. mdisc (k r (made (H r) (d r) P r (B r) (qps r) x))) \<longrightarrow> mdisc (?ctor r (k r))"
    and phase: "\<forall>k w M E. mstage w P (\<lambda>r. ?ctor r (k r)) M E \<longrightarrow>
      (\<exists>w'. mreach wire w w' \<and> mstage w' P (\<lambda>r. k r (made (H r) (d r) P r (B r) (qps r) (t r))) M E)"
    using ex by (elim exE conjE) (rule that)
  let ?made = "\<lambda>r. made (H r) (d r) P r (B r) (qps r)"
  have works: "\<forall>r<P. comm_works (H r) (d r) (B r) P r (?made r (x r))" for x
    using meshed_connected [OF mesh] by (simp add: comm_works_def)
  show "mdisc (m r)" if r: "r < P" for r
    unfolding start [OF r] by (rule d [rule_format, where k = k, OF r]) (rule disc [rule_format, OF works [rule_format, where x = "\<lambda>_. x" for x] r])
  show "\<exists>u' M. mreach wire u u' \<and> mstage u' P m' M (\<alpha> (wnet w)) \<and> Q M" if u: "mstage u P m (wmems w) (\<alpha> (wnet w))" for u
  proof -
    obtain u1 where u1: "mreach wire u u1" "mstage u1 P (\<lambda>r. k r (?made r (t r))) (wmems w) (\<alpha> (wnet w))"
      using phase [rule_format, where k = k, OF mstage_cong [OF u start]] by blast
    from rest [rule_format, OF _ u1(2)] works mreach_trans [OF u1(1)] show ?thesis by blast
  qed
qed (rule fin)

lemma phase_barrier:
  assumes "wired wire P B" and "\<And>r. r < P \<Longrightarrow> c_bootstrap (c r) = B r"
    and w: "mstage w P (\<lambda>r. comm_barrier (c r) (k r)) M E"
  shows "\<exists>w'. mreach wire w w' \<and> mstage w' P k M E"
proof -
  let ?x = "\<lambda>r. ([], c_driver (c r))"
  have "\<exists>ls f. run (bexec wire) ls (tcp_job P (\<lambda>r. exchange (B r) [] (\<lambda>_. BRet (?x r))) (?x 0)) = Some f \<and>
      stuck (bexec wire) f \<and> f = tcp_job P (\<lambda>r. BRet (?x r)) (?x 0)"
    using exchange_ends [OF assms(1), of "\<lambda>_. []" "\<lambda>r _. BRet (?x r)" "?x 0"]
    by (intro always_ends_exists) (simp add: submissions_ok_def full_table_def length_concat comp_def)
  then have "reach wire (tcp_job P (\<lambda>r. barrier (B r) (BRet (?x r))) (?x 0)) (tcp_job P (\<lambda>r. BRet (?x r)) (?x 0))"
    unfolding reach_def barrier_def by blast
  moreover have "mstage w P (\<lambda>r. Tcp (barrier (B r) (BRet (?x r))) (\<lambda>_. k r)) M E"
    by (rule mstage_cong [OF w]) (simp add: comm_barrier_def assms(2))
  ultimately show ?thesis using phase_tcp by fastforce
qed

lemma mdisc_barrier: "mdisc k \<Longrightarrow> mdisc (comm_barrier c k)"
  by (simp add: comm_barrier_def)

section \<open>Hosts for examples\<close>

text \<open>
  A host with Soft-RoCE, arrays one after the other, and a network on which the connections of all other ranks already
  wait at rank 0.
\<close>

definition sample_host :: "(nat \<Rightarrow> nat \<Rightarrow> nat) \<Rightarrow> (sim, host) host_env" where
  "sample_host arrays = \<lparr>he_verbs = rxe, he_alloc_pd = (\<lambda>_. (Some 1, 0)), he_create_cq = (\<lambda>i _ _. (Some (2 + i), 0)),
     he_reg_mr = (\<lambda>i _ _ _ _. (Some (Suc i), 0)), he_lkey = id, he_array = arrays, he_qp = sim_driver, he_os = host_calls,
     he_iter = id, he_clock = id\<rparr>"

definition sample_net :: "nat \<Rightarrow> host" where
  "sample_net P = \<lparr>streams = \<lparr>tin = (\<lambda>fd. put_u32 (word_of_int (fd - 9))), tout = (\<lambda>_. []), script = []\<rparr>,
     backlog = [10..<9 + P], next_fd = 4, refusals = 1, closed = []\<rparr>"

lemma sample_client_joins: "\<exists>t fd. tcp_bootstrap_ctor host_calls (int (Suc r)) (int P) root port (sample_net P) =
    Some (Inr \<lparr>bs_rank = int (Suc r), bs_world_size = int P, conn_fd = fd, listen_fd = -1, peer_fds = []\<rparr>, t)"
proof -
  have "connect_loop host_calls root port (Suc (Suc n)) 0 (sample_net P) =
      (Inr 5, (sample_net P)\<lparr>next_fd := 6, refusals := 0, closed := [4]\<rparr>)" for n
    by (simp add: host_calls_def sample_net_def)
  from this [of 48] have "connect_with_retry host_calls root port (sample_net P) =
      (Inr 5, (sample_net P)\<lparr>next_fd := 6, refusals := 0, closed := [4]\<rparr>)"
    by (simp add: connect_with_retry_def kMaxAttempts_def host_calls_def)
  moreover obtain t where "send_exact (os_sockets host_calls) 5 (put_u32 (word_of_int (int (Suc r))))
      ((sample_net P)\<lparr>next_fd := 6, refusals := 0, closed := [4]\<rparr>) = Some (Inr (), t)"
    using host.send_loop_exact [of 0 "put_u32 (word_of_int (int (Suc r)))" 5] unfolding send_exact_def by blast
  ultimately show ?thesis by (simp add: tcp_bootstrap_ctor_def client_ctor_def)
qed

lemma sample_hosts_join:
  assumes "0 < P" "P < 2 ^ 16"
  shows "\<exists>B. wired sample_wire P B \<and>
    (\<forall>r<P. joins (sample_host arrays) (int r) (int P) (root r) (port r) (sample_net P) (B r))"
proof -
  let ?cs = "map (\<lambda>q. (int (9 + q), q)) [1..<P]"
  let ?fds = "foldl (\<lambda>fds (fd, a). fds[a := fd]) (replicate P (-1)) ?cs"
  have "map int [10..<9 + P] = map (\<lambda>q. int (9 + q)) [1..<P]"
    by (rule nth_equalityI) (simp_all add: ac_simps)
  then have cs: "map int (backlog (sample_net P)) = map fst ?cs"
    by (simp add: sample_net_def comp_def)
  have dist: "distinct (map fst ?cs)" "distinct (map snd ?cs)"
    by (simp_all add: comp_def distinct_map inj_on_def)
  have tin: "\<forall>(fd, a)\<in>set ?cs. 0 < a \<and> a < P \<and> tin (streams (sample_net P)) fd = put_u32 (of_nat a) @ []"
    by (auto simp: sample_net_def)
  obtain lfd t where "root_ctor host_calls (int P) (port 0) (sample_net P) =
      Some (Inr \<lparr>bs_rank = 0, bs_world_size = int P, conn_fd = -1, listen_fd = lfd, peer_fds = ?fds\<rparr>, t)"
    using host.root_ctor_files [of P "sample_net P" ?cs "\<lambda>_. []" "port 0"] cs dist(1) tin assms by auto
  then have root: "joins (sample_host arrays) (int 0) (int P) (root 0) (port 0) (sample_net P)
      \<lparr>bs_rank = 0, bs_world_size = int P, conn_fd = -1, listen_fd = lfd, peer_fds = ?fds\<rparr>" (is "joins _ _ _ _ _ _ ?b")
    by (auto simp: joins_def sample_host_def tcp_bootstrap_ctor_def)
  have "\<exists>b. joins (sample_host arrays) (int (Suc r)) (int P) (root (Suc r)) (port (Suc r)) (sample_net P) b \<and>
      bs_rank b = int (Suc r) \<and> bs_world_size b = int P" for r
    using sample_client_joins [of r P "root (Suc r)" "port (Suc r)"] by (fastforce simp: joins_def sample_host_def)
  then obtain C where C: "\<And>r. joins (sample_host arrays) (int (Suc r)) (int P) (root (Suc r)) (port (Suc r)) (sample_net P) (C r) \<and>
      bs_rank (C r) = int (Suc r) \<and> bs_world_size (C r) = int P" by metis
  let ?B = "\<lambda>r. case r of 0 \<Rightarrow> ?b | Suc r \<Rightarrow> C r"
  have "?fds ! r = int (9 + r)" if "r \<in> {1..<P}" for r
    by (rule file_all_nth [OF _ dist(2)]) (use that in auto)
  then have "wired sample_wire P ?B"
    using assms C by (auto simp: wired_def sample_wire_def split: nat.split)
  moreover have "\<forall>r<P. joins (sample_host arrays) (int r) (int P) (root r) (port r) (sample_net P) (?B r)"
    using root C by (auto split: nat.split)
  ultimately show ?thesis by blast
qed

lemma sample_opens: "opens (sample_host arrays) rxe_device"
  by (auto simp: opens_def sample_host_def rxe_opens device_ok_def rxe_device_def)

lemma sample_registers:
  "regs e (Suc i) = Some (a, len) \<Longrightarrow> registers (sample_host arrays) e i pd a len"
  by (simp add: registers_def registered_def the_mr_def sample_host_def)

lemma sample_host_sel [simp]: "he_qp (sample_host arrays) = sim_driver" "he_array (sample_host arrays) = arrays"
  by (simp_all add: sample_host_def)

end
