(* ===== verification/Pingpong.thy ===== *)
theory Pingpong
  imports Broadcast Allreduce_Common
begin

text \<open>
  The data path of \<^verbatim>\<open>examples/pingpong.cc\<close>: rank 0 fills a buffer with a pattern, sends it, and checks that
  what comes back is what it sent; rank 1 sends back what it received. The queue pair of a
  rank is named by the rank it leads to, as in the collectives.
\<close>

section \<open>The program\<close>

record pingpong_env =
  pp_rank :: int
  pp_peer :: nat
  pp_size :: nat
  pp_send_mr :: MemoryRegion
  pp_send_buf :: nat
  pp_recv_mr :: MemoryRegion
  pp_recv_buf :: nat

text \<open>
  \<^verbatim>\<open>rank * 131 + iter * 17\<close> is computed in \<^verbatim>\<open>int\<close>, where overflow is undefined; the index is a \<^verbatim>\<open>size_t\<close>, and the
  mask keeps the low byte.
\<close>

definition pattern_byte :: "int \<Rightarrow> int \<Rightarrow> nat \<Rightarrow> byte" where
  "pattern_byte rank iter i = word_of_int ((rank * 131 + iter * 17 + int i) mod 256)"

definition fill_pattern :: "nat \<Rightarrow> nat \<Rightarrow> int \<Rightarrow> int \<Rightarrow> mem \<Rightarrow> mem result" where
  "fill_pattern buf len rank iter m =
     (if 0 < len \<and> \<not> (int_range (rank * 131) \<and> int_range (iter * 17) \<and> int_range (rank * 131 + iter * 17))
      then Inl (Undefined ''signed integer overflow'')
      else Inr (mem_write m buf (map (pattern_byte rank iter) [0..<len])))"

abbreviation size_mismatch :: string where
  "size_mismatch \<equiv> ''pingpong: echo size mismatch, sent % got %''"

abbreviation data_mismatch :: string where
  "data_mismatch \<equiv> ''pingpong: echoed data does not match what was sent (iteration %)''"

abbreviation unexpected_size :: string where
  "unexpected_size \<equiv> ''pingpong: rank 1 received unexpected size %, expected %''"

text \<open>\<^verbatim>\<open>std::memcmp\<close> of the two buffers.\<close>

definition check_echo :: "pingpong_env \<Rightarrow> int \<Rightarrow> mem \<Rightarrow> mem result" where
  "check_echo a iter m =
     (if mem_read m (pp_send_buf a) (pp_size a) \<noteq> mem_read m (pp_recv_buf a) (pp_size a)
      then Inl (RuntimeError data_mismatch [iter]) else Inr m)"

definition ping_round :: "pingpong_env \<Rightarrow> int \<Rightarrow> rprog \<Rightarrow> rprog" where
  "ping_round a iter k =
     Compute (fill_pattern (pp_send_buf a) (pp_size a) (pp_rank a) iter)
     (post_recv (pp_peer a) (pp_recv_mr a) (pp_recv_buf a) (pp_size a) 1
     (send (pp_peer a) (pp_send_mr a) (pp_send_buf a) (pp_size a)
     (wait_completion RecvCq (\<lambda>wc.
        if wc_byte_len wc \<noteq> pp_size a
        then Throw (RuntimeError size_mismatch [int (pp_size a), int (wc_byte_len wc)])
        else Compute (check_echo a iter) k))))"

definition pong_round :: "pingpong_env \<Rightarrow> rprog \<Rightarrow> rprog" where
  "pong_round a k =
     recv (pp_peer a) (pp_recv_mr a) (pp_recv_buf a) (pp_size a) (\<lambda>got.
       if got \<noteq> pp_size a
       then Throw (RuntimeError unexpected_size [int got, int (pp_size a)])
       else send (pp_peer a) (pp_recv_mr a) (pp_recv_buf a) got k)"

text \<open>The loop over \<^verbatim>\<open>iter\<close>, with \<open>n\<close> iterations left.\<close>

fun pingpong_loop :: "pingpong_env \<Rightarrow> nat \<Rightarrow> int \<Rightarrow> rprog \<Rightarrow> rprog" where
  "pingpong_loop a 0 iter k = k"
| "pingpong_loop a (Suc n) iter k =
     (if pp_rank a = 0 then ping_round a iter (pingpong_loop a n (iter + 1) k)
      else pong_round a (pingpong_loop a n (iter + 1) k))"

definition pingpong_main :: "pingpong_env \<Rightarrow> int \<Rightarrow> int \<Rightarrow> rprog \<Rightarrow> rprog" where
  "pingpong_main a warmup iters k =
     (let total_rounds = warmup + iters in
      if \<not> int_range total_rounds then Throw (Undefined ''signed integer overflow'')
      else pingpong_loop a (nat total_rounds) 0 k)"

section \<open>Two ranks that fit together\<close>

definition pingpong_ready :: "nat \<Rightarrow> (nat \<Rightarrow> pingpong_env) \<Rightarrow> (nat \<Rightarrow> endpoint) \<Rightarrow> bool" where
  "pingpong_ready n A E \<longleftrightarrow> n < 2 ^ 32 \<and>
     (\<forall>r<2. pp_rank (A r) = int r \<and> pp_peer (A r) = 1 - r \<and> pp_size (A r) = n \<and>
        registered (E r) (pp_send_mr (A r)) \<and> mr_addr (pp_send_mr (A r)) = pp_send_buf (A r) \<and>
        mr_length (pp_send_mr (A r)) = n \<and>
        registered (E r) (pp_recv_mr (A r)) \<and> mr_addr (pp_recv_mr (A r)) = pp_recv_buf (A r) \<and>
        mr_length (pp_recv_mr (A r)) = n \<and>
        disjoint_ranges (pp_send_buf (A r)) n (pp_recv_buf (A r)) n)"

text \<open>The pattern of an iteration.\<close>

definition pattern :: "nat \<Rightarrow> int \<Rightarrow> byte list" where
  "pattern n iter = map (pattern_byte 0 iter) [0..<n]"

definition echo_req :: "MemoryRegion \<Rightarrow> nat \<Rightarrow> nat \<Rightarrow> ibv_recv_wr" where
  "echo_req mr a len = \<lparr>rwr_id = 1, rwr_sge = wr_sge mr a len\<rparr>"

lemma post_echo:
  "post_recv qp mr a len 1 k =
   IbvPostRecv qp (echo_req mr a len) (\<lambda>rc. or_throw (check_rc rc ''ibv_post_recv'') (\<lambda>_. k))"
  by (simp add: post_recv_def echo_req_def wr_sge_def)

lemma disc_post_echo:
  "disc k None (Some (echo_req mr a len)) \<Longrightarrow> disc (post_recv qp mr a len 1 k) None None"
  unfolding post_echo by (simp add: or_throw_def check_rc_def)

lemma disc_ping_round:
  assumes "disjoint_ranges (pp_send_buf a) (pp_size a) (pp_recv_buf a) (pp_size a)" "disc k None None"
  shows "disc (ping_round a iter k) None None"
proof -
  have "sge_disjoint (wr_sge (pp_send_mr a) (pp_send_buf a) (pp_size a)) (wr_sge (pp_recv_mr a) (pp_recv_buf a) (pp_size a))"
    using disjoint_ranges_sub [OF assms(1), of "pp_send_buf a" "to_u32 (pp_size a)" "pp_recv_buf a" "to_u32 (pp_size a)"]
      to_u32_le [of "pp_size a"] by (simp add: sge_disjoint_def)
  with assms(2) show ?thesis
    unfolding ping_round_def
    by (auto simp: send_def echo_req_def simp del: One_nat_def intro!: disc_post_echo disc_wait_send disc_wait_recv)
qed

lemma disc_pong_round: "disc k None None \<Longrightarrow> disc (pong_round a k) None None"
  unfolding pong_round_def by (intro disc_recv) (simp add: disc_send)

lemma disc_pingpong_loop:
  assumes "disjoint_ranges (pp_send_buf a) (pp_size a) (pp_recv_buf a) (pp_size a)" "disc k None None"
  shows "disc (pingpong_loop a n iter k) None None"
  by (induction n arbitrary: iter) (simp_all add: assms disc_ping_round disc_pong_round)

section \<open>One round\<close>

lemma run_nic:
  assumes "view w p = (pp, mp, ep)" "view w q = (pq, mq, eq)" "p \<noteq> q" "sq ep q = s # ss" "rq eq p = r # rs"
    and "sge_ok ep (swr_sge s)" "sge_ok eq (rwr_sge r)" "sge_length (swr_sge s) \<le> sge_length (rwr_sge r)"
  shows "run (exec rc_fabric) [Nic p q] w =
    Some (upd (upd w p (pp, mp, sender_done q s IBV_WC_SUCCESS ep)) q
       (pq, deliver (swr_sge s) (rwr_sge r) mp mq, receiver_done p r s (Some IBV_WC_SUCCESS) eq))"
proof -
  have v: "net w p = ep" "net w q = eq" "mems w p = mp" "mems w q = mq" "procs w p = pp" "procs w q = pq"
    using assms(1,2) by (simp_all add: view_def)
  have "exec rc_fabric (Nic p q) w = Some (nic_job p q s r IBV_WC_SUCCESS (Some IBV_WC_SUCCESS) w)"
    using assms(4-8) by (simp add: exec_Nic_eq_Some v xfer_status_def)
  moreover have "nic_job p q s r IBV_WC_SUCCESS (Some IBV_WC_SUCCESS) w =
      upd (upd w p (pp, mp, sender_done q s IBV_WC_SUCCESS ep)) q
       (pq, deliver (swr_sge s) (rwr_sge r) mp mq, receiver_done p r s (Some IBV_WC_SUCCESS) eq)"
    by (rule job_eqI) (use assms(3) in \<open>simp add: view_nic_job v\<close>, simp add: view_def)
  ultimately show ?thesis by simp
qed

text \<open>The job once rank 0 and rank 1 are at \<open>a\<close> and \<open>b\<close>; a step of either and a message each way.\<close>

definition duo :: "(nat \<Rightarrow> endpoint) job \<Rightarrow> rank_state \<Rightarrow> rank_state \<Rightarrow> (nat \<Rightarrow> endpoint) job" where
  "duo w a b = upd (upd w 0 a) 1 b"

definition reaches :: "(nat \<Rightarrow> endpoint) job \<Rightarrow> (nat \<Rightarrow> endpoint) job \<Rightarrow> bool" where
  "reaches w w' \<longleftrightarrow> (\<exists>as. run (exec rc_fabric) as w = Some w')"

lemma reaches_trans [trans]: "reaches u v \<Longrightarrow> reaches v w \<Longrightarrow> reaches u w"
  unfolding reaches_def by (blast intro: run_appendI)

lemma view_duo [simp]: "view (duo w a b) x = (if x = 1 then b else if x = 0 then a else view w x)"
  by (simp add: duo_def)

lemma duo_upd [simp]: "upd (duo w a b) 0 a' = duo w a' b" "upd (duo w a b) (Suc 0) b' = duo w a b'"
  by (rule job_eqI; simp)+

lemma duo_left: "lsteps a a' \<Longrightarrow> reaches (duo w a b) (duo w a' b)"
  using run_lsteps [of "duo w a b" 0 a'] by (simp add: reaches_def)

lemma duo_right: "lsteps b b' \<Longrightarrow> reaches (duo w a b) (duo w a b')"
  using run_lsteps [of "duo w a b" 1 b'] by (simp add: reaches_def)

lemma duo_nic:
  assumes "sq ep 1 = s # ss" "rq eq 0 = r # rs"
    and "sge_ok ep (swr_sge s)" "sge_ok eq (rwr_sge r)" "sge_length (swr_sge s) \<le> sge_length (rwr_sge r)"
  shows "reaches (duo w (pp, mp, ep) (pq, mq, eq))
    (duo w (pp, mp, sender_done 1 s IBV_WC_SUCCESS ep)
       (pq, deliver (swr_sge s) (rwr_sge r) mp mq, receiver_done 0 r s (Some IBV_WC_SUCCESS) eq))"
  using run_nic [of "duo w (pp, mp, ep) (pq, mq, eq)" 0 pp mp ep 1 pq mq eq s ss r rs] assms
  unfolding reaches_def by (intro exI [of _ "[Nic 0 1]"]) (simp del: run.simps)

lemma duo_nic_back:
  assumes "sq eq 0 = s # ss" "rq ep 1 = r # rs"
    and "sge_ok eq (swr_sge s)" "sge_ok ep (rwr_sge r)" "sge_length (swr_sge s) \<le> sge_length (rwr_sge r)"
  shows "reaches (duo w (pp, mp, ep) (pq, mq, eq))
    (duo w (pp, deliver (swr_sge s) (rwr_sge r) mq mp, receiver_done 1 r s (Some IBV_WC_SUCCESS) ep)
       (pq, mq, sender_done 0 s IBV_WC_SUCCESS eq))"
  using run_nic [of "duo w (pp, mp, ep) (pq, mq, eq)" 1 pq mq eq 0 pp mp ep s ss r rs] assms
  unfolding reaches_def by (intro exI [of _ "[Nic 1 0]"]) (simp del: run.simps)

text \<open>Endpoints with one send to or one receive from a peer posted or completed.\<close>

lemma idle_post:
  assumes "idle e"
  shows "sender_done q (send_req mr a len) IBV_WC_SUCCESS (e\<lparr>rq := R, sq := (\<lambda>_. [])(q := [send_req mr a len])\<rparr>) =
      e\<lparr>rq := R, scq := [good_wc q 0]\<rparr>"
    and "sender_done q (send_req mr a len) IBV_WC_SUCCESS (e\<lparr>sq := (\<lambda>_. [])(q := [send_req mr a len])\<rparr>) =
      e\<lparr>scq := [good_wc q 0]\<rparr>"
    and "receiver_done q r s (Some IBV_WC_SUCCESS) (e\<lparr>rq := (\<lambda>_. [])(q := [r])\<rparr>) =
      e\<lparr>rcq := [recv_wc q r s IBV_WC_SUCCESS]\<rparr>"
    and "receiver_done q r s (Some IBV_WC_SUCCESS) (e\<lparr>rq := (\<lambda>_. [])(q := [r]), scq := S\<rparr>) =
      e\<lparr>scq := S, rcq := [recv_wc q r s IBV_WC_SUCCESS]\<rparr>"
  using assms
  by (cases e; simp add: sender_done_def receiver_done_def idle_def send_wc_def good_wc_def send_req_def fun_eq_iff; fail)+

lemma recv_wc_sel [simp]:
  "wc_status (recv_wc p r s st) = st" "wc_byte_len (recv_wc p r s st) = sge_length (swr_sge s)"
  by (simp_all add: recv_wc_def)

lemma lstep_post_echo:
  "rq e q = [] \<Longrightarrow> lstep (post_recv q mr a len 1 k, m, e) = Some (k, m, e\<lparr>rq := (rq e)(q := [echo_req mr a len])\<rparr>)"
  unfolding post_echo by (simp add: ep_post_recv_def max_wr_def)

definition ping_wait :: "pingpong_env \<Rightarrow> int \<Rightarrow> rprog \<Rightarrow> rprog" where
  "ping_wait a iter k = wait_completion SendCq (\<lambda>_. wait_completion RecvCq (\<lambda>wc.
     if wc_byte_len wc \<noteq> pp_size a
     then Throw (RuntimeError size_mismatch [int (pp_size a), int (wc_byte_len wc)])
     else Compute (check_echo a iter) k))"

definition pong_wait :: "pingpong_env \<Rightarrow> rprog \<Rightarrow> rprog" where
  "pong_wait a k = wait_completion RecvCq (\<lambda>wc. if wc_byte_len wc \<noteq> pp_size a
        then Throw (RuntimeError unexpected_size [int (wc_byte_len wc), int (pp_size a)])
        else send (pp_peer a) (pp_recv_mr a) (pp_recv_buf a) (wc_byte_len wc) k)"

lemma ping_posts:
  assumes "idle e" "fill_pattern (pp_send_buf a) (pp_size a) (pp_rank a) iter m = Inr m'"
  shows "lsteps (ping_round a iter k, m, e) (ping_wait a iter k, m',
    e\<lparr>rq := (\<lambda>_. [])(pp_peer a := [echo_req (pp_recv_mr a) (pp_recv_buf a) (pp_size a)]),
      sq := (\<lambda>_. [])(pp_peer a := [send_req (pp_send_mr a) (pp_send_buf a) (pp_size a)])\<rparr>)"
proof -
  have i: "sq e = (\<lambda>_. [])" "rq e = (\<lambda>_. [])" using assms(1) by (simp_all add: idle_def)
  show ?thesis
    unfolding ping_round_def send_def ping_wait_def
    by (rule lsteps_Cons, simp add: assms(2) del: One_nat_def, rule lsteps_Cons, rule lstep_post_echo, simp add: i,
        rule lsteps_Cons, rule lstep_post_send) (simp_all add: i)
qed

lemma ping_reaps:
  assumes "idle e" "wc_status wc = IBV_WC_SUCCESS" "wc_byte_len wc = pp_size a" "check_echo a iter m = Inr m"
  shows "lsteps (ping_wait a iter k, m, e\<lparr>scq := [good_wc q 0], rcq := [wc]\<rparr>) (k, m, e)"
proof -
  have e: "e\<lparr>scq := [], rcq := []\<rparr> = e" using assms(1) by (cases e) (simp add: idle_def)
  show ?thesis
    unfolding ping_wait_def
    by (rule lsteps_Cons [OF lstep_wait(1)], simp, simp, rule lsteps_Cons [OF lstep_wait(2)])
       (use assms(2-4) e in \<open>auto intro!: r_into_rtranclp\<close>)
qed

lemma pong_posts:
  assumes "idle e"
  shows "lsteps (pong_round a k, m, e)
    (pong_wait a k, m,
     e\<lparr>rq := (\<lambda>_. [])(pp_peer a := [recv_req (pp_recv_mr a) (pp_recv_buf a) (pp_size a)])\<rparr>)"
proof -
  have "rq e = (\<lambda>_. [])" using assms by (simp add: idle_def)
  then show ?thesis unfolding pong_round_def recv_def pong_wait_def by (auto intro!: r_into_rtranclp simp: lstep_post_recv)
qed

lemma pong_echoes:
  assumes "idle e" "wc_status wc = IBV_WC_SUCCESS" "wc_byte_len wc = pp_size a"
  shows "lsteps (pong_wait a k, m, e\<lparr>rcq := [wc]\<rparr>)
    (wait_completion SendCq (\<lambda>_. k), m,
     e\<lparr>sq := (\<lambda>_. [])(pp_peer a := [send_req (pp_recv_mr a) (pp_recv_buf a) (pp_size a)])\<rparr>)"
proof -
  have e: "e\<lparr>rcq := []\<rparr> = e" "sq e = (\<lambda>_. [])" using assms(1) by (cases e; simp add: idle_def)+
  show ?thesis
    unfolding pong_wait_def
    by (rule lsteps_Cons [OF lstep_wait(2)])
       (use assms(2,3) e in \<open>auto simp: send_def lstep_post_send intro!: r_into_rtranclp\<close>)
qed

text \<open>The memories after a round.\<close>

definition echo_mem :: "nat \<Rightarrow> (nat \<Rightarrow> pingpong_env) \<Rightarrow> int \<Rightarrow> (nat \<Rightarrow> mem) \<Rightarrow> nat \<Rightarrow> mem" where
  "echo_mem n A iter M r =
     (if r = 0 then mem_write (mem_write (M 0) (pp_send_buf (A 0)) (pattern n iter)) (pp_recv_buf (A 0)) (pattern n iter)
      else if r = 1 then mem_write (M 1) (pp_recv_buf (A 1)) (pattern n iter) else M r)"

lemma pingpong_rank:
  assumes "pingpong_ready n A E" "r < 2"
  shows "pp_rank (A r) = int r" "pp_peer (A r) = 1 - r" "pp_size (A r) = n" "to_u32 n = n"
    "sge_ok (E r) (wr_sge (pp_send_mr (A r)) (pp_send_buf (A r)) n)"
    "sge_ok (E r) (wr_sge (pp_recv_mr (A r)) (pp_recv_buf (A r)) n)"
    "disjoint_ranges (pp_send_buf (A r)) n (pp_recv_buf (A r)) n"
  using assms by (simp_all add: pingpong_ready_def registered_sge_ok to_u32_exact)

lemma pingpong_round:
  assumes ready: "pingpong_ready n A E" and idle: "\<And>x. idle (E x)" and iter: "0 \<le> iter" "iter * 17 < 2 ^ 31"
    and w: "stage w (ranks 2 (\<lambda>r. if r = 0 then ping_round (A 0) iter (k 0) else pong_round (A 1) (k 1))) M E"
  shows "\<exists>as w'. run (exec rc_fabric) as w = Some w' \<and> stage w' (ranks 2 k) (echo_mem n A iter M) E"
proof -
  note r0 = pingpong_rank [OF ready, of 0, simplified] and r1 = pingpong_rank [OF ready, of 1, simplified]
  define m0 where "m0 = mem_write (M 0) (pp_send_buf (A 0)) (pattern n iter)"
  define m1 where "m1 = mem_write (M 1) (pp_recv_buf (A 1)) (pattern n iter)"
  define m2 where "m2 = mem_write m0 (pp_recv_buf (A 0)) (pattern n iter)"
  let ?s0 = "send_req (pp_send_mr (A 0)) (pp_send_buf (A 0)) n" and ?v0 = "echo_req (pp_recv_mr (A 0)) (pp_recv_buf (A 0)) n"
  let ?s1 = "send_req (pp_recv_mr (A 1)) (pp_recv_buf (A 1)) n" and ?v1 = "recv_req (pp_recv_mr (A 1)) (pp_recv_buf (A 1)) n"
  have len: "length (pattern n iter) = n" by (simp add: pattern_def)
  have rd: "mem_read (mem_write m a (pattern n iter)) a n = pattern n iter" for m a
    using mem_read_write_same [of m a "pattern n iter"] by (simp add: len)
  have fill: "fill_pattern (pp_send_buf (A 0)) n 0 iter (M 0) = Inr m0"
    using iter by (simp add: fill_pattern_def int_range_def m0_def pattern_def)
  have d1: "deliver (swr_sge ?s0) (rwr_sge ?v1) m0 (M 1) = m1"
    by (simp add: deliver_def m0_def m1_def r0 rd)
  have d2: "deliver (swr_sge ?s1) (rwr_sge ?v0) m1 m0 = m2"
    by (simp add: deliver_def m1_def m2_def r0 echo_req_def rd)
  have chk: "check_echo (A 0) iter m2 = Inr m2"
    using r0(7) by (simp add: check_echo_def m2_def m0_def r0 rd mem_read_write_disjoint len)
  have ok: "sge_ok (E x\<lparr>rq := a, sq := b\<rparr>) g = sge_ok (E x) g" "sge_ok (E x\<lparr>rq := a\<rparr>) g = sge_ok (E x) g"
      "sge_ok (E x\<lparr>sq := b\<rparr>) g = sge_ok (E x) g" "sge_ok (E x\<lparr>rq := a, scq := c\<rparr>) g = sge_ok (E x) g" for x a b c g
    by (simp_all add: sge_ok_def)
  let ?R0 = "(\<lambda>_. [])(1 := [?v0])" and ?S0 = "(\<lambda>_. [])(1 := [?s0])" and ?R1 = "(\<lambda>_. [])(0 := [?v1])" and ?S1 = "(\<lambda>_. [])(0 := [?s1])"
  let ?wc1 = "recv_wc 0 ?v1 ?s0 IBV_WC_SUCCESS" and ?wc0 = "recv_wc 1 ?v0 ?s1 IBV_WC_SUCCESS"
  let ?P0 = "ping_round (A 0) iter (k 0)" and ?P1 = "pong_round (A 1) (k 1)"
  let ?W0 = "ping_wait (A 0) iter (k 0)" and ?W1 = "pong_wait (A 1) (k 1)" and ?X1 = "wait_completion SendCq (\<lambda>_. k 1)"
  have ends: "sender_done 1 ?s0 IBV_WC_SUCCESS (E 0\<lparr>rq := ?R0, sq := ?S0\<rparr>) = E 0\<lparr>rq := ?R0, scq := [good_wc 1 0]\<rparr>"
    "receiver_done 0 ?v1 ?s0 (Some IBV_WC_SUCCESS) (E 1\<lparr>rq := ?R1\<rparr>) = E 1\<lparr>rcq := [?wc1]\<rparr>"
    "sender_done 0 ?s1 IBV_WC_SUCCESS (E 1\<lparr>sq := ?S1\<rparr>) = E 1\<lparr>scq := [good_wc 0 0]\<rparr>"
    "receiver_done 1 ?v0 ?s1 (Some IBV_WC_SUCCESS) (E 0\<lparr>rq := ?R0, scq := [good_wc 1 0]\<rparr>) =
       E 0\<lparr>scq := [good_wc 1 0], rcq := [?wc0]\<rparr>"
    by (rule idle_post [OF idle])+
  have "reaches (duo w (?P0, M 0, E 0) (?P1, M 1, E 1))
      (duo w (?W0, m0, E 0\<lparr>rq := ?R0, sq := ?S0\<rparr>) (?P1, M 1, E 1))"
    using duo_left [OF ping_posts [OF idle, of "A 0" iter "M 0" m0 "k 0" 0]] fill by (simp add: r0)
  also have "reaches \<dots> (duo w (?W0, m0, E 0\<lparr>rq := ?R0, sq := ?S0\<rparr>) (?W1, M 1, E 1\<lparr>rq := ?R1\<rparr>))"
    using duo_right [OF pong_posts [OF idle, of "A 1" "k 1" "M 1" 1]] by (simp add: r1)
  also have "reaches \<dots> (duo w (?W0, m0, E 0\<lparr>rq := ?R0, scq := [good_wc 1 0]\<rparr>) (?W1, m1, E 1\<lparr>rcq := [?wc1]\<rparr>))"
    unfolding ends(1,2) [symmetric] d1 [symmetric]
    by (rule duo_nic) (use r0 r1 in \<open>simp_all add: ok\<close>)
  also have "reaches \<dots> (duo w (?W0, m0, E 0\<lparr>rq := ?R0, scq := [good_wc 1 0]\<rparr>) (?X1, m1, E 1\<lparr>sq := ?S1\<rparr>))"
    using duo_right [OF pong_echoes [OF idle, of ?wc1 "A 1" "k 1" m1 1]] by (simp add: r1)
  also have "reaches \<dots> (duo w (?W0, m2, E 0\<lparr>scq := [good_wc 1 0], rcq := [?wc0]\<rparr>) (?X1, m1, E 1\<lparr>scq := [good_wc 0 0]\<rparr>))"
    unfolding ends(3,4) [symmetric] d2 [symmetric]
    by (rule duo_nic_back) (use r0 r1 in \<open>simp_all add: ok echo_req_def\<close>)
  also have "reaches \<dots> (duo w (k 0, m2, E 0) (?X1, m1, E 1\<lparr>scq := [good_wc 0 0]\<rparr>))"
    by (rule duo_left, rule ping_reaps [OF idle]) (simp_all add: r0 chk)
  also have "reaches \<dots> (duo w (k 0, m2, E 0) (k 1, m1, E 1))"
    using idle [of 1] by (intro duo_right lsteps_Cons [OF lstep_wait(1)]) (auto simp: idle_def cq_update_same)
  finally obtain as where as: "run (exec rc_fabric) as (duo w (?P0, M 0, E 0) (?P1, M 1, E 1)) =
      Some (duo w (k 0, m2, E 0) (k 1, m1, E 1))" unfolding reaches_def by blast
  have v: "view w x = (ranks 2 (\<lambda>r. if r = 0 then ?P0 else ?P1) x, M x, E x)" for x using w by (simp add: stage_def)
  have "duo w (?P0, M 0, E 0) (?P1, M 1, E 1) = w" by (rule job_eqI) (auto simp: v)
  moreover have "stage (duo w (k 0, m2, E 0) (k 1, m1, E 1)) (ranks 2 k) (echo_mem n A iter M) E"
    by (auto simp: stage_def v echo_mem_def m0_def m1_def m2_def ranks_def)
  ultimately show ?thesis using as by auto
qed

section \<open>All rounds\<close>

text \<open>A rank's memory outside its two buffers.\<close>

definition outside_bufs :: "pingpong_env \<Rightarrow> nat \<Rightarrow> bool" where
  "outside_bufs a x \<longleftrightarrow> (x < pp_send_buf a \<or> pp_send_buf a + pp_size a \<le> x) \<and>
     (x < pp_recv_buf a \<or> pp_recv_buf a + pp_size a \<le> x)"

text \<open>
  After \<open>s\<close> rounds: the three buffers in use hold the last pattern, the rest of the memory is as it was.
\<close>

definition echoed :: "nat \<Rightarrow> (nat \<Rightarrow> pingpong_env) \<Rightarrow> (nat \<Rightarrow> mem) \<Rightarrow> nat \<Rightarrow> (nat \<Rightarrow> mem) \<Rightarrow> bool" where
  "echoed n A M s M' \<longleftrightarrow>
     (0 < s \<longrightarrow> mem_read (M' 0) (pp_send_buf (A 0)) n = pattern n (int s - 1) \<and>
        mem_read (M' 1) (pp_recv_buf (A 1)) n = pattern n (int s - 1) \<and>
        mem_read (M' 0) (pp_recv_buf (A 0)) n = pattern n (int s - 1)) \<and>
     (\<forall>r<2. \<forall>x. outside_bufs (A r) x \<longrightarrow> M' r x = M r x)"

lemma echoed_Suc:
  assumes ready: "pingpong_ready n A E" and "echoed n A M s M'"
  shows "echoed n A M (Suc s) (echo_mem n A (int s) M')"
proof -
  have len: "length (pattern k i) = k" for k i by (simp add: pattern_def)
  have rd: "mem_read (mem_write m a (pattern n i)) a n = pattern n i" for m a i
    using mem_read_write_same [of m a "pattern n i"] by (simp add: len)
  note dj = pingpong_rank(7) [OF ready, of 0, simplified]
  have size: "pp_size (A r) = n" if "r < 2" for r by (rule pingpong_rank(3) [OF ready that])
  have out: "echo_mem n A (int s) M' r x = M' r x" if "r < 2" "outside_bufs (A r) x" for r x
    using that size [OF that(1)] by (auto simp: echo_mem_def outside_bufs_def mem_write_def len less_2_cases_iff)
  show ?thesis
    using assms(2) out dj by (simp add: echoed_def echo_mem_def rd mem_read_write_disjoint len)
qed

lemma pingpong_stage:
  assumes ready: "pingpong_ready n A E" and idle: "\<And>x. idle (E x)" and T: "17 * int T \<le> 2 ^ 31"
    and w: "stage w (ranks 2 (\<lambda>r. pingpong_loop (A r) T 0 Return)) M E"
  shows "\<exists>as w' M'. run (exec rc_fabric) as w = Some w' \<and> stage w' (ranks 2 (\<lambda>_. Return)) M' E \<and> echoed n A M T M'"
proof -
  let ?prog = "\<lambda>s r. pingpong_loop (A r) (T - s) (int s) Return"
  have "\<exists>as w' M'. run (exec rc_fabric) as w = Some w' \<and> stage w' (ranks 2 (?prog T)) M' E \<and> echoed n A M T M'"
  proof (rule stage_loop [where prog = ?prog and M = M])
    show "stage w (ranks 2 (?prog 0)) M E" using w by simp
    show "echoed n A M 0 M" by (simp add: echoed_def)
    fix s w1 M1 assume s: "s < T" and w1: "stage w1 (ranks 2 (?prog s)) M1 E" and M1: "echoed n A M s M1"
    have step: "T - s = Suc (T - Suc s)" using s by simp
    have "ranks 2 (?prog s) =
        ranks 2 (\<lambda>r. if r = 0 then ping_round (A 0) (int s) (?prog (Suc s) 0) else pong_round (A 1) (?prog (Suc s) 1))"
      using pingpong_rank(1) [OF ready] by (intro ranks_cong) (auto simp: step less_2_cases_iff add.commute)
    with w1 have w1': "stage w1 (ranks 2 (\<lambda>r. if r = 0 then ping_round (A 0) (int s) (?prog (Suc s) 0)
        else pong_round (A 1) (?prog (Suc s) 1))) M1 E" by simp
    have "int s * 17 < 2 ^ 31" using s T by linarith
    with pingpong_round [where k = "?prog (Suc s)", OF ready idle _ _ w1'] echoed_Suc [OF ready M1]
    show "\<exists>as w' M'. run (exec rc_fabric) as w1 = Some w' \<and> stage w' (ranks 2 (?prog (Suc s))) M' E \<and>
        echoed n A M (Suc s) M'" by (metis of_nat_0_le_iff)
  qed
  then show ?thesis by simp
qed

section \<open>Stale data\<close>

lemma pattern_eq_iff:
  assumes "0 < n"
  shows "pattern n i = pattern n j \<longleftrightarrow> (i - j) mod 256 = 0"
proof -
  have "pattern_byte 0 i k = pattern_byte 0 j k \<longleftrightarrow> (i * 17 + int k) mod 256 = (j * 17 + int k) mod 256" for k
    by (simp add: pattern_byte_def word_of_int_eq_iff take_bit_eq_mod)
  also have "\<dots> k \<longleftrightarrow> 256 dvd 17 * (i - j)" for k
    by (simp add: mod_eq_dvd_iff algebra_simps)
  also have "\<dots> \<longleftrightarrow> 256 dvd i - j"
    by (rule coprime_dvd_mult_right_iff) code_simp
  finally have "pattern_byte 0 i k = pattern_byte 0 j k \<longleftrightarrow> (i - j) mod 256 = 0" for k
    by (simp add: dvd_eq_mod_eq_0)
  then show ?thesis using assms by (auto simp: pattern_def)
qed

section \<open>Properties\<close>

definition pp_env :: "nat \<Rightarrow> pingpong_env" where
  "pp_env r = \<lparr>pp_rank = int r, pp_peer = 1 - r, pp_size = 4,
     pp_send_mr = \<lparr>mr_lkey = 1, mr_addr = 0, mr_length = 4\<rparr>, pp_send_buf = 0,
     pp_recv_mr = \<lparr>mr_lkey = 2, mr_addr = 4, mr_length = 4\<rparr>, pp_recv_buf = 4\<rparr>"

text \<open>
  The content check detects stale data: when the receive buffer still holds what an earlier
  iteration echoed, the check throws, unless the two iterations are a multiple of 256 apart.
\<close>

theorem pingpong_detects_stale:
  assumes "0 < pp_size a" and "mem_read m (pp_send_buf a) (pp_size a) = pattern (pp_size a) i"
    and "mem_read m (pp_recv_buf a) (pp_size a) = pattern (pp_size a) j"
  shows "check_echo a i m = (if (i - j) mod 256 = 0 then Inr m else Inl (RuntimeError data_mismatch [i]))"
  using assms by (simp add: check_echo_def pattern_eq_iff)

theorem pingpong_detects_stale_witness:
  "check_echo (pp_env 0) 8 (mem_write (mem_write (\<lambda>_. 0) 0 (pattern 4 8)) 4 (pattern 4 7)) =
     Inl (RuntimeError data_mismatch [8])"
proof -
  let ?m = "mem_write (mem_write (\<lambda>_. 0) 0 (pattern 4 8)) 4 (pattern 4 7)"
  have "mem_read ?m 0 4 = pattern 4 8" "mem_read ?m 4 4 = pattern 4 7" by code_simp+
  then show ?thesis using pingpong_detects_stale [of "pp_env 0" ?m 8 7] by (simp add: pp_env_def)
qed

end
