(* ===== verification/Command_Line.thy ===== *)
theory Command_Line
  imports Reduce_Ops
begin

text \<open>
  The command lines of \<^verbatim>\<open>examples/pingpong.cc\<close>, \<^verbatim>\<open>bench/bench_allreduce.cc\<close> and \<^verbatim>\<open>bench/bench_mpi_allreduce.cc\<close>: the
  \<^verbatim>\<open>Args\<close> structures with their defaults, \<^verbatim>\<open>parse_args\<close>, and the number parsing of the standard library they use.
\<close>

section \<open>std::stoi, std::stoul and std::stoull\<close>

definition is_space :: "char \<Rightarrow> bool" where
  "is_space c \<longleftrightarrow> c = CHR '' '' \<or> (9 \<le> (of_char c :: nat) \<and> (of_char c :: nat) \<le> 13)"

definition is_digit :: "char \<Rightarrow> bool" where
  "is_digit c \<longleftrightarrow> 48 \<le> (of_char c :: nat) \<and> (of_char c :: nat) \<le> 57"

definition digit_val :: "char \<Rightarrow> nat" where
  "digit_val c = of_char c - 48"

text \<open>The value of the leading digits, after \<open>acc\<close>.\<close>

fun scan_digits :: "nat \<Rightarrow> string \<Rightarrow> nat" where
  "scan_digits acc [] = acc"
| "scan_digits acc (c # cs) = (if is_digit c then scan_digits (10 * acc + digit_val c) cs else acc)"

text \<open>
  What \<^verbatim>\<open>strtol\<close> and \<^verbatim>\<open>strtoull\<close> read in base 10: white space, an optional sign, digits; what follows
  is ignored. \<open>None\<close> when there is no digit.
\<close>

definition scan_number :: "string \<Rightarrow> (bool \<times> nat) option" where
  "scan_number s =
     (let t = dropWhile is_space s;
          neg = (t \<noteq> [] \<and> hd t = CHR ''-'');
          u = (if t \<noteq> [] \<and> (hd t = CHR ''-'' \<or> hd t = CHR ''+'') then tl t else t) in
      if u \<noteq> [] \<and> is_digit (hd u) then Some (neg, scan_digits 0 u) else None)"

definition stoi :: "string \<Rightarrow> int result" where
  "stoi s =
     (case scan_number s of
        None \<Rightarrow> Inl (InvalidArgument ''stoi'')
      | Some (neg, v) \<Rightarrow>
          let x = (if neg then - int v else int v) in
          if - (2 ^ 31) \<le> x \<and> x < 2 ^ 31 then Inr x else Inl OutOfRange)"

text \<open>\<^verbatim>\<open>unsigned long\<close> and \<^verbatim>\<open>unsigned long long\<close> both have 64 bits; a minus sign negates modulo \<open>2 ^ 64\<close>.\<close>

definition stoull :: "string \<Rightarrow> nat result" where
  "stoull s =
     (case scan_number s of
        None \<Rightarrow> Inl (InvalidArgument ''stoull'')
      | Some (neg, v) \<Rightarrow>
          if v < 2 ^ 64 then Inr (if neg then (2 ^ 64 - v) mod 2 ^ 64 else v) else Inl OutOfRange)"

section \<open>The flag loop\<close>

text \<open>
  The \<^verbatim>\<open>for\<close> loop of each \<^verbatim>\<open>parse_args\<close> over the arguments after the program name. \<open>flags\<close> is the chain of
  comparisons: what a known flag does with the value that \<^verbatim>\<open>next()\<close> takes.
\<close>

fun parse_loop :: "(string \<Rightarrow> (string \<Rightarrow> 'a \<Rightarrow> 'a result) option) \<Rightarrow> 'a \<Rightarrow> string list \<Rightarrow> 'a result" where
  "parse_loop flags a [] = Inr a"
| "parse_loop flags a (flag # rest) =
     (case flags flag of
        None \<Rightarrow> Inl (RuntimeError (''unknown flag: '' @ flag) [])
      | Some assign \<Rightarrow>
          (case rest of
             [] \<Rightarrow> Inl (RuntimeError (''missing value for '' @ flag) [])
           | v # rest' \<Rightarrow> (case assign v a of Inl e \<Rightarrow> Inl e | Inr a' \<Rightarrow> parse_loop flags a' rest')))"

definition set_int :: "(int \<Rightarrow> 'a \<Rightarrow> 'a) \<Rightarrow> string \<Rightarrow> 'a \<Rightarrow> 'a result" where
  "set_int upd v a = map_sum id (\<lambda>x. upd x a) (stoi v)"

definition set_size :: "(nat \<Rightarrow> 'a \<Rightarrow> 'a) \<Rightarrow> string \<Rightarrow> 'a \<Rightarrow> 'a result" where
  "set_size upd v a = map_sum id (\<lambda>x. upd x a) (stoull v)"

section \<open>pingpong\<close>

record pp_args =
  pa_rank :: int
  pa_world_size :: int
  pa_root_host :: string
  pa_root_port :: u16
  pa_iters :: int
  pa_warmup :: int
  pa_msg_size :: nat

definition pp_defaults :: pp_args where
  "pp_defaults = \<lparr>pa_rank = -1, pa_world_size = 2, pa_root_host = '''', pa_root_port = 20200,
     pa_iters = 1000, pa_warmup = 100, pa_msg_size = 4096\<rparr>"

definition pp_flags :: "string \<Rightarrow> (string \<Rightarrow> pp_args \<Rightarrow> pp_args result) option" where
  "pp_flags flag =
     (if flag = ''--rank'' then Some (set_int (\<lambda>x. pa_rank_update (\<lambda>_. x)))
      else if flag = ''--world-size'' then Some (set_int (\<lambda>x. pa_world_size_update (\<lambda>_. x)))
      else if flag = ''--root-host'' then Some (\<lambda>v a. Inr (a\<lparr>pa_root_host := v\<rparr>))
      else if flag = ''--root-port'' then Some (set_int (\<lambda>x. pa_root_port_update (\<lambda>_. word_of_int x)))
      else if flag = ''--iters'' then Some (set_int (\<lambda>x. pa_iters_update (\<lambda>_. x)))
      else if flag = ''--warmup'' then Some (set_int (\<lambda>x. pa_warmup_update (\<lambda>_. x)))
      else if flag = ''--size'' then Some (set_size (\<lambda>x. pa_msg_size_update (\<lambda>_. x)))
      else None)"

definition pp_parse_args :: "string list \<Rightarrow> pp_args result" where
  "pp_parse_args argv =
     bind_res (parse_loop pp_flags pp_defaults argv) (\<lambda>args.
       if pa_rank args < 0 \<or> pa_root_host args = ''''
       then Inl (RuntimeError ''usage: pingpong --rank R --world-size N --root-host H [--root-port P] [--iters N] [--warmup N] [--size BYTES]'' []) else Inr args)"

section \<open>bench\_allreduce\<close>

record bench_args =
  ba_rank :: int
  ba_world_size :: int
  ba_root_host :: string
  ba_root_port :: u16
  ba_algo :: string
  ba_dtype_str :: string
  ba_op_str :: string
  ba_min_size :: nat
  ba_max_size :: nat
  ba_csv_out :: string

definition bench_defaults :: bench_args where
  "bench_defaults = \<lparr>ba_rank = -1, ba_world_size = 2, ba_root_host = '''', ba_root_port = 20400,
     ba_algo = ''both'', ba_dtype_str = ''float32'', ba_op_str = ''sum'', ba_min_size = 8,
     ba_max_size = 256 * 1024 * 1024, ba_csv_out = ''''\<rparr>"

definition bench_flags :: "string \<Rightarrow> (string \<Rightarrow> bench_args \<Rightarrow> bench_args result) option" where
  "bench_flags flag =
     (if flag = ''--rank'' then Some (set_int (\<lambda>x. ba_rank_update (\<lambda>_. x)))
      else if flag = ''--world-size'' then Some (set_int (\<lambda>x. ba_world_size_update (\<lambda>_. x)))
      else if flag = ''--root-host'' then Some (\<lambda>v a. Inr (a\<lparr>ba_root_host := v\<rparr>))
      else if flag = ''--root-port'' then Some (set_int (\<lambda>x. ba_root_port_update (\<lambda>_. word_of_int x)))
      else if flag = ''--algo'' then Some (\<lambda>v a. Inr (a\<lparr>ba_algo := v\<rparr>))
      else if flag = ''--dtype'' then Some (\<lambda>v a. Inr (a\<lparr>ba_dtype_str := v\<rparr>))
      else if flag = ''--op'' then Some (\<lambda>v a. Inr (a\<lparr>ba_op_str := v\<rparr>))
      else if flag = ''--min-size'' then Some (set_size (\<lambda>x. ba_min_size_update (\<lambda>_. x)))
      else if flag = ''--max-size'' then Some (set_size (\<lambda>x. ba_max_size_update (\<lambda>_. x)))
      else if flag = ''--csv-out'' then Some (\<lambda>v a. Inr (a\<lparr>ba_csv_out := v\<rparr>))
      else None)"

definition bench_parse_args :: "string list \<Rightarrow> bench_args result" where
  "bench_parse_args argv =
     bind_res (parse_loop bench_flags bench_defaults argv) (\<lambda>a.
       if ba_rank a < 0 \<or> ba_root_host a = ''''
       then Inl (RuntimeError ''usage: bench_allreduce --rank R --world-size N --root-host H [--root-port P] [--algo ring|recdouble|both] [--dtype float32|int32] [--op sum|min|max] [--min-size BYTES] [--max-size BYTES] [--csv-out FILE]'' []) else Inr a)"

definition parse_dtype :: "string \<Rightarrow> Dtype result" where
  "parse_dtype s =
     (if s = ''float32'' then Inr Float32 else if s = ''int32'' then Inr Int32
      else Inl (RuntimeError (''unknown dtype: '' @ s) []))"

definition parse_op :: "string \<Rightarrow> ReduceOp result" where
  "parse_op s =
     (if s = ''sum'' then Inr Sum_op else if s = ''min'' then Inr Min_op else if s = ''max'' then Inr Max_op
      else Inl (RuntimeError (''unknown op: '' @ s) []))"

section \<open>bench\_mpi\_allreduce\<close>

record mpi_args =
  ma_dtype_str :: string
  ma_op_str :: string
  ma_min_size :: nat
  ma_max_size :: nat
  ma_csv_out :: string

definition mpi_defaults :: mpi_args where
  "mpi_defaults = \<lparr>ma_dtype_str = ''float32'', ma_op_str = ''sum'', ma_min_size = 8,
     ma_max_size = 256 * 1024 * 1024, ma_csv_out = ''''\<rparr>"

definition mpi_flags :: "string \<Rightarrow> (string \<Rightarrow> mpi_args \<Rightarrow> mpi_args result) option" where
  "mpi_flags flag =
     (if flag = ''--dtype'' then Some (\<lambda>v a. Inr (a\<lparr>ma_dtype_str := v\<rparr>))
      else if flag = ''--op'' then Some (\<lambda>v a. Inr (a\<lparr>ma_op_str := v\<rparr>))
      else if flag = ''--min-size'' then Some (set_size (\<lambda>x. ma_min_size_update (\<lambda>_. x)))
      else if flag = ''--max-size'' then Some (set_size (\<lambda>x. ma_max_size_update (\<lambda>_. x)))
      else if flag = ''--csv-out'' then Some (\<lambda>v a. Inr (a\<lparr>ma_csv_out := v\<rparr>))
      else None)"

definition mpi_parse_args :: "string list \<Rightarrow> mpi_args result" where
  "mpi_parse_args argv = parse_loop mpi_flags mpi_defaults argv"

section \<open>Writing numbers and command lines\<close>

definition digit :: "nat \<Rightarrow> char" where
  "digit n = char_of (48 + n)"

fun dec :: "nat \<Rightarrow> string" where
  "dec n = (if n < 10 then [digit n] else dec (n div 10) @ [digit (n mod 10)])"

declare dec.simps [simp del]

definition dec_int :: "int \<Rightarrow> string" where
  "dec_int x = (if x < 0 then CHR ''-'' # dec (nat (- x)) else dec (nat x))"

lemma digit_props [simp]:
  assumes "n < 10"
  shows "is_digit (digit n)" "digit_val (digit n) = n"
  using assms by (simp_all add: is_digit_def digit_val_def digit_def)

lemma scan_digits_dec: "scan_digits acc (dec n @ s) = scan_digits (acc * 10 ^ length (dec n) + n) s"
proof (induction n arbitrary: acc s rule: dec.induct)
  case (1 n)
  show ?case
  proof (cases "n < 10")
    case True
    then show ?thesis by (simp add: dec.simps [of n] mult.commute)
  next
    case False
    have "scan_digits acc (dec n @ s) = scan_digits acc (dec (n div 10) @ digit (n mod 10) # s)"
      using False by (simp add: dec.simps [of n])
    also have "\<dots> = scan_digits (10 * (acc * 10 ^ length (dec (n div 10)) + n div 10) + n mod 10) s"
      using 1 [OF False] by simp
    also have "10 * (acc * 10 ^ length (dec (n div 10)) + n div 10) + n mod 10 = acc * 10 ^ length (dec n) + n"
      using False by (simp add: dec.simps [of n] algebra_simps)
    finally show ?thesis .
  qed
qed

lemma dec_head: "\<exists>d s. d < 10 \<and> dec n = digit d # s"
proof (induction n rule: dec.induct)
  case (1 n)
  then show ?case by (cases "n < 10") (auto simp: dec.simps [of n])
qed

lemma digit_not_special:
  assumes "d < 10"
  shows "\<not> is_space (digit d)" "digit d \<noteq> CHR ''-''" "digit d \<noteq> CHR ''+''"
proof -
  have "of_char (digit d) = 48 + d" using assms by (simp add: digit_def)
  then show "\<not> is_space (digit d)" "digit d \<noteq> CHR ''-''" "digit d \<noteq> CHR ''+''"
    using assms by (auto simp: is_space_def)
qed

lemma scan_dec: "scan_number (dec n) = Some (False, n)"
proof -
  obtain d s where d: "d < 10" "dec n = digit d # s" using dec_head by blast
  have "scan_digits 0 (dec n) = n" using scan_digits_dec [of 0 n "[]"] by simp
  with d digit_not_special [OF d(1)] show ?thesis by (simp add: scan_number_def)
qed

lemma scan_neg_dec: "scan_number (CHR ''-'' # dec n) = Some (True, n)"
proof -
  obtain d s where d: "d < 10" "dec n = digit d # s" using dec_head by blast
  have "scan_digits 0 (dec n) = n" using scan_digits_dec [of 0 n "[]"] by simp
  with d show ?thesis by (simp add: scan_number_def is_space_def)
qed

lemma stoi_dec [simp]: "- (2 ^ 31) \<le> x \<Longrightarrow> x < 2 ^ 31 \<Longrightarrow> stoi (dec_int x) = Inr x"
  by (cases "x < 0") (simp_all add: stoi_def dec_int_def scan_dec scan_neg_dec)

lemma stoull_dec [simp]: "n < 2 ^ 64 \<Longrightarrow> stoull (dec n) = Inr n"
  by (simp add: stoull_def scan_dec)

text \<open>A command line that spells out every field.\<close>

definition pp_render :: "pp_args \<Rightarrow> string list" where
  "pp_render a =
     [''--rank'', dec_int (pa_rank a), ''--world-size'', dec_int (pa_world_size a), ''--root-host'', pa_root_host a,
      ''--root-port'', dec (unat (pa_root_port a)), ''--iters'', dec_int (pa_iters a), ''--warmup'', dec_int (pa_warmup a),
      ''--size'', dec (pa_msg_size a)]"

definition bench_render :: "bench_args \<Rightarrow> string list" where
  "bench_render a =
     [''--rank'', dec_int (ba_rank a), ''--world-size'', dec_int (ba_world_size a), ''--root-host'', ba_root_host a,
      ''--root-port'', dec (unat (ba_root_port a)), ''--algo'', ba_algo a, ''--dtype'', ba_dtype_str a, ''--op'', ba_op_str a,
      ''--min-size'', dec (ba_min_size a), ''--max-size'', dec (ba_max_size a), ''--csv-out'', ba_csv_out a]"

text \<open>The values a field can hold: \<^verbatim>\<open>int\<close> and \<^verbatim>\<open>size_t\<close> ranges, and what the usage check asks for.\<close>

definition pp_valid :: "pp_args \<Rightarrow> bool" where
  "pp_valid a \<longleftrightarrow> 0 \<le> pa_rank a \<and> pa_root_host a \<noteq> '''' \<and> pa_msg_size a < 2 ^ 64 \<and>
     (\<forall>x\<in>{pa_rank a, pa_world_size a, pa_iters a, pa_warmup a}. int_range x)"

definition bench_valid :: "bench_args \<Rightarrow> bool" where
  "bench_valid a \<longleftrightarrow> 0 \<le> ba_rank a \<and> ba_root_host a \<noteq> '''' \<and> ba_min_size a < 2 ^ 64 \<and> ba_max_size a < 2 ^ 64 \<and>
     int_range (ba_rank a) \<and> int_range (ba_world_size a)"

lemma set_port:
  "set_int (\<lambda>x. f (word_of_int x :: u16)) (dec (unat p)) a = Inr (f p a)"
proof -
  have "unat p < 2 ^ 16" using unsigned_less [of p] by simp
  then have "stoi (dec (unat p)) = Inr (int (unat p))" using stoi_dec [of "int (unat p)"] by (simp add: dec_int_def del: of_nat_unat)
  then show ?thesis by (simp add: set_int_def)
qed

lemma set_ok:
  "int_range x \<Longrightarrow> set_int f (dec_int x) a = Inr (f x a)"
  "n < 2 ^ 64 \<Longrightarrow> set_size g (dec n) a = Inr (g n a)"
  by (simp_all add: set_int_def set_size_def int_range_def)

lemma pp_parse_render: "pp_valid a \<Longrightarrow> pp_parse_args (pp_render a) = Inr a"
  by (cases a) (simp add: pp_valid_def pp_render_def pp_parse_args_def pp_flags_def set_ok set_port
      [of "\<lambda>x. pa_root_port_update (\<lambda>_. x)"])

lemma bench_parse_render: "bench_valid b \<Longrightarrow> bench_parse_args (bench_render b) = Inr b"
  by (cases b) (simp add: bench_valid_def bench_render_def bench_parse_args_def bench_flags_def set_ok set_port
      [of "\<lambda>x. ba_root_port_update (\<lambda>_. x)"])

section \<open>Properties\<close>

text \<open>
  C27: reading back a command line that spells out every argument gives those arguments, for \<^verbatim>\<open>pingpong\<close> and for
  \<^verbatim>\<open>bench_allreduce\<close>, for all values the fields can hold that pass the usage check.
\<close>

theorem parse_args_roundtrip:
  "(pp_valid a \<longrightarrow> pp_parse_args (pp_render a) = Inr a) \<and>
   (bench_valid b \<longrightarrow> bench_parse_args (bench_render b) = Inr b)"
  by (simp add: pp_parse_render bench_parse_render)

theorem parse_args_roundtrip_witness:
  "pp_parse_args [''--rank'', ''1'', ''--world-size'', ''2'', ''--root-host'', ''10.0.0.1'', ''--root-port'', ''20200'',
     ''--iters'', ''7'', ''--warmup'', ''-3'', ''--size'', ''64''] =
   Inr \<lparr>pa_rank = 1, pa_world_size = 2, pa_root_host = ''10.0.0.1'', pa_root_port = 20200, pa_iters = 7,
     pa_warmup = -3, pa_msg_size = 64\<rparr>"
proof -
  let ?a = "\<lparr>pa_rank = 1, pa_world_size = 2, pa_root_host = ''10.0.0.1'', pa_root_port = 20200, pa_iters = 7,
     pa_warmup = -3, pa_msg_size = 64\<rparr>"
  have valid: "pp_valid ?a" by (simp add: pp_valid_def int_range_def)
  have render: "pp_render ?a = [''--rank'', ''1'', ''--world-size'', ''2'', ''--root-host'', ''10.0.0.1'', ''--root-port'', ''20200'',
     ''--iters'', ''7'', ''--warmup'', ''-3'', ''--size'', ''64'']"
    by (simp add: pp_render_def dec_int_def dec.simps digit_def char_of_def bit_0)
  show ?thesis using parse_args_roundtrip [THEN conjunct1, THEN mp, OF valid] unfolding render .
qed

end
