(* ===== verification/Statistics.thy ===== *)
theory Statistics
  imports Float32 Prelude
begin

text \<open>
  \<^verbatim>\<open>compute_stats\<close>, which \<^verbatim>\<open>pingpong.cc\<close>, \<^verbatim>\<open>bench_allreduce.cc\<close> and \<^verbatim>\<open>bench_mpi_allreduce.cc\<close> each define in the same words. Samples
  are durations, never NaN, so they are values of a linear order. The index of the
  99th percentile is computed in \<^verbatim>\<open>double\<close> arithmetic.
\<close>

text \<open>
  The \<^verbatim>\<open>double\<close> nearest to 0.99 is \<open>k099 / 2 ^ 53\<close>. \<^verbatim>\<open>static_cast<size_t>(0.99 * (n - 1))\<close> for a number of
  samples that a \<^verbatim>\<open>double\<close> holds exactly: the product is rounded to 53 significant bits, to nearest, ties to even,
  and truncated.
\<close>

definition k099 :: nat where "k099 = 8917127262193582"

definition f64_round :: "nat \<Rightarrow> nat" where
  "f64_round m =
     (let s = bitlen m - 53; q = m div 2 ^ s; r = m mod 2 ^ s in
      (if 2 * r > 2 ^ s \<or> (2 * r = 2 ^ s \<and> odd q) then q + 1 else q) * 2 ^ s)"

definition p99_index :: "nat \<Rightarrow> nat" where
  "p99_index n = f64_round (k099 * (n - 1)) div 2 ^ 53"

record 'a stats =
  min_us :: 'a
  median_us :: 'a
  p99_us :: 'a

text \<open>\<^verbatim>\<open>front()\<close> of an empty vector and an index out of range are undefined.\<close>

definition compute_stats :: "'a::linorder list \<Rightarrow> 'a stats result" where
  "compute_stats samples_us =
     (let samples = sort samples_us; n = length samples in
      if n = 0 then Inl (Undefined ''front() of an empty vector'')
      else if n \<le> n div 2 \<or> n \<le> p99_index n then Inl (Undefined ''index out of range'')
      else Inr \<lparr>min_us = hd samples, median_us = samples ! (n div 2), p99_us = samples ! p99_index n\<rparr>)"

text \<open>The number of samples: the rounds, counted from 0, that are not warm-up.\<close>

definition measured_rounds :: "int \<Rightarrow> int \<Rightarrow> nat" where
  "measured_rounds warmup iters = length (filter (\<lambda>iter. warmup \<le> int iter) [0..<nat (warmup + iters)])"

section \<open>The index is the exact one\<close>

lemma bitlen_bounds:
  "0 < m \<Longrightarrow> 2 ^ (bitlen m - 1) \<le> m \<and> m < 2 ^ bitlen m"
proof (induction m rule: bitlen.induct)
  case (1 n)
  show ?case
  proof (cases "n = 1")
    case False
    then have "0 < n div 2" using "1.prems" by simp
    then have IH: "2 ^ (bitlen (n div 2) - 1) \<le> n div 2" "n div 2 < 2 ^ bitlen (n div 2)"
      using 1 by auto
    then have "bitlen (n div 2) \<noteq> 0" using \<open>0 < n div 2\<close> by (metis less_one not_gr_zero power_0)
    then obtain b where "bitlen (n div 2) = Suc b" using not0_implies_Suc by blast
    moreover have "n = 2 * (n div 2) + n mod 2" "n mod 2 < 2" by simp_all
    ultimately show ?thesis using IH "1.prems" by (simp add: bitlen.simps [of n]) linarith
  qed (simp add: bitlen.simps)
qed

lemma round_half_even:
  fixes m S :: nat
  assumes S: "0 < S"
  defines "R \<equiv> (if 2 * (m mod S) > S \<or> (2 * (m mod S) = S \<and> odd (m div S)) then m div S + 1 else m div S) * S"
  shows "2 * R \<le> 2 * m + S" and "S dvd t \<Longrightarrow> t \<le> m \<Longrightarrow> t \<le> R"
    and "S dvd t \<Longrightarrow> m \<le> t \<Longrightarrow> 2 * t < 2 * m + S \<Longrightarrow> R = t"
proof -
  let ?q = "m div S" and ?r = "m mod S"
  have m: "m = ?q * S + ?r" and r: "?r < S" using S by simp_all
  have R: "R = ?q * S \<and> 2 * ?r \<le> S \<or> R = ?q * S + S \<and> S \<le> 2 * ?r" by (auto simp: R_def)
  then show "2 * R \<le> 2 * m + S" using m by linarith
  have low: "?q * S \<le> R" using R by auto
  show "t \<le> R" if "S dvd t" "t \<le> m"
  proof -
    obtain j where j: "t = S * j" using \<open>S dvd t\<close> ..
    with that(2) have "j \<le> ?q" using S by (metis div_le_mono nonzero_mult_div_cancel_left not_gr_zero)
    with j low show ?thesis by (metis mult.commute mult_le_mono1 order_trans)
  qed
  show "R = t" if "S dvd t" "m \<le> t" "2 * t < 2 * m + S"
  proof -
    obtain j where j: "t = j * S" using \<open>S dvd t\<close> by (metis dvdE mult.commute)
    consider "j \<le> ?q" | "j = ?q + 1" | "?q + 2 \<le> j" by linarith
    then show ?thesis
    proof cases
      case 1
      then have "t \<le> ?q * S" using j by simp
      then have "t = ?q * S" "?r = 0" using that(2) m by linarith+
      with S show ?thesis by (simp add: R_def)
    next
      case 2
      then have t: "t = ?q * S + S" using j by simp
      with that(3) m have "S < 2 * ?r" by linarith
      with t show ?thesis by (simp add: R_def)
    next
      case 3
      then have "(?q + 2) * S \<le> t" using j by (metis mult_le_mono1)
      then have "?q * S + 2 * S \<le> t" by (simp add: algebra_simps)
      with that(3) m r show ?thesis by linarith
    qed
  qed
qed

lemma f64_round_div:
  assumes S: "2 ^ (bitlen m - 53) dvd (2 ^ 53 :: nat)"
    and "q * 2 ^ 53 \<le> m \<and> 2 * m + 2 ^ (bitlen m - 53) < 2 * ((q + 1) * 2 ^ 53) \<or>
         m \<le> q * 2 ^ 53 \<and> 2 * (q * 2 ^ 53) < 2 * m + 2 ^ (bitlen m - 53)"
  shows "f64_round m div 2 ^ 53 = q"
proof -
  let ?S = "2 ^ (bitlen m - 53) :: nat"
  note rnd = round_half_even [where S = ?S and m = m, folded f64_round_def [unfolded Let_def, of m]]
  have d: "?S dvd q * 2 ^ 53" using S by (rule dvd_mult)
  from assms(2) show ?thesis
  proof
    assume a: "q * 2 ^ 53 \<le> m \<and> 2 * m + ?S < 2 * ((q + 1) * 2 ^ 53)"
    then have "q * 2 ^ 53 \<le> f64_round m" using rnd(2) [OF _ d] by simp
    moreover have "f64_round m < (q + 1) * 2 ^ 53" using rnd(1) a by simp
    ultimately show ?thesis by (intro div_nat_eqI) (simp_all add: algebra_simps)
  next
    assume "m \<le> q * 2 ^ 53 \<and> 2 * (q * 2 ^ 53) < 2 * m + ?S"
    then have "f64_round m = q * 2 ^ 53" using rnd(3) [OF _ d] by simp
    then show ?thesis by simp
  qed
qed

lemma p99_index_exact:
  assumes "n \<le> 2 ^ 46"
  shows "p99_index n = 99 * (n - 1) div 100"
proof (cases "n - 1 = 0")
  case False
  define k where "k = n - 1"
  define m where "m = k099 * k"
  define S :: nat where "S = 2 ^ (bitlen m - 53)"
  have k: "0 < k" "k < 2 ^ 46" using False assms by (simp_all add: k_def)
  have N: "100 * m + 8 * k = 99 * k * 2 ^ 53" by (simp add: m_def k099_def)
  have m53: "2 ^ 52 \<le> m" "m < 2 ^ 53 * k" using k by (simp_all add: m_def k099_def)
  have b: "2 ^ (bitlen m - 1) \<le> m" "m < 2 ^ bitlen m" using bitlen_bounds [of m] m53(1) by simp_all
  have "52 < bitlen m" using b(2) m53(1) by (meson le_less_trans nat_power_less_imp_less zero_less_numeral)
  then have "bitlen m = 53 + (bitlen m - 53)" "bitlen m - 1 = 52 + (bitlen m - 53)" by simp_all
  then have S: "2 ^ bitlen m = 2 ^ 53 * S" "2 ^ (bitlen m - 1) = 2 ^ 52 * S"
    unfolding S_def by (metis power_add)+
  have up: "S \<le> 2 * k" using b(1) m53(2) unfolding S by simp
  have low: "49 * k < 50 * S" using b(2) N unfolding S by simp
  have "(2::nat) ^ (bitlen m - 53) < 2 ^ 48" using up k(2) by (simp add: S_def)
  then have "bitlen m - 53 < 48" by (rule power_less_imp_less_exp [rotated]) simp
  then have dvd: "S dvd 2 ^ 53" unfolding S_def by (intro le_imp_power_dvd) simp
  define q r where "q = 99 * k div 100" and "r = 99 * k mod 100"
  have qr: "99 * k = 100 * q + r" "r < 100" by (simp_all add: q_def r_def)
  have "q * 2 ^ 53 \<le> m \<and> 2 * m + S < 2 * ((q + 1) * 2 ^ 53) \<or> m \<le> q * 2 ^ 53 \<and> 2 * (q * 2 ^ 53) < 2 * m + S"
  proof (cases "r = 0")
    case True
    with N qr have "100 * m + 8 * k = 100 * (q * 2 ^ 53)" by simp
    then show ?thesis using low k by linarith
  next
    case False
    have "100 * m + 8 * k = 100 * (q * 2 ^ 53) + r * 2 ^ 53" using N qr by (simp add: algebra_simps)
    moreover have "2 ^ 53 \<le> r * 2 ^ 53" "r * 2 ^ 53 \<le> 99 * 2 ^ 53" using False qr by simp_all
    ultimately show ?thesis using up k by simp
  qed
  then have "f64_round m div 2 ^ 53 = q" by (intro f64_round_div) (use dvd in \<open>simp_all add: S_def\<close>)
  then show ?thesis by (simp add: p99_index_def m_def k_def q_def)
qed (simp add: p99_index_def f64_round_def bitlen.simps)

section \<open>Order statistics\<close>

lemma length_filter_sort: "length (filter Q (sort xs)) = length (filter Q xs)"
  by (metis filter_sort length_sort)

lemma order_statistic:
  assumes "i < length xs"
  shows "length (filter (\<lambda>y. y < sort xs ! i) xs) \<le> i" and "i < length (filter (\<lambda>y. y \<le> sort xs ! i) xs)"
proof -
  let ?s = "sort xs"
  have i: "i < length ?s" using assms by simp
  have le: "?s ! a \<le> ?s ! b" if "a \<le> b" "b < length xs" for a b
    using that sorted_nth_mono [OF sorted_sort] by simp
  have "filter (\<lambda>y. y < ?s ! i) (drop i ?s) = []"
    using le [of i] by (auto simp: filter_empty_conv in_set_conv_nth not_less)
  then have "filter (\<lambda>y. y < ?s ! i) ?s = filter (\<lambda>y. y < ?s ! i) (take i ?s)"
    by (metis append_Nil2 append_take_drop_id filter_append)
  then show "length (filter (\<lambda>y. y < ?s ! i) xs) \<le> i"
    unfolding length_filter_sort [of _ xs, symmetric] by (metis i length_filter_le length_take less_imp_le_nat min.absorb2)
  have "filter (\<lambda>y. y \<le> ?s ! i) (take (Suc i) ?s) = take (Suc i) ?s"
    using le [of _ i] assms by (auto simp: filter_id_conv in_set_conv_nth)
  moreover have "filter (\<lambda>y. y \<le> ?s ! i) ?s = filter (\<lambda>y. y \<le> ?s ! i) (take (Suc i) ?s) @ filter (\<lambda>y. y \<le> ?s ! i) (drop (Suc i) ?s)"
    by (metis append_take_drop_id filter_append)
  ultimately show "i < length (filter (\<lambda>y. y \<le> ?s ! i) xs)"
    unfolding length_filter_sort [of _ xs, symmetric] using i by simp
qed

lemma measured_rounds_eq:
  assumes "0 \<le> warmup" "0 \<le> iters"
  shows "measured_rounds warmup iters = nat iters"
proof -
  obtain v n where v: "warmup = int v" "iters = int n" using assms nonneg_int_cases by metis
  have "[0..<v + n] = [0..<v] @ [v..<v + n]" by (rule upt_add_eq_append) simp
  then show ?thesis by (simp add: v measured_rounds_def nat_int_add)
qed

lemma compute_stats_defined:
  assumes "samples \<noteq> []" "length samples \<le> 2 ^ 46"
  shows "\<exists>s. compute_stats samples = Inr s"
proof -
  have "0 < length samples" using assms(1) by simp
  then have "99 * (length samples - 1) div 100 < length samples" by linarith
  with assms show ?thesis by (auto simp: compute_stats_def p99_index_exact Let_def not_le dest: arg_cong [of _ _ length])
qed

section \<open>Properties\<close>

text \<open>
  C28: for any non-empty vector of up to \<open>2 ^ 46\<close> samples \<^verbatim>\<open>compute_stats\<close> reads only elements of the vector and
  gives the minimum, the upper median and the sample at the exact index \<open>99 * (n - 1) div 100\<close>, floating-point rounding
  included: at most that many samples are smaller, and more than that many are not larger. The 99th percentile is at
  least the median, except that of two samples it is the smaller one. An empty vector is undefined behaviour.
\<close>

theorem compute_stats_correct:
  fixes samples :: "'a::linorder list"
  defines "n \<equiv> length samples"
  assumes "n \<le> 2 ^ 46"
  shows "if n = 0 then compute_stats samples = Inl (Undefined ''front() of an empty vector'')
    else \<exists>s. compute_stats samples = Inr s \<and> min_us s = Min (set samples) \<and>
      length (filter (\<lambda>y. y < median_us s) samples) \<le> n div 2 \<and> n div 2 < length (filter (\<lambda>y. y \<le> median_us s) samples) \<and>
      length (filter (\<lambda>y. y < p99_us s) samples) \<le> 99 * (n - 1) div 100 \<and>
      99 * (n - 1) div 100 < length (filter (\<lambda>y. y \<le> p99_us s) samples) \<and>
      (if n = 2 then p99_us s = min_us s else median_us s \<le> p99_us s)"
proof (cases "n = 0")
  case False
  let ?s = "sort samples" and ?i = "99 * (n - 1) div 100"
  have idx: "n div 2 < n" "?i < n" using False by simp_all
  have ne: "?s \<noteq> []" using False by (metis length_0_conv length_sort n_def)
  have "compute_stats samples = Inr \<lparr>min_us = hd ?s, median_us = ?s ! (n div 2), p99_us = ?s ! ?i\<rparr>"
    using idx ne assms(2) by (simp add: compute_stats_def p99_index_exact Let_def not_le flip: n_def)
  moreover have "hd ?s = Min (set samples)"
  proof (rule Min_eqI [symmetric])
    show "hd ?s \<in> set samples" using hd_in_set [OF ne] by simp
    show "hd ?s \<le> y" if "y \<in> set samples" for y
    proof -
      have "y \<in> set ?s" using that by simp
      with ne sorted_sort [of samples] show ?thesis by (cases ?s) auto
    qed
  qed simp
  moreover have "?s ! (n div 2) \<le> ?s ! ?i" if "n \<noteq> 2"
  proof (rule sorted_nth_mono [OF sorted_sort])
    show "n div 2 \<le> ?i" using that False by linarith
  qed (use idx in \<open>simp add: n_def\<close>)
  moreover have "?s ! ?i = hd ?s" if "n = 2"
    using that by (cases ?s) (auto simp: n_def dest: arg_cong [of _ _ length])
  ultimately show ?thesis
    using False order_statistic [of "n div 2" samples] order_statistic [of ?i samples] idx by (simp flip: n_def)
qed (use assms in \<open>simp add: compute_stats_def\<close>)

text \<open>Twenty samples in falling order, the number of a mid-sized benchmark.\<close>

theorem compute_stats_correct_witness:
  "\<exists>s. compute_stats (rev [1..<21 :: nat]) = Inr s \<and> min_us s = 1 \<and> median_us s \<le> p99_us s"
proof -
  have "Min (set (rev [1..<21 :: nat])) = 1" by code_simp
  then show ?thesis using compute_stats_correct [of "rev [1..<21 :: nat]"] by auto
qed

end
