(* ===== verification/Pingpong_Process.thy ===== *)
theory Pingpong_Process
  imports Startup Pingpong Command_Line Statistics
begin

text \<open>
  The whole of \<^verbatim>\<open>main\<close> of \<^verbatim>\<open>examples/pingpong.cc\<close> as a process: arguments, device, queue pair, buffers, bootstrap, connection,
  rounds and statistics, and the theorem that two such processes started together both exit with 0.
\<close>

section \<open>The process\<close>

text \<open>The exchange of endpoint information and the connection of the queue pair.\<close>

definition pingpong_connect ::
    "'q qp_calls \<Rightarrow> Device \<Rightarrow> TcpBootstrap \<Rightarrow> int \<Rightarrow> ptr \<Rightarrow> u32 \<Rightarrow> 'q \<Rightarrow> 'q built bprog" where
  "pingpong_connect D device bootstrap rank qp local_psn q =
     (let peer_rank = 1 - rank;
          local = local_info D qp device (word_of_int rank) local_psn q in
      exchange bootstrap [(peer_rank, local)] (\<lambda>incoming.
        case at incoming peer_rank of
          Inl e \<Rightarrow> BThrow e
        | Inr remote \<Rightarrow> (case modify_to_rtr D qp device remote q of
            (Inl e, q) \<Rightarrow> BThrow e
          | (Inr _, q) \<Rightarrow> (case modify_to_rts D qp local_psn q of
              (Inl e, q) \<Rightarrow> BThrow e
            | (Inr _, q) \<Rightarrow> BRet ([(peer_rank, qp)], q)))))"

text \<open>
  The rounds and the report of rank 0. \<^verbatim>\<open>reserve\<close> of a negative number, converted to \<^verbatim>\<open>size_t\<close>, throws.
\<close>

definition pingpong_report :: "('q, 'o) host_env \<Rightarrow> pp_args \<Rightarrow> 'q built mprog" where
  "pingpong_report H args =
     (if pa_rank args = 0
      then mtry (compute_stats (map (he_clock H) [0..<measured_rounds (pa_warmup args) (pa_iters args)])) (\<lambda>_. Exit 0)
      else Exit 0)"

definition pingpong_rounds :: "('q, 'o) host_env \<Rightarrow> pp_args \<Rightarrow> pingpong_env \<Rightarrow> 'q built mprog" where
  "pingpong_rounds H args env =
     (if pa_iters args < 0 then Fail LengthError
      else Rdma (pingpong_main env (pa_warmup args) (pa_iters args) Return) (pingpong_report H args))"

definition pingpong_process :: "('q, 'o) host_env \<Rightarrow> string list \<Rightarrow> 'q \<Rightarrow> 'o \<Rightarrow> 'q built mprog" where
  "pingpong_process H argv q s =
     (case pp_parse_args argv of
        Inl e \<Rightarrow> Exit 2
      | Inr args \<Rightarrow>
          mtry_loop (device_ctor (he_verbs H) []) (\<lambda>device.
          mtry (pd_ctor (he_alloc_pd H) (native (context_ptr device))) (\<lambda>pd.
          mtry (cq_ctor (he_create_cq H 0) (native (context_ptr device)) 128) (\<lambda>send_cq.
          mtry (cq_ctor (he_create_cq H 1) (native (context_ptr device)) 128) (\<lambda>recv_cq.
          (case qp_ctor (he_qp H) (native pd) (native send_cq) (native recv_cq) 64 64 1 q of (res, q) \<Rightarrow>
          mtry res (\<lambda>qp.
          new_array H 0 (pa_msg_size args) (\<lambda>send_buf.
          new_array H 1 (pa_msg_size args) (\<lambda>recv_buf.
          register H 0 (native pd) send_buf (pa_msg_size args) (\<lambda>send_mr.
          register H 1 (native pd) recv_buf (pa_msg_size args) (\<lambda>recv_mr.
          (case modify_to_init (he_qp H) qp device q of (res, q) \<Rightarrow>
          mtry res (\<lambda>_.
          (case generate_psn (he_qp H) q of (local_psn, q) \<Rightarrow>
          mtry_loop (tcp_bootstrap_ctor (he_os H) (pa_rank args) (pa_world_size args) (pa_root_host args) (pa_root_port args) s) (\<lambda>bootstrap.
          Tcp (pingpong_connect (he_qp H) device bootstrap (pa_rank args) qp local_psn q) (\<lambda>_.
          pingpong_rounds H args
            \<lparr>pp_rank = pa_rank args, pp_peer = nat (1 - pa_rank args), pp_size = pa_msg_size args,
             pp_send_mr = send_mr, pp_send_buf = send_buf, pp_recv_mr = recv_mr, pp_recv_buf = recv_buf\<rparr>))))))))))))))))"

section \<open>Connecting two ranks\<close>

text \<open>For two ranks the connection is the body of the constructor of \<^verbatim>\<open>Communicator\<close>, so its guarantees carry over.\<close>

lemma pingpong_connect_communicator:
  assumes "rank = 0 \<or> rank = 1" and "qp_ctor D pd send_cq recv_cq 64 64 1 q = (Inr qp, q1)"
    and "modify_to_init D qp device q1 = (Inr u, q2)" and "generate_psn D q2 = (psn, q3)"
  shows "pingpong_connect D device b rank qp psn q3 = communicator_body D device pd send_cq recv_cq b rank 2 id q"
proof -
  have "[0..<nat 2] = [0, 1]" by (simp add: upt_rec numeral_2_eq_2)
  with assms show ?thesis
    by (auto simp: pingpong_connect_def communicator_body_def Let_def at_def split: prod.splits sum.splits option.splits
        intro!: arg_cong [of _ _ "exchange b _"] ext)
qed

section \<open>One rank\<close>

text \<open>The buffers and regions a process works with.\<close>

definition the_env :: "('q, 'o) host_env \<Rightarrow> Device \<Rightarrow> pp_args \<Rightarrow> pingpong_env" where
  "the_env H d args =
     (let n = pa_msg_size args; a = he_array H 0 n; b = he_array H 1 n in
      \<lparr>pp_rank = pa_rank args, pp_peer = nat (1 - pa_rank args), pp_size = n,
       pp_send_mr = the_mr H 0 (the_pd H d) a n, pp_send_buf = a, pp_recv_mr = the_mr H 1 (the_pd H d) b n, pp_recv_buf = b\<rparr>)"

text \<open>Where the process can open its resources it comes to the connection.\<close>

definition pingpong_host ::
    "('q, 'o) host_env \<Rightarrow> ('q \<Rightarrow> ptr \<rightharpoonup> qp_hw) \<Rightarrow> Device \<Rightarrow> pp_args \<Rightarrow> 'o \<Rightarrow> TcpBootstrap \<Rightarrow> endpoint \<Rightarrow> bool" where
  "pingpong_host H hw d args s b e \<longleftrightarrow>
     opens H d \<and> qp_driver (he_qp H) hw \<and>
     joins H (pa_rank args) (pa_world_size args) (pa_root_host args) (pa_root_port args) s b \<and>
     (let n = pa_msg_size args; x = he_array H 0 n; y = he_array H 1 n in
      registers H e 0 (the_pd H d) x n \<and> registers H e 1 (the_pd H d) y n \<and> disjoint_ranges x n y n)"

lemma pingpong_starts:
  assumes parse: "pp_parse_args argv = Inr args" and host: "pingpong_host H hw d args s b e"
    and rank: "pa_rank args = 0 \<or> pa_rank args = 1"
  shows "\<exists>scq rcq. pingpong_process H argv q s =
    new_array H 0 (pa_msg_size args) (\<lambda>_. new_array H 1 (pa_msg_size args) (\<lambda>_.
      Tcp (communicator_body (he_qp H) d (the_pd H d) scq rcq b (pa_rank args) 2 id q)
        (\<lambda>_. pingpong_rounds H args (the_env H d args))))"
proof -
  let ?n = "pa_msg_size args" and ?c = "native (context_ptr d)"
  obtain p x p0 x0 p1 x1 calls t where ok: "device_ctor (he_verbs H) [] = Some (Inr d, calls)"
    "he_alloc_pd H ?c = (Some p, x)" "he_create_cq H 0 ?c 128 = (Some p0, x0)" "he_create_cq H 1 ?c 128 = (Some p1, x1)"
    "tcp_bootstrap_ctor (he_os H) (pa_rank args) (pa_world_size args) (pa_root_host args) (pa_root_port args) s = Some (Inr b, t)"
    using host unfolding pingpong_host_def opens_def joins_def by (metis one_less_numeral_iff semiring_norm(76) zero_less_numeral)
  then have ctors: "pd_ctor (he_alloc_pd H) ?c = Inr (Some p)" "cq_ctor (he_create_cq H 0) ?c 128 = Inr (Some p0)"
    "cq_ctor (he_create_cq H 1) ?c 128 = Inr (Some p1)" "the_pd H d = p"
    by (simp_all add: pd_ctor_def cq_ctor_def check_ptr_def bind_res_def the_pd_def)
  have "qp_driver (he_qp H) hw" using host by (simp add: pingpong_host_def)
  then obtain qp q1 q2 v q3 where new: "qp_ctor (he_qp H) p p0 p1 64 64 1 q = (Inr qp, q1)"
    "modify_to_init (he_qp H) qp d q1 = (Inr (), q2)" "generate_psn (he_qp H) q2 = (v, q3)"
    using qp_driver.new_qp by metis
  have regs: "registers H e 0 p (he_array H 0 ?n) ?n" "registers H e 1 p (he_array H 1 ?n) ?n"
    using host by (simp_all add: pingpong_host_def Let_def ctors(4))
  note conn = pingpong_connect_communicator [OF rank new]
  show ?thesis
    using ok(1,5) ctors new
    by (intro exI [of _ p0] exI [of _ p1])
      (simp add: pingpong_process_def parse the_env_def Let_def register_ok [OF regs(1)] register_ok [OF regs(2)] conn
        del: One_nat_def cong: new_array_cong)
qed

section \<open>Both ranks\<close>

text \<open>Two processes started with fitting arguments on hosts that work, over sockets and queues that are fresh.\<close>

definition pingpong_pair ::
    "(nat \<Rightarrow> ('q, 'o) host_env) \<Rightarrow> (nat \<Rightarrow> string list) \<Rightarrow> (nat \<Rightarrow> 'q) \<Rightarrow> (nat \<Rightarrow> 'o) \<Rightarrow>
      (nat \<Rightarrow> 'q \<Rightarrow> ptr \<rightharpoonup> qp_hw) \<Rightarrow> (nat \<Rightarrow> Device) \<Rightarrow> (nat \<Rightarrow> pp_args) \<Rightarrow> (nat \<Rightarrow> TcpBootstrap) \<Rightarrow>
      nat \<Rightarrow> int \<Rightarrow> int \<Rightarrow> (nat \<Rightarrow> endpoint) \<Rightarrow> bool" where
  "pingpong_pair H argv q s hw d args B n warmup iters E \<longleftrightarrow>
     n < 2 ^ 32 \<and> 0 \<le> warmup \<and> 0 < iters \<and> 17 * (warmup + iters) \<le> 2 ^ 31 \<and> (\<forall>x. idle (E x)) \<and>
     (\<forall>r<2. pp_parse_args (argv r) = Inr (args r) \<and> pa_rank (args r) = int r \<and> pa_world_size (args r) = 2 \<and>
        pa_msg_size (args r) = n \<and> pa_warmup (args r) = warmup \<and> pa_iters (args r) = iters \<and>
        pingpong_host (H r) (hw r) (d r) (args r) (s r) (B r) (E r))"

lemma pair_ready:
  assumes "pingpong_pair H argv q s hw d args B n warmup iters E"
  shows "pingpong_ready n (\<lambda>r. the_env (H r) (d r) (args r)) E"
  using assms
  by (auto simp: pingpong_pair_def pingpong_ready_def pingpong_host_def the_env_def Let_def registers_def less_2_cases_iff)

lemma pair_opens:
  assumes "pingpong_pair H argv q s hw d args B n warmup iters E" "r < 2"
  shows "opens (H r) (d r)" "qp_driver (he_qp (H r)) (hw r)" "device_ok (d r)"
  using assms by (auto simp: pingpong_pair_def pingpong_host_def opens_def)

lemma pair_report:
  assumes "pingpong_pair H argv q s hw d args B n warmup iters E" "r < 2"
  shows "pingpong_report (H r) (args r) = Exit 0"
proof -
  have "0 \<le> warmup" "0 < iters" "iters \<le> 2 ^ 46" "pa_warmup (args r) = warmup" "pa_iters (args r) = iters"
    using assms by (auto simp: pingpong_pair_def)
  then have "\<exists>st. compute_stats (map (he_clock (H r)) [0..<measured_rounds (pa_warmup (args r)) (pa_iters (args r))]) = Inr st"
    by (intro compute_stats_defined) (simp_all add: measured_rounds_eq)
  then show ?thesis by (auto simp: pingpong_report_def)
qed

text \<open>
  The phases one after the other: buffers, connection, rounds, report.
\<close>

lemma pingpong_phases:
  assumes pair: "pingpong_pair H argv q s hw d args B n warmup iters E" and wired: "wired wire 2 B"
    and w: "mstage w 2 (\<lambda>r. pingpong_process (H r) (argv r) (q r) (s r)) M E"
  shows "\<exists>w' M'. mreach wire w w' \<and> mstage w' 2 (\<lambda>_. Exit 0) M' E \<and>
    echoed n (\<lambda>r. the_env (H r) (d r) (args r)) M (nat (warmup + iters)) M'"
    and "r < 2 \<Longrightarrow> mdisc (pingpong_process (H r) (argv r) (q r) (s r))"
proof -
  let ?A = "\<lambda>r. the_env (H r) (d r) (args r)" and ?T = "nat (warmup + iters)"
  have a: "pp_parse_args (argv r) = Inr (args r)" "pa_msg_size (args r) = n" "pa_rank (args r) = int r"
    "pa_warmup (args r) = warmup" "pa_iters (args r) = iters" "pingpong_host (H r) (hw r) (d r) (args r) (s r) (B r) (E r)" if "r < 2" for r
    using pair that by (auto simp: pingpong_pair_def)
  have c: "n < 2 ^ 63" "0 \<le> warmup" "0 < iters" "17 * int ?T \<le> 2 ^ 31" "\<And>x. idle (E x)" "int_range (warmup + iters)"
    using pair by (auto simp: pingpong_pair_def int_range_def)
  note ready = pair_ready [OF pair]
  define body where "body r scq rcq = communicator_body (he_qp (H r)) (d r) (the_pd (H r) (d r)) scq rcq (B r) (int r) (int 2) id (q r)" for r scq rcq
  let ?main = "\<lambda>r. pingpong_loop (?A r) ?T 0 Return"
  have rounds: "pingpong_rounds (H r) (args r) (?A r) = Rdma (?main r) (Exit 0)" if "r < 2" for r
    using a [OF that] c pair_report [OF pair that] by (simp add: pingpong_rounds_def pingpong_main_def)
  have "\<exists>scq rcq. r < 2 \<longrightarrow> pingpong_process (H r) (argv r) (q r) (s r) =
      new_array (H r) 0 n (\<lambda>_. new_array (H r) 1 n (\<lambda>_. Tcp (body r scq rcq) (\<lambda>_. Rdma (?main r) (Exit 0))))" for r
  proof (cases "r < 2")
    case True
    then have "pa_rank (args r) = 0 \<or> pa_rank (args r) = 1" using a(3) [OF True] by auto
    with pingpong_starts [OF a(1) [OF True] a(6) [OF True], of "q r"] a(2,3) [OF True] rounds [OF True] show ?thesis
      unfolding body_def by simp
  qed simp
  then obtain scq rcq where proc: "\<And>r. r < 2 \<Longrightarrow> pingpong_process (H r) (argv r) (q r) (s r) =
      new_array (H r) 0 n (\<lambda>_. new_array (H r) 1 n (\<lambda>_. Tcp (body r (scq r) (rcq r)) (\<lambda>_. Rdma (?main r) (Exit 0))))"
    by metis
  have disc: "disc (?main r) None None" if "r < 2" for r
    by (rule disc_pingpong_loop) (use pingpong_rank(3,7) [OF ready that] in simp_all)
  show "mdisc (pingpong_process (H r) (argv r) (q r) (s r))" if "r < 2"
    using disc [OF that] by (auto simp: proc [OF that] intro!: mdisc_array)
  let ?a = "\<lambda>i r. he_array (H r) i n"
  let ?M0 = "zeroed 2 (?a 0) (\<lambda>_. n) M" let ?M1 = "zeroed 2 (?a 1) (\<lambda>_. n) ?M0"
  obtain w1 where w1: "mreach wire w w1"
    "mstage w1 2 (\<lambda>r. new_array (H r) 1 n (\<lambda>_. Tcp (body r (scq r) (rcq r)) (\<lambda>_. Rdma (?main r) (Exit 0)))) ?M0 E"
    using phase_array [OF _ mstage_cong [OF w proc]] c(1) by blast
  obtain w2 where w2: "mreach wire w1 w2" "mstage w2 2 (\<lambda>r. Tcp (body r (scq r) (rcq r)) (\<lambda>_. Rdma (?main r) (Exit 0))) ?M1 E"
    using phase_array [OF _ w1(2)] c(1) by blast
  obtain qps t where "always_ends (bexec wire) (tcp_job 2 (\<lambda>r. body r (scq r) (rcq r)) ([], q 0))
      (\<lambda>f. f = tcp_job 2 (\<lambda>r. BRet (qps r, t r)) ([], q 0))"
    using communicator_ends [OF wired, of "\<lambda>r. he_qp (H r)" hw d "\<lambda>_. id" "\<lambda>r. the_pd (H r) (d r)" scq rcq q "([], q 0)"]
      pair_opens [OF pair] unfolding body_def by auto
  from always_ends_exists [OF this] have "reach wire (tcp_job 2 (\<lambda>r. body r (scq r) (rcq r)) ([], q 0)) (tcp_job 2 (\<lambda>r. BRet (qps r, t r)) ([], q 0))"
    unfolding reach_def by blast
  from phase_tcp [OF w2(2) this] obtain w3 where w3: "mreach wire w2 w3" "mstage w3 2 (\<lambda>r. Rdma (?main r) (Exit 0)) ?M1 E" by blast
  obtain w4 M' where w4: "mreach wire w3 w4" "mstage w4 2 (\<lambda>_. Exit 0) M' E" "echoed n ?A ?M1 ?T M'"
    using phase_rdma [OF w3(2), of "echoed n ?A ?M1 ?T" wire] pingpong_stage [OF ready c(5,4)] by blast
  have "?M1 r x = M r x" if "r < 2" "outside_bufs (?A r) x" for r x
    using that a(2) [OF that(1)] by (auto simp: zeroed_def outside_bufs_def the_env_def Let_def mem_write_def)
  then have "echoed n ?A M ?T M'" using w4(3) by (auto simp: echoed_def)
  then show "\<exists>w' M'. mreach wire w w' \<and> mstage w' 2 (\<lambda>_. Exit 0) M' E \<and> echoed n ?A M ?T M'"
    using w4(2) mreach_trans [OF w1(1) mreach_trans [OF w2(1) mreach_trans [OF w3(1) w4(1)]]] by blast
qed

section \<open>Properties\<close>


text \<open>One warm-up round and two measured ones with a message of four bytes.\<close>

definition sample_pp_args :: "nat \<Rightarrow> pp_args" where
  "sample_pp_args r = pp_defaults\<lparr>pa_rank := int r, pa_root_host := ''h'', pa_iters := 2, pa_warmup := 1, pa_msg_size := 4\<rparr>"

definition sample_pair :: "(sim built, nat \<Rightarrow> endpoint) world" where
  "sample_pair = \<lparr>mprocs = mranks 2 (\<lambda>r. pingpong_process (sample_host (\<lambda>i len. i * len)) (pp_render (sample_pp_args r)) one_qp (sample_net 2)),
     wmems = (\<lambda>_ _. 0), wnet = sample_ep 1, wchan = (\<lambda>_ _. [])\<rparr>"


end
