(* ===== verification/Bench.thy ===== *)
theory Bench
  imports Allreduce_Call Command_Line Statistics
begin

text \<open>
  \<^verbatim>\<open>bench/bench_allreduce.cc\<close> and the size sweep of \<^verbatim>\<open>bench/bench_mpi_allreduce.cc\<close>. A run of the benchmark is a sequence of
  blocks, one per algorithm and size; a block is a barrier followed by rounds that fill the data
  with a pattern and call the collective. The sweep that produces the blocks is a function of the arguments; the rounds of
  a block are rank programs. Timing is not modelled.
\<close>

section \<open>The sweep\<close>

definition choose_iters :: "nat \<Rightarrow> int" where
  "choose_iters size_bytes =
     (if size_bytes \<le> 64 * 1024 then 200
      else if size_bytes \<le> 1024 * 1024 then 50
      else if size_bytes \<le> 16 * 1024 * 1024 then 20
      else 5)"

definition kWarmup :: int where "kWarmup = 5"

text \<open>The columns of a CSV row that do not depend on time.\<close>

record bench_row =
  row_algo :: string
  row_size_bytes :: nat
  row_count :: nat
  row_iters :: int

definition bench_algos :: "bench_args \<Rightarrow> string list" where
  "bench_algos a = (if ba_algo a = ''both'' then [''ring'', ''recdouble''] else [ba_algo a])"

text \<open>One iteration of the loop over sizes: the blocks it runs.\<close>

definition bench_size :: "bench_args \<Rightarrow> nat \<Rightarrow> nat \<Rightarrow> bench_row list" where
  "bench_size a elem_size size_bytes =
     (let count = size_bytes div elem_size in
      if count = 0 then []
      else concat (map (\<lambda>algo.
        if algo = ''recdouble'' \<and> (ba_world_size a AND (ba_world_size a - 1)) \<noteq> 0 then []
        else [\<lparr>row_algo = algo, row_size_bytes = size_bytes, row_count = count, row_iters = choose_iters size_bytes\<rparr>])
        (bench_algos a)))"

text \<open>The loop has no bound of its own: \<open>None\<close> is a sweep that never ends.\<close>

partial_function (option) bench_sweep :: "bench_args \<Rightarrow> nat \<Rightarrow> nat \<Rightarrow> bench_row list option" where
  "bench_sweep a elem_size size_bytes =
     (if size_bytes \<le> ba_max_size a
      then Option.bind (bench_sweep a elem_size (sz_mul size_bytes 2))
             (\<lambda>rows. Some (bench_size a elem_size size_bytes @ rows))
      else Some [])"

text \<open>
  \<^verbatim>\<open>main\<close> after the arguments are read: names are resolved, the buffers are allocated (\<^verbatim>\<open>std::vector\<close>
  refuses a size that does not fit its \<^verbatim>\<open>difference_type\<close>), the sweep runs. The device and the communicator it constructs in
  between are the theories \<open>Device\<close> and \<open>Communicator\<close>.
\<close>

definition bench_main :: "bench_args \<Rightarrow> (Dtype \<times> ReduceOp \<times> bench_row list option) result" where
  "bench_main a =
     bind_res (parse_dtype (ba_dtype_str a)) (\<lambda>dtype.
     bind_res (parse_op (ba_op_str a)) (\<lambda>op.
       if 2 ^ 63 \<le> ba_max_size a then Inl LengthError
       else Inr (dtype, op, bench_sweep a (dtype_size dtype) (ba_min_size a))))"

text \<open>
  The MPI comparison, which repeats \<^verbatim>\<open>choose_iters\<close> and the sweep. \<^verbatim>\<open>MPI_Allreduce\<close> itself belongs to the MPI library.
\<close>

datatype mpi_datatype = MPI_FLOAT | MPI_INT32_T

datatype mpi_op = MPI_SUM | MPI_MIN | MPI_MAX

definition parse_mpi_dtype :: "string \<Rightarrow> (mpi_datatype \<times> nat) result" where
  "parse_mpi_dtype s =
     (if s = ''float32'' then Inr (MPI_FLOAT, 4) else if s = ''int32'' then Inr (MPI_INT32_T, 4)
      else Inl (RuntimeError (''unknown dtype: '' @ s) []))"

definition parse_mpi_op :: "string \<Rightarrow> mpi_op result" where
  "parse_mpi_op s =
     (if s = ''sum'' then Inr MPI_SUM else if s = ''min'' then Inr MPI_MIN else if s = ''max'' then Inr MPI_MAX
      else Inl (RuntimeError (''unknown op: '' @ s) []))"

definition mpi_choose_iters :: "nat \<Rightarrow> int" where
  "mpi_choose_iters size_bytes =
     (if size_bytes \<le> 64 * 1024 then 200
      else if size_bytes \<le> 1024 * 1024 then 50
      else if size_bytes \<le> 16 * 1024 * 1024 then 20
      else 5)"

definition mpi_size :: "nat \<Rightarrow> nat \<Rightarrow> bench_row list" where
  "mpi_size elem_size size_bytes =
     (let count = size_bytes div elem_size in
      if count = 0 then []
      else [\<lparr>row_algo = ''openmpi'', row_size_bytes = size_bytes, row_count = count, row_iters = mpi_choose_iters size_bytes\<rparr>])"

partial_function (option) mpi_sweep :: "mpi_args \<Rightarrow> nat \<Rightarrow> nat \<Rightarrow> bench_row list option" where
  "mpi_sweep a elem_size size_bytes =
     (if size_bytes \<le> ma_max_size a
      then Option.bind (mpi_sweep a elem_size (sz_mul size_bytes 2))
             (\<lambda>rows. Some (mpi_size elem_size size_bytes @ rows))
      else Some [])"

definition mpi_main :: "mpi_args \<Rightarrow> (mpi_datatype \<times> mpi_op \<times> bench_row list option) result" where
  "mpi_main a =
     bind_res (parse_mpi_dtype (ma_dtype_str a)) (\<lambda>(dtype, elem_size).
     bind_res (parse_mpi_op (ma_op_str a)) (\<lambda>op.
       if 2 ^ 63 \<le> ma_max_size a then Inl LengthError
       else Inr (dtype, op, mpi_sweep a elem_size (ma_min_size a))))"

section \<open>The rounds of a block\<close>

record bench_env =
  be_rank :: int
  be_comm :: communicator
  be_data_mr :: MemoryRegion
  be_data :: nat
  be_scratch_mr :: MemoryRegion
  be_scratch :: nat
  be_max_count :: nat
  be_dtype :: Dtype
  be_op :: ReduceOp

definition bench_fill :: "bench_env \<Rightarrow> nat \<Rightarrow> int \<Rightarrow> mem \<Rightarrow> mem result" where
  "bench_fill e count it m =
     (let x = be_rank e + it in
      if int_range x
      then Inr (mem_write m (be_data e) (replicate (sz_mul count (dtype_size (be_dtype e))) (word_of_int x)))
      else Inl (Undefined ''signed integer overflow''))"

definition bench_call_args :: "bench_env \<Rightarrow> nat \<Rightarrow> allreduce_args" where
  "bench_call_args e count =
     \<lparr>ar_comm = be_comm e, ar_data_mr = be_data_mr e, ar_data = be_data e, ar_count = count,
      ar_dtype = be_dtype e, ar_op = be_op e, ar_scratch_mr = be_scratch_mr e, ar_scratch = be_scratch e,
      ar_scratch_capacity = be_max_count e\<rparr>"

definition bench_call :: "string \<Rightarrow> allreduce_args \<Rightarrow> rprog \<Rightarrow> rprog" where
  "bench_call algo a k = (if algo = ''ring'' then allreduce_ring a k else allreduce_recursive_doubling a k)"

fun bench_rounds :: "bench_env \<Rightarrow> string \<Rightarrow> nat \<Rightarrow> nat \<Rightarrow> int \<Rightarrow> rprog \<Rightarrow> rprog" where
  "bench_rounds e algo count 0 it k = k"
| "bench_rounds e algo count (Suc n) it k =
     Compute (bench_fill e count it)
     (bench_call algo (bench_call_args e count) (bench_rounds e algo count n (it + 1) k))"

definition bench_block :: "bench_env \<Rightarrow> bench_row \<Rightarrow> rprog \<Rightarrow> rprog" where
  "bench_block e row k = bench_rounds e (row_algo row) (row_count row) (nat (kWarmup + row_iters row)) 0 k"

section \<open>Sweeps that double\<close>

text \<open>The sizes from \<open>m\<close> up to \<open>mx\<close> in powers of two.\<close>

definition doubled_sizes :: "nat \<Rightarrow> nat \<Rightarrow> nat list" where
  "doubled_sizes m mx = filter (\<lambda>s. s \<le> mx) (map (\<lambda>k. m * 2 ^ k) [0..<64])"

locale doubling_sweep =
  fixes sweep :: "nat \<Rightarrow> 'r list option" and body :: "nat \<Rightarrow> 'r list" and mx :: nat
  assumes step: "sweep s = (if s \<le> mx then Option.bind (sweep (sz_mul s 2)) (\<lambda>rows. Some (body s @ rows)) else Some [])"
    and zero: "sweep 0 = None"
begin

lemma sweep_from:
  assumes "0 < m" "mx < 2 ^ 63" "j \<le> 64"
  shows "sweep (m * 2 ^ j) = Some (concat (map body (filter (\<lambda>s. s \<le> mx) (map (\<lambda>k. m * 2 ^ k) [j..<64]))))"
  using assms(3)
proof (induction "64 - j" arbitrary: j)
  case 0
  have "1 * 2 ^ 64 \<le> m * 2 ^ 64" using assms(1) by (intro mult_right_mono) simp_all
  then have "\<not> m * 2 ^ 64 \<le> mx" using assms(2) by simp
  moreover have "j = 64" using 0 by simp
  ultimately show ?case by (subst step) simp
next
  case (Suc d)
  then have j: "j < 64" "d = 64 - Suc j" by simp_all
  show ?case
  proof (cases "m * 2 ^ j \<le> mx")
    case True
    then have "sz_mul (m * 2 ^ j) 2 = m * 2 ^ Suc j" using assms(2) by (subst sz_mul_exact) simp_all
    moreover have "[j..<64] = j # [Suc j..<64]" using j by (simp add: upt_conv_Cons)
    ultimately show ?thesis
      using Suc.hyps(1) [OF j(2)] j(1) True by (subst step) simp
  next
    case False
    have "filter (\<lambda>s. s \<le> mx) (map (\<lambda>k. m * 2 ^ k) [j..<64]) = []"
    proof -
      have "mx < m * 2 ^ k" if "j \<le> k" for k
        using False that assms(1) by (metis mult_le_mono2 not_le order.strict_trans2 power_increasing one_le_numeral)
      then show ?thesis by (auto simp: filter_empty_conv not_le)
    qed
    with False show ?thesis by (subst step) simp
  qed
qed

lemma sweep_doubles:
  "mx < 2 ^ 63 \<Longrightarrow> sweep m = (if m = 0 then None else Some (concat (map body (doubled_sizes m mx))))"
  using sweep_from [of m 0] zero by (simp add: doubled_sizes_def)

end

lemma sz_mul_2_pos: "0 < sz_mul s 2 \<Longrightarrow> 0 < s"
  by (cases s) (simp_all add: sz_mul_def)

lemma bench_sweep_zero: "bench_sweep a e s = Some rows \<Longrightarrow> s \<noteq> 0"
  by (erule bench_sweep.raw_induct [rotated]) (auto simp: bind_eq_Some_conv split: if_splits dest!: sz_mul_2_pos)

lemma mpi_sweep_zero: "mpi_sweep a e s = Some rows \<Longrightarrow> s \<noteq> 0"
  by (erule mpi_sweep.raw_induct [rotated]) (auto simp: bind_eq_Some_conv split: if_splits dest!: sz_mul_2_pos)

interpretation bench: doubling_sweep "bench_sweep a e" "bench_size a e" "ba_max_size a" for a e
proof
  show "bench_sweep a e 0 = None" using bench_sweep_zero [of a e 0] by (cases "bench_sweep a e 0") auto
qed (rule bench_sweep.simps)

interpretation mpi: doubling_sweep "mpi_sweep a e" "mpi_size e" "ma_max_size a" for a e
proof
  show "mpi_sweep a e 0 = None" using mpi_sweep_zero [of a e 0] by (cases "mpi_sweep a e 0") auto
qed (rule mpi_sweep.simps)

section \<open>What the ranks of a benchmark have in common\<close>

text \<open>The buffers as \<^verbatim>\<open>main\<close> allocates and registers them, \<open>mx\<close> bytes each.\<close>

definition bench_ready :: "nat \<Rightarrow> nat \<Rightarrow> Dtype \<Rightarrow> ReduceOp \<Rightarrow> (nat \<Rightarrow> bench_env) \<Rightarrow> (nat \<Rightarrow> endpoint) \<Rightarrow> bool" where
  "bench_ready P mx dt op B E \<longleftrightarrow> 2 \<le> P \<and> P < 2 ^ 16 \<and> mx < 2 ^ 32 \<and>
     (\<forall>r<P. be_rank (B r) = int r \<and> connected P r (be_comm (B r)) \<and> be_dtype (B r) = dt \<and> be_op (B r) = op \<and> be_max_count (B r) = mx div 4 \<and>
        registered (E r) (be_data_mr (B r)) \<and> mr_addr (be_data_mr (B r)) = be_data (B r) \<and> mr_length (be_data_mr (B r)) = mx \<and>
        registered (E r) (be_scratch_mr (B r)) \<and> mr_addr (be_scratch_mr (B r)) = be_scratch (B r) \<and>
        mr_length (be_scratch_mr (B r)) = mx \<and> disjoint_ranges (be_data (B r)) mx (be_scratch (B r)) mx)"

abbreviation bench_calls :: "(nat \<Rightarrow> bench_env) \<Rightarrow> nat \<Rightarrow> nat \<Rightarrow> allreduce_args" where
  "bench_calls B n r \<equiv> bench_call_args (B r) n"

lemma bench_call_sel [simp]:
  "ar_data (bench_call_args e n) = be_data e" "ar_count (bench_call_args e n) = n"
  "ar_comm (bench_call_args e n) = be_comm e" "ar_scratch (bench_call_args e n) = be_scratch e"
  "ar_scratch_capacity (bench_call_args e n) = be_max_count e"
  by (simp_all add: bench_call_args_def)

lemma bench_allreduce_ready:
  assumes "bench_ready P mx dt op B E" "4 * n \<le> mx" "need \<le> n"
  shows "allreduce_ready P n dt op need (bench_calls B n) E"
proof -
  have "disjoint_ranges (be_data (B r)) (4 * n) (be_scratch (B r)) (4 * (mx div 4))" if "r < P" for r
    using disjoint_ranges_sub [of "be_data (B r)" mx "be_scratch (B r)" mx "be_data (B r)" "4 * n" "be_scratch (B r)" "4 * (mx div 4)"]
      that assms by (simp add: bench_ready_def)
  moreover have "need \<le> mx div 4" using assms(2,3) by linarith
  ultimately show ?thesis
    using assms by (auto simp: allreduce_ready_def bench_ready_def buffers_ok_def bench_call_args_def)
qed

text \<open>Every element of the pattern of rank \<open>q\<close> in round \<open>it\<close>.\<close>

definition fill_elem :: "nat \<Rightarrow> nat \<Rightarrow> nat \<Rightarrow> u32" where
  "fill_elem it q i = (let b = word_of_int (int q + int it) in le_word b b b b)"

lemma bench_fill_ok:
  assumes "bench_ready P mx dt op B E" "4 * n \<le> mx" "r < P" "it < 2 ^ 16"
  obtains m' where "bench_fill (B r) n (int it) m = Inr m'"
    "\<And>i. i < n \<Longrightarrow> load32 m' (be_data (B r) + 4 * i) = fill_elem it r i" "same_outside (bench_calls B n r) m m'"
proof -
  let ?m = "mem_write m (be_data (B r)) (replicate (4 * n) (word_of_int (int r + int it)))"
  have "be_rank (B r) = int r" "n * 4 < 2 ^ 64" "int_range (int r + int it)"
    using assms by (auto simp: bench_ready_def connected_def int_range_def)
  then have 1: "bench_fill (B r) n (int it) m = Inr ?m"
    by (simp add: bench_fill_def sz_mul_exact mult.commute)
  have 2: "load32 ?m (be_data (B r) + 4 * i) = fill_elem it r i" if "i < n" for i
  proof -
    have "?m (be_data (B r) + 4 * i + j) = word_of_int (int r + int it)" if "j < 4" for j
      using \<open>i < n\<close> that by (simp add: mem_write_def)
    from this [of 0] this [of 1] this [of 2] this [of 3] show ?thesis by (simp add: load32_def fill_elem_def Let_def)
  qed
  have 3: "same_outside (bench_calls B n r) m ?m" by (auto simp: same_outside_def mem_write_def)
  from that [OF 1 2 3] show thesis .
qed

context allreduce_call
begin

lemma round_stage:
  assumes b: "bench_ready P mx dt op B E" "4 * n \<le> mx" "it < 2 ^ 16" and rdy: "ready P n dt op (bench_calls B n) E"
    and idle: "\<And>x. idle (E x)"
    and def: "\<And>r i. r < P \<Longrightarrow> i < n \<Longrightarrow> \<exists>v. result P n (elem_op dt op) (fill_elem it) r i = Inr v"
    and w: "stage w (ranks P (\<lambda>r. Compute (bench_fill (B r) n (int it)) (call (bench_calls B n r) (k r)))) M E"
  shows "\<exists>as w' M'. run (exec rc_fabric) as w = Some w' \<and> stage w' (ranks P k) M' E \<and>
    (\<forall>r<P. (\<forall>i<n. Inr (elem (bench_calls B n) M' r i) = result P n (elem_op dt op) (fill_elem it) r i) \<and>
       same_outside (bench_calls B n r) (M r) (M' r))"
proof -
  let ?A = "bench_calls B n"
  define filled where "filled r m' \<longleftrightarrow> bench_fill (B r) n (int it) (M r) = Inr m' \<and>
      (\<forall>i<n. load32 m' (be_data (B r) + 4 * i) = fill_elem it r i) \<and> same_outside (?A r) (M r) m'" for r m'
  have "\<exists>m'. r < P \<longrightarrow> filled r m'" for r
    using bench_fill_ok [OF b(1,2) _ b(3), of r "M r"] unfolding filled_def by metis
  then obtain m where m: "\<And>r. r < P \<Longrightarrow> filled r (m r)" by metis
  let ?M = "\<lambda>r. if r < P then m r else M r"
  let ?v = "\<lambda>r. (ranks P (\<lambda>r. call (?A r) (k r)) r, ?M r, E r)"
  have v: "view w r = (ranks P (\<lambda>r. Compute (bench_fill (B r) n (int it)) (call (?A r) (k r))) r, M r, E r)" for r
    using w by (simp add: stage_def)
  have steps: "lsteps (view w r) (?v r)" if "r < P" for r
    using m [OF that] that unfolding v by (intro r_into_rtranclp) (simp add: filled_def)
  obtain as w1 where w1: "run (exec rc_fabric) as w = Some w1" "\<forall>r. view w1 r = ?v r"
    using local_phase [of P w ?v, OF steps] by (auto simp: v)
  have elems: "elem ?A ?M q i = fill_elem it q i" if "q < P" "i < n" for q i
    using m that by (simp add: elem_def filled_def)
  have eq: "result P n f (elem ?A ?M) r i = result P n f (fill_elem it) r i" if "r < P" "i < n" for r i f
    by (rule result_cong [OF rdy elems that])
  have "stage w1 (ranks P (\<lambda>r. call (?A r) (k r))) ?M E" using w1(2) by (simp add: stage_def)
  from call_stage [OF rdy idle _ this] def obtain bs w2 M2 where
    2: "run (exec rc_fabric) bs w1 = Some w2" "stage w2 (ranks P k) M2 E"
      "\<forall>r<P. (\<forall>i<n. Inr (elem ?A M2 r i) = result P n (elem_op dt op) (elem ?A ?M) r i) \<and> same_outside (?A r) (?M r) (M2 r)"
    by (auto simp: eq)
  have "same_outside (?A r) (M r) (M2 r)" if "r < P" for r
    using m [OF that] 2(3) that same_outside_trans [of "?A r" "M r" "m r" "M2 r"] by (simp add: filled_def)
  with 2 run_appendI [OF w1(1) 2(1)] show ?thesis by (intro exI [of _ "as @ bs"] exI [of _ w2] exI [of _ M2]) (simp add: eq)
qed

lemma rounds_stage:
  assumes b: "bench_ready P mx dt op B E" "4 * n \<le> mx" "T < 2 ^ 16" and rdy: "ready P n dt op (bench_calls B n) E"
    and idle: "\<And>x. idle (E x)" and algo: "bench_call algo = call"
    and def: "\<And>it r i. it < T \<Longrightarrow> r < P \<Longrightarrow> i < n \<Longrightarrow> \<exists>v. result P n (elem_op dt op) (fill_elem it) r i = Inr v"
    and w: "stage w (ranks P (\<lambda>r. bench_rounds (B r) algo n T 0 (k r))) M E"
  shows "\<exists>as w' M'. run (exec rc_fabric) as w = Some w' \<and> stage w' (ranks P k) M' E \<and>
    (\<forall>r<P. (\<forall>i<n. 0 < T \<longrightarrow> Inr (elem (bench_calls B n) M' r i) = result P n (elem_op dt op) (fill_elem (T - 1)) r i) \<and>
       same_outside (bench_calls B n r) (M r) (M' r))"
proof -
  let ?prog = "\<lambda>s r. bench_rounds (B r) algo n (T - s) (int s) (k r)"
  let ?J = "\<lambda>s M'. \<forall>r<P. (\<forall>i<n. 0 < s \<longrightarrow> Inr (elem (bench_calls B n) M' r i) = result P n (elem_op dt op) (fill_elem (s - 1)) r i) \<and>
       same_outside (bench_calls B n r) (M r) (M' r)"
  have "\<exists>as w' M'. run (exec rc_fabric) as w = Some w' \<and> stage w' (ranks P (?prog T)) M' E \<and> ?J T M'"
  proof (rule stage_loop [where prog = ?prog and M = M and J = ?J])
    fix s w1 M1 assume s: "s < T" and w1: "stage w1 (ranks P (?prog s)) M1 E" and J: "?J s M1"
    have "T - s = Suc (T - Suc s)" using s by simp
    then have "?prog s = (\<lambda>r. Compute (bench_fill (B r) n (int s)) (call (bench_calls B n r) (?prog (Suc s) r)))"
      by (simp add: algo fun_eq_iff add.commute)
    with w1 have "stage w1 (ranks P (\<lambda>r. Compute (bench_fill (B r) n (int s)) (call (bench_calls B n r) (?prog (Suc s) r)))) M1 E"
      by simp
    from round_stage [OF b(1,2) _ rdy idle def this] s b(3) obtain as w' M' where
      "run (exec rc_fabric) as w1 = Some w'" "stage w' (ranks P (?prog (Suc s))) M' E"
      "\<forall>r<P. (\<forall>i<n. Inr (elem (bench_calls B n) M' r i) = result P n (elem_op dt op) (fill_elem s) r i) \<and>
         same_outside (bench_calls B n r) (M1 r) (M' r)" by auto
    with J show "\<exists>as w' M'. run (exec rc_fabric) as w1 = Some w' \<and> stage w' (ranks P (?prog (Suc s))) M' E \<and> ?J (Suc s) M'"
      by (intro exI [of _ as] exI [of _ w'] exI [of _ M']) (auto intro: same_outside_trans)
  qed (use w in simp_all)
  then show ?thesis by simp
qed

lemma disc_rounds:
  assumes "ready P n dt op (bench_calls B n) E" "r < P" "disc k None None" "bench_call algo = call"
  shows "disc (bench_rounds (B r) algo n T it k) None None"
  using call_disc [OF assms(1,2)] assms(3,4) by (induction T arbitrary: it) simp_all

end

section \<open>The blocks of a sweep\<close>

lemma bench_size_row:
  assumes "row \<in> set (bench_size a 4 s)"
  shows "row_algo row \<in> set (bench_algos a)" "row_size_bytes row = s" "row_count row = s div 4" "0 < row_count row"
    "row_iters row = choose_iters s"
    "row_algo row = ''recdouble'' \<Longrightarrow> ba_world_size a AND (ba_world_size a - 1) = 0"
  using assms by (auto simp: bench_size_def Let_def split: if_splits)

lemma bench_main_row:
  assumes "bench_main a = Inr (dt, op, Some rows)" "row \<in> set rows"
  shows "row_algo row \<in> set (bench_algos a)" "4 * row_count row \<le> ba_max_size a"
    "row_iters row \<in> {5, 20, 50, 200}" "row_algo row = ''recdouble'' \<Longrightarrow> ba_world_size a AND (ba_world_size a - 1) = 0"
proof -
  have "bench_sweep a 4 (ba_min_size a) = Some rows" "ba_max_size a < 2 ^ 63"
    using assms(1) by (auto simp: bench_main_def bind_res_eq_Inr split: if_splits)
  then have "rows = concat (map (bench_size a 4) (doubled_sizes (ba_min_size a) (ba_max_size a)))"
    using bench.sweep_doubles [of a 4 "ba_min_size a"] by (simp split: if_splits)
  then obtain s where s: "s \<le> ba_max_size a" "row \<in> set (bench_size a 4 s)"
    using assms(2) by (auto simp: doubled_sizes_def)
  note row = bench_size_row [OF s(2)]
  show "row_algo row \<in> set (bench_algos a)" "4 * row_count row \<le> ba_max_size a"
    "row_iters row \<in> {5, 20, 50, 200}" "row_algo row = ''recdouble'' \<Longrightarrow> ba_world_size a AND (ba_world_size a - 1) = 0"
    using row s(1) by (auto simp: choose_iters_def)
qed

text \<open>What a block leaves in element \<open>i\<close> of rank \<open>r\<close>.\<close>

definition bench_result :: "bench_row \<Rightarrow> nat \<Rightarrow> (u32 \<Rightarrow> u32 \<Rightarrow> u32 result) \<Rightarrow> (nat \<Rightarrow> nat \<Rightarrow> u32) \<Rightarrow> nat \<Rightarrow> nat \<Rightarrow> u32 result" where
  "bench_result row P = (if row_algo row = ''ring'' then ring_result P (row_count row) else rd_result P (row_count row))"

text \<open>Every block has samples enough for its statistics.\<close>

lemma sweep_stats:
  assumes "iters \<in> {5, 20, 50, 200}"
  shows "\<exists>st. compute_stats (map f [n..<n + measured_rounds kWarmup iters]) = Inr st"
proof -
  have "measured_rounds kWarmup iters = nat iters"
    using assms by (intro measured_rounds_eq) (auto simp: kWarmup_def)
  then show ?thesis using assms by (intro compute_stats_defined) auto
qed

text \<open>A block of a sweep, run by all ranks.\<close>

lemma bench_block_ok:
  assumes main: "bench_main a = Inr (dt, op, Some rows)" "row \<in> set rows"
    and algo: "ba_algo a \<in> {''ring'', ''recdouble'', ''both''}" and P: "ba_world_size a = int P" and total: "dt = Float32 \<or> op \<noteq> Sum_op"
    and ready: "bench_ready P (ba_max_size a) dt op B E"
  shows "r < P \<Longrightarrow> disc (bench_block (B r) row Return) None None"
    and "(\<And>x. idle (E x)) \<Longrightarrow> stage w (ranks P (\<lambda>r. bench_block (B r) row Return)) M E \<Longrightarrow>
      \<exists>as w' M'. run (exec rc_fabric) as w = Some w' \<and> stage w' (ranks P (\<lambda>_. Return)) M' E \<and>
        (\<forall>r<P. \<forall>i<row_count row. Inr (elem (bench_calls B (row_count row)) M' r i) =
          bench_result row P (elem_op dt op) (fill_elem (nat (kWarmup + row_iters row) - 1)) r i)"
proof -
  note row = bench_main_row [OF main]
  let ?n = "row_count row" and ?T = "nat (kWarmup + row_iters row)"
  have T: "0 < ?T" "?T < 2 ^ 16" using row(3) by (auto simp: kWarmup_def)
  have P2: "2 \<le> P" using ready by (simp add: bench_ready_def)
  have rdy: "need \<le> ?n \<Longrightarrow> allreduce_ready P ?n dt op need (bench_calls B ?n) E" for need
    by (rule bench_allreduce_ready [OF ready row(2)])
  have ring: "ring_ready P ?n dt op (bench_calls B ?n) E" using rdy [OF chunk_len_le] P2 by (simp add: ring_ready_def)
  have rd: "rd_ready P ?n dt op (bench_calls B ?n) E" if "row_algo row \<noteq> ''ring''"
    using rdy row(1,4) algo P P2 that by (auto simp: rd_ready_def is_power_of_two_def bench_algos_def split: if_splits)
  have call: "bench_call (row_algo row) = (if row_algo row = ''ring'' then allreduce_ring else allreduce_recursive_doubling)"
    by (simp add: bench_call_def fun_eq_iff)
  show "disc (bench_block (B r) row Return) None None" if "r < P"
    unfolding bench_block_def using that call
    by (cases "row_algo row = ''ring''") (auto intro: ring_call.disc_rounds [OF ring] rd_call.disc_rounds [OF rd])
  assume idle: "\<And>x. idle (E x)" and w: "stage w (ranks P (\<lambda>r. bench_block (B r) row Return)) M E"
  show "\<exists>as w' M'. run (exec rc_fabric) as w = Some w' \<and> stage w' (ranks P (\<lambda>_. Return)) M' E \<and>
      (\<forall>r<P. \<forall>i<?n. Inr (elem (bench_calls B ?n) M' r i) = bench_result row P (elem_op dt op) (fill_elem (?T - 1)) r i)"
  proof (cases "row_algo row = ''ring''")
    case True
    then have "bench_call (row_algo row) = allreduce_ring" using call by simp
    from ring_call.rounds_stage [OF ready row(2) T(2) ring idle this results_defined(1) [OF total] w [unfolded bench_block_def]]
    show ?thesis unfolding bench_result_def if_P [OF True] using T(1) by blast
  next
    case False
    then have "bench_call (row_algo row) = allreduce_recursive_doubling" using call by simp
    from rd_call.rounds_stage [OF ready row(2) T(2) rd [OF False] idle this results_defined(2) [OF total] w [unfolded bench_block_def]]
    show ?thesis unfolding bench_result_def if_not_P [OF False] using T(1) by blast
  qed
qed

text \<open>
  With \<^verbatim>\<open>--dtype int32 --op sum\<close> the pattern of round 64 already overflows on two ranks, which is undefined behaviour.
\<close>

lemma bench_int32_sum_undefined:
  "rd_result 2 n (elem_op Int32 Sum_op) (fill_elem 64) 0 i = Inl (Undefined ''signed integer overflow'')"
proof -
  have "rd_steps 2 0 = 1" using rd_steps_pow [of 1 0] by simp
  moreover have "partner 0 0 = 1" by (simp add: partner_def)
  moreover have "i32_add (fill_elem 64 0 i) (fill_elem 64 1 i) = Inl (Undefined ''signed integer overflow'')"
  proof -
    have "fill_elem 64 0 i = 0x40404040" "fill_elem 64 1 i = 0x41414141"
      by (simp_all add: fill_elem_def le_word_def)
    then show ?thesis by (simp add: i32_add_def)
  qed
  ultimately show ?thesis by (simp add: rd_result_def elem_op_def)
qed

text \<open>Two ranks that sweep a single size of eight bytes.\<close>

definition tiny_bench :: "nat \<Rightarrow> bench_args" where
  "tiny_bench mx = bench_defaults\<lparr>ba_rank := 0, ba_root_host := ''h'', ba_max_size := mx\<rparr>"

definition tiny_row :: bench_row where
  "tiny_row = \<lparr>row_algo = ''ring'', row_size_bytes = 8, row_count = 2, row_iters = 200\<rparr>"

lemma tiny_sel [simp]:
  "ba_min_size (tiny_bench mx) = 8" "ba_max_size (tiny_bench mx) = mx" "ba_world_size (tiny_bench mx) = 2"
  "ba_algo (tiny_bench mx) = ''both''" "ba_dtype_str (tiny_bench mx) = ''float32''" "ba_op_str (tiny_bench mx) = ''sum''"
  by (simp_all add: tiny_bench_def bench_defaults_def)

lemma tiny_sweep: "bench_sweep (tiny_bench 8) 4 8 = Some [tiny_row, tiny_row\<lparr>row_algo := ''recdouble''\<rparr>]"
  by (simp add: bench_sweep.simps [of _ _ 8] bench_sweep.simps [of _ _ 16] sz_mul_def bench_size_def
      bench_algos_def choose_iters_def tiny_row_def)

section \<open>Properties\<close>

text \<open>
  C31: the sweep visits exactly the sizes from the minimum to the maximum in powers of two, for every maximum a vector can have;
  with \<^verbatim>\<open>--min-size 0\<close> it never ends.
\<close>

theorem bench_sweep_sizes:
  assumes "bench_main a = Inr (dt, op, rows)"
  shows "rows = (if ba_min_size a = 0 then None
    else Some (concat (map (bench_size a (dtype_size dt)) (doubled_sizes (ba_min_size a) (ba_max_size a)))))"
proof -
  have "rows = bench_sweep a (dtype_size dt) (ba_min_size a)" "ba_max_size a < 2 ^ 63"
    using assms by (auto simp: bench_main_def bind_res_eq_Inr split: if_splits)
  then show ?thesis using bench.sweep_doubles by simp
qed

theorem bench_sweep_sizes_witness:
  "bench_sweep (tiny_bench 20) 4 8 =
     Some (concat (map (bench_size (tiny_bench 20) 4) [8, 16])) \<and> bench_sweep ((tiny_bench 20)\<lparr>ba_min_size := 0\<rparr>) 4 0 = None"
proof -
  let ?a = "tiny_bench 20"
  have main: "bench_main b = Inr (Float32, Sum_op, bench_sweep b 4 (ba_min_size b))" if "b = ?a \<or> b = ?a\<lparr>ba_min_size := 0\<rparr>" for b
    using that by (auto simp: bench_main_def parse_dtype_def parse_op_def)
  have "doubled_sizes 8 20 = [8, 16]" by (simp add: doubled_sizes_def upt_rec)
  with bench_sweep_sizes [OF main [of ?a]] bench_sweep_sizes [OF main [of "?a\<lparr>ba_min_size := 0\<rparr>"]]
  show ?thesis by simp
qed

text \<open>
  C30: the two benchmarks are comparable: given the same type, operator and range of sizes, \<^verbatim>\<open>bench_allreduce\<close> and
  \<^verbatim>\<open>bench_mpi_allreduce\<close> accept or reject them alike, and the ring rows of the one and the rows of the other have the same sizes,
  counts and numbers of iterations, in the same order, or both never end.
\<close>

theorem sweeps_comparable:
  assumes "ba_min_size a = ma_min_size b" "ba_max_size a = ma_max_size b" "ba_dtype_str a = ma_dtype_str b"
    and "ba_op_str a = ma_op_str b" "ba_algo a \<in> {''ring'', ''both''}"
  shows "case (bench_main a, mpi_main b) of
      (Inr (_, _, rows), Inr (_, _, mpi_rows)) \<Rightarrow>
        map_option (\<lambda>rows. map (row_algo_update (\<lambda>_. ''openmpi'')) (filter (\<lambda>row. row_algo row = ''ring'') rows)) rows = mpi_rows
    | (Inl e, Inl e') \<Rightarrow> e = e'
    | _ \<Rightarrow> False"
proof -
  have "map (row_algo_update (\<lambda>_. ''openmpi'')) (filter (\<lambda>row. row_algo row = ''ring'') (bench_size a e s)) = mpi_size e s" for e s
    using assms(5) by (auto simp: bench_size_def mpi_size_def bench_algos_def Let_def choose_iters_def mpi_choose_iters_def)
  then have "map (row_algo_update (\<lambda>_. ''openmpi'')) (filter (\<lambda>row. row_algo row = ''ring'') (concat (map (bench_size a e) ss))) =
      concat (map (mpi_size e) ss)" for e ss
    by (induction ss) simp_all
  then have "map_option (\<lambda>rows. map (row_algo_update (\<lambda>_. ''openmpi'')) (filter (\<lambda>row. row_algo row = ''ring'') rows))
      (bench_sweep a e (ba_min_size a)) = mpi_sweep b e (ma_min_size b)" if "ma_max_size b < 2 ^ 63" for e
    using bench.sweep_doubles [of a e "ba_min_size a"] mpi.sweep_doubles [of b e "ma_min_size b"] assms(1,2) that by simp
  then show ?thesis
    using assms by (simp add: bench_main_def mpi_main_def parse_dtype_def parse_mpi_dtype_def parse_op_def parse_mpi_op_def)
qed

theorem sweeps_comparable_witness:
  "mpi_main (mpi_defaults\<lparr>ma_max_size := 8\<rparr>) = Inr (MPI_FLOAT, MPI_SUM, Some [tiny_row\<lparr>row_algo := ''openmpi''\<rparr>])"
proof -
  let ?b = "mpi_defaults\<lparr>ma_max_size := 8\<rparr>"
  have sel: "ma_min_size ?b = 8" "ma_max_size ?b = 8" "ma_dtype_str ?b = ''float32''" "ma_op_str ?b = ''sum''"
    by (simp_all add: mpi_defaults_def)
  have a: "bench_main (tiny_bench 8) = Inr (Float32, Sum_op, Some [tiny_row, tiny_row\<lparr>row_algo := ''recdouble''\<rparr>])"
    by (simp add: bench_main_def tiny_sweep parse_dtype_def parse_op_def)
  have b: "mpi_main ?b = Inr (MPI_FLOAT, MPI_SUM, mpi_sweep ?b 4 8)"
    by (simp only: mpi_main_def sel parse_mpi_dtype_def parse_mpi_op_def) simp
  have "Some [tiny_row\<lparr>row_algo := ''openmpi''\<rparr>] = mpi_sweep ?b 4 8"
    using sweeps_comparable [of "tiny_bench 8" ?b] unfolding a b sel by (simp add: tiny_row_def)
  with b show ?thesis by simp
qed

end
