(* ===== verification/Bench_Process.thy ===== *)
theory Bench_Process
  imports Startup Bench
begin

text \<open>
  The whole of \<^verbatim>\<open>main\<close> of \<^verbatim>\<open>bench/bench_allreduce.cc\<close> as a process: arguments, device, communicator, buffers, and for every row of
  the sweep a barrier, the rounds and, on rank 0, the statistics. All processes of a job exit with 0 under every interleaving.
\<close>

section \<open>The process\<close>

text \<open>The blocks still to run. \<open>n\<close> counts the durations measured so far.\<close>

fun bench_run :: "('q, 'o) host_env \<Rightarrow> 'q comm_object \<Rightarrow> bench_env \<Rightarrow> nat \<Rightarrow> bench_row list \<Rightarrow> 'q built mprog" where
  "bench_run H comm e n [] = Exit 0"
| "bench_run H comm e n (row # rows) =
     comm_barrier comm
     (Rdma (bench_block e row Return)
       (let n' = n + measured_rounds kWarmup (row_iters row) in
        if be_rank e = 0
        then mtry (compute_stats (map (he_clock H) [n..<n'])) (\<lambda>_. bench_run H comm e n' rows)
        else bench_run H comm e n' rows))"

text \<open>\<^verbatim>\<open>main\<close> once the communicator is constructed.\<close>

definition bench_body :: "('q, 'o) host_env \<Rightarrow> bench_args \<Rightarrow> Dtype \<Rightarrow> ReduceOp \<Rightarrow> 'q comm_object \<Rightarrow> 'q built mprog" where
  "bench_body H args dtype op comm =
     new_array H 0 (ba_max_size args) (\<lambda>data.
     new_array H 1 (ba_max_size args) (\<lambda>scratch.
     register H 0 (c_pd comm) data (ba_max_size args) (\<lambda>data_mr.
     register H 1 (c_pd comm) scratch (ba_max_size args) (\<lambda>scratch_mr.
     (case bench_sweep args (dtype_size dtype) (ba_min_size args) of
        None \<Rightarrow> Spin
      | Some rows \<Rightarrow> bench_run H comm
          \<lparr>be_rank = ba_rank args, be_comm = c_comm comm, be_data_mr = data_mr, be_data = data, be_scratch_mr = scratch_mr,
           be_scratch = scratch, be_max_count = ba_max_size args div dtype_size dtype, be_dtype = dtype, be_op = op\<rparr>
          0 rows)))))"

definition bench_process :: "('q, 'o) host_env \<Rightarrow> string list \<Rightarrow> 'q \<Rightarrow> 'o \<Rightarrow> 'q built mprog" where
  "bench_process H argv q s =
     (case bench_parse_args argv of
        Inl e \<Rightarrow> Exit 2
      | Inr args \<Rightarrow>
          mtry (parse_dtype (ba_dtype_str args)) (\<lambda>dtype.
          mtry (parse_op (ba_op_str args)) (\<lambda>op.
          mtry_loop (device_ctor (he_verbs H) []) (\<lambda>device.
          communicator_ctor H device (ba_rank args) (ba_world_size args) (ba_root_host args) (ba_root_port args) q s
            (bench_body H args dtype op)))))"

section \<open>The blocks of all ranks\<close>

text \<open>What the last block leaves in the data of every rank.\<close>

definition last_block ::
    "nat \<Rightarrow> Dtype \<Rightarrow> ReduceOp \<Rightarrow> (nat \<Rightarrow> nat) \<Rightarrow> bench_row list \<Rightarrow> (nat \<Rightarrow> mem) \<Rightarrow> bool" where
  "last_block P dt op data rows M \<longleftrightarrow> (rows \<noteq> [] \<longrightarrow>
     (\<forall>r<P. \<forall>i<row_count (last rows). Inr (load32 (M r) (data r + 4 * i)) =
        bench_result (last rows) P (elem_op dt op) (fill_elem (nat (kWarmup + row_iters (last rows)) - 1)) r i))"

lemma bench_run_Cons:
  assumes "row_iters row \<in> {5, 20, 50, 200}"
  shows "bench_run H c e n (row # rows) = comm_barrier c (Rdma (bench_block e row Return)
    (bench_run H c e (n + measured_rounds kWarmup (row_iters row)) rows))"
  using sweep_stats [OF assms, of "he_clock H" n] by (auto simp: Let_def)

lemma bench_run_phases:
  assumes main: "\<And>row. row \<in> set rows \<Longrightarrow> \<exists>all. bench_main a = Inr (dt, op, Some all) \<and> row \<in> set all"
    and algo: "ba_algo a \<in> {''ring'', ''recdouble'', ''both''}" "ba_world_size a = int P" "dt = Float32 \<or> op \<noteq> Sum_op"
    and ready: "bench_ready P (ba_max_size a) dt op B E" and idle: "\<And>x. idle (E x)"
    and wired: "wired wire P b" "\<And>r. r < P \<Longrightarrow> c_bootstrap (c r) = b r"
  shows "r < P \<Longrightarrow> mdisc (bench_run (H r) (c r) (B r) n rows)"
    and "mstage w P (\<lambda>r. bench_run (H r) (c r) (B r) n rows) M E \<Longrightarrow>
      \<exists>w' M'. mreach wire w w' \<and> mstage w' P (\<lambda>_. Exit 0) M' E \<and> last_block P dt op (\<lambda>r. be_data (B r)) rows M'"
proof -
  have block: "r < P \<Longrightarrow> disc (bench_block (B r) row Return) None None" "row_iters row \<in> {5, 20, 50, 200}"
    if "row \<in> set rows" for row r
    using main [OF that] bench_block_ok(1) [OF _ _ algo ready] bench_main_row(3) by metis+
  show "mdisc (bench_run (H r) (c r) (B r) n rows)" if "r < P"
    using block
  proof (induction rows arbitrary: n)
    case (Cons row rows)
    have row: "row_iters row \<in> {5, 20, 50, 200}" "disc (bench_block (B r) row Return) None None" using Cons.prems that by auto
    have "mdisc (bench_run (H r) (c r) (B r) m rows)" for m by (rule Cons.IH) (use Cons.prems in auto)
    with row(2) show ?case unfolding bench_run_Cons [OF row(1)] by (intro mdisc_barrier) simp
  qed simp
  show "\<exists>w' M'. mreach wire w w' \<and> mstage w' P (\<lambda>_. Exit 0) M' E \<and> last_block P dt op (\<lambda>r. be_data (B r)) rows M'"
    if "mstage w P (\<lambda>r. bench_run (H r) (c r) (B r) n rows) M E"
    using that main
  proof (induction rows arbitrary: n w M)
    case Nil
    then have "mreach wire w w \<and> mstage w P (\<lambda>_. Exit 0) M E \<and> last_block P dt op (\<lambda>r. be_data (B r)) [] M" by (simp add: last_block_def)
    then show ?case by blast
  next
    case (Cons row rows)
    obtain all where all: "bench_main a = Inr (dt, op, Some all)" "row \<in> set all" using Cons.prems(2) [of row] by auto
    note row = bench_main_row [OF all]
    let ?n = "n + measured_rounds kWarmup (row_iters row)"
    let ?next = "\<lambda>r. bench_run (H r) (c r) (B r) ?n rows"
    obtain w1 where w1: "mreach wire w w1" "mstage w1 P (\<lambda>r. Rdma (bench_block (B r) row Return) (?next r)) M E"
      using phase_barrier [OF wired Cons.prems(1) [unfolded bench_run_Cons [OF row(3)]]] by blast
    obtain w2 M2 where w2: "mreach wire w1 w2" "mstage w2 P ?next M2 E" "last_block P dt op (\<lambda>r. be_data (B r)) [row] M2"
      using phase_rdma [OF w1(2), of "last_block P dt op (\<lambda>r. be_data (B r)) [row]" wire] bench_block_ok(2) [OF all algo ready idle]
      by (auto simp: last_block_def elem_def)
    have "\<exists>w' M'. mreach wire w2 w' \<and> mstage w' P (\<lambda>_. Exit 0) M' E \<and> last_block P dt op (\<lambda>r. be_data (B r)) (row # rows) M'"
    proof (cases rows)
      case Nil
      then show ?thesis using w2(2,3) by (auto intro: exI [of _ w2])
    next
      case (Cons r rs)
      have "\<exists>w' M'. mreach wire w2 w' \<and> mstage w' P (\<lambda>_. Exit 0) M' E \<and> last_block P dt op (\<lambda>r. be_data (B r)) rows M'"
        by (rule Cons.IH [OF w2(2)]) (use Cons.prems(2) in auto)
      then show ?thesis using Cons by (simp add: last_block_def)
    qed
    then show ?case using mreach_trans [OF w1(1) mreach_trans [OF w2(1)]] by blast
  qed
qed

section \<open>All processes\<close>

definition bench_the_env :: "('q, 'o) host_env \<Rightarrow> Device \<Rightarrow> bench_args \<Rightarrow> communicator \<Rightarrow> Dtype \<Rightarrow> ReduceOp \<Rightarrow> bench_env" where
  "bench_the_env H d args comm dt op =
     (let n = ba_max_size args; x = he_array H 0 n; y = he_array H 1 n in
      \<lparr>be_rank = ba_rank args, be_comm = comm, be_data_mr = the_mr H 0 (the_pd H d) x n, be_data = x,
       be_scratch_mr = the_mr H 1 (the_pd H d) y n, be_scratch = y, be_max_count = n div dtype_size dt, be_dtype = dt, be_op = op\<rparr>)"

text \<open>
  \<open>P\<close> processes with the same arguments apart from their rank, on hosts that work.
\<close>

definition bench_team ::
    "nat \<Rightarrow> (nat \<Rightarrow> ('q, 'o) host_env) \<Rightarrow> (nat \<Rightarrow> string list) \<Rightarrow> (nat \<Rightarrow> 'o) \<Rightarrow> (nat \<Rightarrow> 'q \<Rightarrow> ptr \<rightharpoonup> qp_hw) \<Rightarrow>
      (nat \<Rightarrow> Device) \<Rightarrow> (nat \<Rightarrow> bench_args) \<Rightarrow> (nat \<Rightarrow> TcpBootstrap) \<Rightarrow> Dtype \<Rightarrow> ReduceOp \<Rightarrow> bench_row list \<Rightarrow> nat \<Rightarrow>
      (nat \<Rightarrow> endpoint) \<Rightarrow> bool" where
  "bench_team P H argv s hw d args B dt op rows mx E \<longleftrightarrow>
     2 \<le> P \<and> P < 2 ^ 16 \<and> mx < 2 ^ 32 \<and> (dt = Float32 \<or> op \<noteq> Sum_op) \<and> (\<forall>x. idle (E x)) \<and>
     (\<forall>r<P. bench_parse_args (argv r) = Inr (args r) \<and> bench_main (args r) = Inr (dt, op, Some rows) \<and>
        ba_rank (args r) = int r \<and> ba_world_size (args r) = int P \<and> ba_max_size (args r) = mx \<and>
        ba_algo (args r) \<in> {''ring'', ''recdouble'', ''both''} \<and>
        opens (H r) (d r) \<and> qp_driver (he_qp (H r)) (hw r) \<and>
        joins (H r) (int r) (int P) (ba_root_host (args r)) (ba_root_port (args r)) (s r) (B r) \<and>
        (let x = he_array (H r) 0 mx; y = he_array (H r) 1 mx in
         registers (H r) (E r) 0 (the_pd (H r) (d r)) x mx \<and> registers (H r) (E r) 1 (the_pd (H r) (d r)) y mx \<and>
         disjoint_ranges x mx y mx))"

lemma team_rank:
  assumes "bench_team P H argv s hw d args B dt op rows mx E" "r < P"
  shows "bench_parse_args (argv r) = Inr (args r)" "bench_main (args r) = Inr (dt, op, Some rows)" "ba_rank (args r) = int r"
    "ba_world_size (args r) = int P" "ba_max_size (args r) = mx" "ba_algo (args r) \<in> {''ring'', ''recdouble'', ''both''}"
    "opens (H r) (d r)" "qp_driver (he_qp (H r)) (hw r)"
    "joins (H r) (int r) (int P) (ba_root_host (args r)) (ba_root_port (args r)) (s r) (B r)"
    "registers (H r) (E r) 0 (the_pd (H r) (d r)) (he_array (H r) 0 mx) mx"
    "registers (H r) (E r) 1 (the_pd (H r) (d r)) (he_array (H r) 1 mx) mx"
    "disjoint_ranges (he_array (H r) 0 mx) mx (he_array (H r) 1 mx) mx"
  using assms by (simp_all add: bench_team_def Let_def)

lemma team_ready:
  assumes "bench_team P H argv s hw d args B dt op rows mx E" and "\<And>r. r < P \<Longrightarrow> connected P r (comm r)"
  shows "bench_ready P mx dt op (\<lambda>r. bench_the_env (H r) (d r) (args r) (comm r) dt op) E"
proof -
  have "2 \<le> P" "P < 2 ^ 16" "mx < 2 ^ 32" using assms(1) by (simp_all add: bench_team_def)
  with assms(2) team_rank [OF assms(1)] show ?thesis
    by (simp add: bench_ready_def bench_the_env_def Let_def registers_def)
qed

lemma bench_starts:
  assumes team: "bench_team P H argv s hw d args B dt op rows mx E" and r: "r < P"
  shows "bench_process (H r) (argv r) q0 (s r) =
      communicator_ctor (H r) (d r) (int r) (int P) (ba_root_host (args r)) (ba_root_port (args r)) q0 (s r) (bench_body (H r) (args r) dt op)"
    and "c_pd c = the_pd (H r) (d r) \<Longrightarrow> bench_body (H r) (args r) dt op c =
      new_array (H r) 0 mx (\<lambda>_. new_array (H r) 1 mx (\<lambda>_.
        bench_run (H r) c (bench_the_env (H r) (d r) (args r) (c_comm c) dt op) 0 rows))"
proof -
  note a = team_rank [OF team r]
  have main: "parse_dtype (ba_dtype_str (args r)) = Inr dt" "parse_op (ba_op_str (args r)) = Inr op"
    "bench_sweep (args r) (dtype_size dt) (ba_min_size (args r)) = Some rows"
    using a(2) by (auto simp: bench_main_def bind_res_eq_Inr split: if_splits)
  obtain calls where "device_ctor (he_verbs (H r)) [] = Some (Inr (d r), calls)" using a(7) by (auto simp: opens_def)
  then show "bench_process (H r) (argv r) q0 (s r) =
      communicator_ctor (H r) (d r) (int r) (int P) (ba_root_host (args r)) (ba_root_port (args r)) q0 (s r) (bench_body (H r) (args r) dt op)"
    by (simp add: bench_process_def a(1,3,4) main)
  assume c: "c_pd c = the_pd (H r) (d r)"
  show "bench_body (H r) (args r) dt op c =
      new_array (H r) 0 mx (\<lambda>_. new_array (H r) 1 mx (\<lambda>_.
        bench_run (H r) c (bench_the_env (H r) (d r) (args r) (c_comm c) dt op) 0 rows))"
    unfolding bench_body_def bench_the_env_def Let_def a(5) main(3) c
    by (simp add: register_ok [OF a(10)] register_ok [OF a(11)] a(5) del: One_nat_def cong: new_array_cong)
qed

text \<open>The phases one after the other once the communicators stand: buffers, blocks.\<close>

lemma bench_body_phases:
  assumes team: "bench_team P H argv s hw d args B dt op rows mx E" and wired: "wired wire P B"
    and c: "\<forall>r<P. comm_works (H r) (d r) (B r) P r (c r)"
  shows "r < P \<Longrightarrow> mdisc (bench_body (H r) (args r) dt op (c r))"
    and "mstage w P (\<lambda>r. bench_body (H r) (args r) dt op (c r)) M E \<Longrightarrow>
      \<exists>w' M'. mreach wire w w' \<and> mstage w' P (\<lambda>_. Exit 0) M' E \<and> last_block P dt op (\<lambda>r. he_array (H r) 0 mx) rows M'"
proof -
  have P: "0 < P" and mx: "mx < 2 ^ 63" and total: "dt = Float32 \<or> op \<noteq> Sum_op" and idle: "\<And>x. idle (E x)"
    using team by (auto simp: bench_team_def)
  have boot: "\<And>r. r < P \<Longrightarrow> c_bootstrap (c r) = B r" and pd: "\<And>r. r < P \<Longrightarrow> c_pd (c r) = the_pd (H r) (d r)"
    and conn: "\<And>r. r < P \<Longrightarrow> connected P r (c_comm (c r))" using c by (simp_all add: comm_works_def)
  let ?B = "\<lambda>r. bench_the_env (H r) (d r) (args r) (c_comm (c r)) dt op"
  note start = bench_starts(2) [OF team _ pd]
  have a0: "bench_main (args 0) = Inr (dt, op, Some rows)" "ba_algo (args 0) \<in> {''ring'', ''recdouble'', ''both''}"
    "ba_world_size (args 0) = int P" "ba_max_size (args 0) = mx" using team_rank [OF team P] by simp_all
  have main: "\<exists>all. bench_main (args 0) = Inr (dt, op, Some all) \<and> row \<in> set all" if "row \<in> set rows" for row
    using a0(1) that by blast
  have ready: "bench_ready P (ba_max_size (args 0)) dt op ?B E"
    using team_ready [where comm = "\<lambda>r. c_comm (c r)", OF team conn] a0(4) by simp
  note blocks = bench_run_phases [where c = c and B = ?B, OF main a0(2,3) total ready idle wired boot]
  show "mdisc (bench_body (H r) (args r) dt op (c r))" if r: "r < P"
    unfolding start [OF r r] by (intro mdisc_array blocks(1) r)
  assume w: "mstage w P (\<lambda>r. bench_body (H r) (args r) dt op (c r)) M E"
  obtain w1 M1 where w1: "mreach wire w w1" "mstage w1 P (\<lambda>r. new_array (H r) 1 mx (\<lambda>_. bench_run (H r) (c r) (?B r) 0 rows)) M1 E"
    by (rule phase_new_array [OF mx mstage_cong [OF w start]])
  obtain w2 M2 where w2: "mreach wire w1 w2" "mstage w2 P (\<lambda>r. bench_run (H r) (c r) (?B r) 0 rows) M2 E"
    by (rule phase_new_array [OF mx w1(2)])
  have data: "last_block P dt op (\<lambda>r. be_data (?B r)) rows M' = last_block P dt op (\<lambda>r. he_array (H r) 0 mx) rows M'" for M'
    using team_rank(5) [OF team] by (simp add: last_block_def bench_the_env_def Let_def)
  from blocks(2) [OF _ _ w2(2)] mreach_trans [OF w1(1) mreach_trans [OF w2(1)]]
  show "\<exists>w' M'. mreach wire w w' \<and> mstage w' P (\<lambda>_. Exit 0) M' E \<and> last_block P dt op (\<lambda>r. he_array (H r) 0 mx) rows M'"
    unfolding data by blast
qed

section \<open>Properties\<close>

text \<open>
  C9: the benchmark runs to its end: \<open>P\<close> processes started with the same arguments apart from their ranks, on hosts whose devices,
  drivers and network work, over every fabric that keeps the reliable-connection contract and under every interleaving, open
  their devices, build the mesh, and run every block of the sweep (barrier, warm-up and measured rounds, statistics) without an error; all
  exit with 0, and the data ends as the reduction of the patterns of the last round. Sums of \<^verbatim>\<open>int32_t\<close> are left
  out: their patterns overflow.
\<close>

theorem bench_correct:
  assumes "rc_contract F \<alpha>" and "bench_team P H argv s hw d args B dt op rows mx (\<alpha> (wnet w))" and "wired wire P B"
    and "mprocs w = mranks P (\<lambda>r. bench_process (H r) (argv r) (q r) (s r))" and "wchan w = (\<lambda>_ _. [])"
  shows "always_ends (mexec F wire) w (\<lambda>f. (\<forall>r<P. mprocs f r = Exit 0) \<and>
    last_block P dt op (\<lambda>r. he_array (H r) 0 mx) rows (wmems f))"
proof (rule communicators_end [where k = "\<lambda>r. bench_body (H r) (args r) dt op", OF assms(1,4,5) _ assms(3) _ bench_starts(1) [OF assms(2)]])
  note rank = team_rank [OF assms(2)]
  show "idle (\<alpha> (wnet w) x)" "P < 2 ^ 16" for x using assms(2) by (simp_all add: bench_team_def)
  show "opens (H r) (d r) \<and> joins (H r) (int r) (int P) (ba_root_host (args r)) (ba_root_port (args r)) (s r) (B r)" if "r < P" for r
    using rank(7,9) [OF that] by simp
  show "qp_driver (he_qp (H r)) (hw r)" if "r < P" for r by (rule rank(8) [OF that])
qed ((simp; fail) | use bench_body_phases [OF assms(2,3)] in blast)+

text \<open>Two ranks that sweep a single size of eight bytes with both algorithms.\<close>

definition tiny_args :: "nat \<Rightarrow> bench_args" where
  "tiny_args r = (tiny_bench 8)\<lparr>ba_rank := int r\<rparr>"

definition tiny_world :: "(sim built, nat \<Rightarrow> endpoint) world" where
  "tiny_world = \<lparr>mprocs = mranks 2 (\<lambda>r. bench_process (sample_host (\<lambda>i len. i * len)) (bench_render (tiny_args r)) one_qp (sample_net 2)),
     wmems = (\<lambda>_ _. 0), wnet = sample_ep 2, wchan = (\<lambda>_ _. [])\<rparr>"

theorem bench_correct_witness:
  "always_ends (mexec rc_fabric sample_wire) tiny_world (\<lambda>f. mprocs f 0 = Exit 0 \<and> mprocs f 1 = Exit 0)"
proof -
  let ?H = "sample_host (\<lambda>i len. i * len)" and ?rows = "[tiny_row, tiny_row\<lparr>row_algo := ''recdouble''\<rparr>]"
  have sel: "ba_min_size (tiny_args r) = 8" "ba_max_size (tiny_args r) = 8" "ba_world_size (tiny_args r) = 2" "ba_rank (tiny_args r) = int r"
    "ba_algo (tiny_args r) = ''both''" "ba_dtype_str (tiny_args r) = ''float32''" "ba_op_str (tiny_args r) = ''sum''"
    "ba_root_host (tiny_args r) = ''h''" "ba_root_port (tiny_args r) = 20400" for r
    by (simp_all add: tiny_args_def tiny_bench_def bench_defaults_def)
  have "bench_sweep (tiny_args r) 4 8 = Some ?rows" for r
    by (simp add: bench_sweep.simps [of _ _ 8] bench_sweep.simps [of _ _ 16] sz_mul_def bench_size_def
        bench_algos_def choose_iters_def tiny_row_def sel)
  then have main: "bench_main (tiny_args r) = Inr (Float32, Sum_op, Some ?rows)" for r
    by (simp add: bench_main_def parse_dtype_def parse_op_def sel)
  have parse: "bench_parse_args (bench_render (tiny_args r)) = Inr (tiny_args r)" if "r < 2" for r
    using that by (intro bench_parse_render) (simp add: bench_valid_def sel int_range_def)
  obtain B where B: "wired sample_wire 2 B" "\<forall>r<2. joins ?H (int r) (int 2) ''h'' 20400 (sample_net 2) (B r)"
    using sample_hosts_join [of 2 "\<lambda>i len. i * len" "\<lambda>_. ''h''" "\<lambda>_. 20400"] by auto
  have team: "bench_team 2 (\<lambda>_. ?H) (\<lambda>r. bench_render (tiny_args r)) (\<lambda>_. sample_net 2) (\<lambda>_. sim_hw) (\<lambda>_. rxe_device) tiny_args B
      Float32 Sum_op ?rows 8 (id (wnet tiny_world))"
    using B(2) sample_opens sim.qp_driver_axioms
    by (auto simp: bench_team_def sel main parse Let_def tiny_world_def idle_def sample_ep_def disjoint_ranges_def
        intro!: sample_registers)
  show ?thesis
    by (rule always_ends_mono [OF bench_correct [where w = tiny_world and \<alpha> = id and q = "\<lambda>_. one_qp",
          OF rc_ref.rc_contract_axioms team B(1)]]) (simp_all add: tiny_world_def)
qed

end
