(* ===== verification/Mpi_Process.thy ===== *)
theory Mpi_Process
  imports Bench
begin

text \<open>
  The whole of \<^verbatim>\<open>main\<close> of \<^verbatim>\<open>bench/bench_mpi_allreduce.cc\<close> as the sequence of calls one rank makes. The MPI library is not part of the
  repository: what it tells the rank (its number, the number of ranks, the time) and what the machine provides are parameters, and
  what the rank asks of them is the result.
  MPI requires that all ranks make the same collective calls in the same order; that is the theorem.
\<close>

section \<open>The calls of a rank\<close>

text \<open>
  What a rank is given: its number and the number of ranks, the duration of each measured round, whether a vector of so many bytes can be
  allocated, and whether a file can be opened for writing.
\<close>

record mpi_host =
  mh_rank :: int
  mh_world_size :: int
  mh_time :: "nat \<Rightarrow> nat"
  mh_alloc :: "nat \<Rightarrow> bool"
  mh_open :: "string \<Rightarrow> bool"

text \<open>A row of the CSV file, numbers not yet formatted.\<close>

record mpi_row =
  mr_dtype :: string
  mr_op :: string
  mr_world_size :: int
  mr_row :: bench_row
  mr_stats :: "nat stats"

datatype mpi_call =
    MPI_Init
  | MPI_Comm_rank
  | MPI_Comm_size
  | MPI_Barrier
  | Memset byte nat
  | MPI_Wtime
  | MPI_Allreduce int mpi_datatype mpi_op
  | Open_Csv string
  | Report mpi_row bool
  | MPI_Finalize

text \<open>\<^verbatim>\<open>static_cast<int>\<close> of a \<^verbatim>\<open>size_t\<close> keeps the low 32 bits.\<close>

definition to_int :: "nat \<Rightarrow> int" where
  "to_int n = sint (word_of_nat n :: u32)"

definition mpi_round :: "int \<Rightarrow> nat \<Rightarrow> nat \<Rightarrow> mpi_datatype \<Rightarrow> mpi_op \<Rightarrow> int \<Rightarrow> mpi_call list" where
  "mpi_round rank elem_size count dt op it =
     [Memset (word_of_int (rank + it)) (sz_mul count elem_size), MPI_Wtime, MPI_Allreduce (to_int count) dt op, MPI_Wtime]"

definition mpi_rounds :: "int \<Rightarrow> nat \<Rightarrow> nat \<Rightarrow> mpi_datatype \<Rightarrow> mpi_op \<Rightarrow> int \<Rightarrow> mpi_call list" where
  "mpi_rounds rank elem_size count dt op iters =
     concat (map (\<lambda>it. mpi_round rank elem_size count dt op (int it)) [0..<nat (kWarmup + iters)])"

text \<open>
  One size of the sweep, after \<open>n\<close> measured rounds. Statistics and output are rank 0's; the flag of the report says whether the row also
  goes to the CSV file.
\<close>

definition mpi_block ::
    "mpi_host \<Rightarrow> mpi_args \<Rightarrow> nat \<Rightarrow> mpi_datatype \<Rightarrow> mpi_op \<Rightarrow> nat \<Rightarrow> bench_row \<Rightarrow> mpi_call list result" where
  "mpi_block h a elem_size dt op n row =
     (let calls = MPI_Barrier # mpi_rounds (mh_rank h) elem_size (row_count row) dt op (row_iters row);
          samples = map (mh_time h) [n..<n + measured_rounds kWarmup (row_iters row)] in
      if mh_rank h = 0
      then bind_res (compute_stats samples) (\<lambda>s.
        Inr (calls @ [Report \<lparr>mr_dtype = ma_dtype_str a, mr_op = ma_op_str a, mr_world_size = mh_world_size h, mr_row = row, mr_stats = s\<rparr>
          (ma_csv_out a \<noteq> '''' \<and> mh_open h (ma_csv_out a))]))
      else Inr calls)"

text \<open>
  The blocks in order; an exception ends them, and the calls made before it stay made.
\<close>

fun mpi_blocks ::
    "mpi_host \<Rightarrow> mpi_args \<Rightarrow> nat \<Rightarrow> mpi_datatype \<Rightarrow> mpi_op \<Rightarrow> nat \<Rightarrow> bench_row list \<Rightarrow> mpi_call list \<times> int" where
  "mpi_blocks h a elem_size dt op n [] = ([], 0)"
| "mpi_blocks h a elem_size dt op n (row # rows) =
     (case mpi_block h a elem_size dt op n row of
        Inl e \<Rightarrow> (MPI_Barrier # mpi_rounds (mh_rank h) elem_size (row_count row) dt op (row_iters row), 1)
      | Inr calls \<Rightarrow> (case mpi_blocks h a elem_size dt op (n + measured_rounds kWarmup (row_iters row)) rows of
          (rest, exit_code) \<Rightarrow> (calls @ rest, exit_code)))"

definition mpi_csv :: "mpi_host \<Rightarrow> mpi_args \<Rightarrow> mpi_call list" where
  "mpi_csv h a = (if mh_rank h = 0 \<and> ma_csv_out a \<noteq> '''' then [Open_Csv (ma_csv_out a)] else [])"

text \<open>\<^verbatim>\<open>main\<close>: the calls and the exit code; \<open>None\<close> when the sweep never ends.\<close>

definition mpi_process ::
    "mpi_host \<Rightarrow> string list \<Rightarrow> (mpi_call list \<times> int) option" where
  "mpi_process h argv =
     map_option (\<lambda>(calls, exit_code). ([MPI_Init, MPI_Comm_rank, MPI_Comm_size] @ calls @ [MPI_Finalize], exit_code))
       (case mpi_parse_args argv of
          Inl e \<Rightarrow> Some ([], 1)
        | Inr args \<Rightarrow> (case parse_mpi_dtype (ma_dtype_str args) of
            Inl e \<Rightarrow> Some ([], 1)
          | Inr (dt, elem_size) \<Rightarrow> (case parse_mpi_op (ma_op_str args) of
              Inl e \<Rightarrow> Some ([], 1)
            | Inr op \<Rightarrow>
                if 2 ^ 63 \<le> ma_max_size args \<or> \<not> mh_alloc h (ma_max_size args) then Some ([], 1)
                else map_option (\<lambda>rows. apfst ((@) (mpi_csv h args)) (mpi_blocks h args elem_size dt op 0 rows))
                       (mpi_sweep args elem_size (ma_min_size args)))))"

section \<open>Collective calls\<close>

fun collective :: "mpi_call \<Rightarrow> bool" where
  "collective MPI_Init = True"
| "collective MPI_Barrier = True"
| "collective (MPI_Allreduce n dt op) = True"
| "collective MPI_Finalize = True"
| "collective _ = False"

text \<open>The collective calls of a block.\<close>

definition block_collectives :: "mpi_datatype \<Rightarrow> mpi_op \<Rightarrow> bench_row \<Rightarrow> mpi_call list" where
  "block_collectives dt op row =
     MPI_Barrier # replicate (nat (kWarmup + row_iters row)) (MPI_Allreduce (to_int (row_count row)) dt op)"

lemma rounds_collectives:
  "filter collective (mpi_rounds rank e count dt op iters) = replicate (nat (kWarmup + iters)) (MPI_Allreduce (to_int count) dt op)"
proof -
  have "filter collective (concat (map (\<lambda>it. mpi_round rank e count dt op (int it)) xs)) =
      replicate (length xs) (MPI_Allreduce (to_int count) dt op)" for xs
    by (induction xs) (simp_all add: mpi_round_def)
  then show ?thesis by (simp add: mpi_rounds_def)
qed

lemma rounds_calls:
  "MPI_Init \<notin> set (mpi_rounds rank e count dt op iters)" "MPI_Finalize \<notin> set (mpi_rounds rank e count dt op iters)"
  "MPI_Allreduce n d p \<in> set (mpi_rounds rank e count dt op iters) \<Longrightarrow> n = to_int count"
  by (auto simp: mpi_rounds_def mpi_round_def)

text \<open>
  What one rank does for a list of rows: no exception, the collective calls of the rows in order, and nothing that ends the session.
\<close>

lemma mpi_blocks_ok:
  assumes "\<forall>row\<in>set rows. row_iters row \<in> {5, 20, 50, 200}"
  shows "\<exists>calls. mpi_blocks h a e dt op n rows = (calls, 0) \<and>
    filter collective calls = concat (map (block_collectives dt op) rows) \<and> MPI_Init \<notin> set calls \<and> MPI_Finalize \<notin> set calls \<and>
    (\<forall>m d p. MPI_Allreduce m d p \<in> set calls \<longrightarrow> (\<exists>row\<in>set rows. m = to_int (row_count row)))"
  using assms
proof (induction rows arbitrary: n)
  case (Cons row rows)
  let ?n = "n + measured_rounds kWarmup (row_iters row)"
  let ?calls = "MPI_Barrier # mpi_rounds (mh_rank h) e (row_count row) dt op (row_iters row)"
  obtain rest where rest: "mpi_blocks h a e dt op ?n rows = (rest, 0)"
    "filter collective rest = concat (map (block_collectives dt op) rows)" "MPI_Init \<notin> set rest" "MPI_Finalize \<notin> set rest"
    "\<forall>m d p. MPI_Allreduce m d p \<in> set rest \<longrightarrow> (\<exists>row\<in>set rows. m = to_int (row_count row))"
    using Cons.IH [of ?n] Cons.prems by auto
  obtain st where "compute_stats (map (mh_time h) [n..<?n]) = Inr st"
    using sweep_stats [of "row_iters row" "mh_time h" n] Cons.prems by auto
  then obtain ex where block: "mpi_block h a e dt op n row = Inr (?calls @ ex)" "set ex \<subseteq> range (\<lambda>(x, y). Report x y)"
    by (cases "mh_rank h = 0") (auto simp: mpi_block_def Let_def)
  then have "filter collective ex = []" "MPI_Init \<notin> set ex" "MPI_Finalize \<notin> set ex" "\<forall>m d p. MPI_Allreduce m d p \<notin> set ex"
    by (auto simp: filter_empty_conv)
  moreover have "filter collective ?calls = block_collectives dt op row"
    by (simp add: rounds_collectives block_collectives_def)
  ultimately show ?case
    using rest block(1) by (auto simp: rounds_calls(1,2) dest: rounds_calls(3)) blast
qed simp

lemma mpi_rows:
  assumes "mpi_sweep a e (ma_min_size a) = Some rows" "ma_max_size a < 2 ^ 63" "row \<in> set rows"
  shows "row_iters row \<in> {5, 20, 50, 200}" "0 < row_count row" "row_count row * e \<le> ma_max_size a"
proof -
  have "rows = concat (map (mpi_size e) (doubled_sizes (ma_min_size a) (ma_max_size a)))"
    using mpi.sweep_doubles [OF assms(2), of e "ma_min_size a"] assms(1) by (simp split: if_splits)
  then obtain s where s: "s \<le> ma_max_size a" "row \<in> set (mpi_size e s)" using assms(3) by (auto simp: doubled_sizes_def)
  have "s div e * e \<le> ma_max_size a" using s(1) by (metis le_trans div_times_less_eq_dividend)
  then show "row_iters row \<in> {5, 20, 50, 200}" "0 < row_count row" "row_count row * e \<le> ma_max_size a"
    using s by (auto simp: mpi_size_def Let_def mpi_choose_iters_def split: if_splits)
qed

lemma to_int_small: "n < 2 ^ 31 \<Longrightarrow> to_int n = int n"
proof -
  assume "n < 2 ^ 31"
  then have "sint (word_of_int (int n) :: u32) = int n" by (intro sint_dst) simp_all
  then show ?thesis by (simp add: to_int_def)
qed

section \<open>Properties\<close>

text \<open>
  C29: whenever \<^verbatim>\<open>bench_mpi_allreduce\<close> ends, with whatever arguments, its rank has initialised MPI first and finalised it last, each once,
  exceptions included; every other rank started with the same arguments ends with the same exit code and has made the same collective
  calls in the same order, whatever its number, its clock and its files, as long as memory suffices on both or on neither; and as long as the sizes stay below 8 GiB every count it passes is positive.
\<close>

theorem mpi_calls_match:
  assumes "mpi_process h argv = Some (calls, exit_code)"
  shows "(\<exists>body. calls = MPI_Init # body @ [MPI_Finalize] \<and> MPI_Init \<notin> set body \<and> MPI_Finalize \<notin> set body) \<and>
    (\<forall>h'. mh_alloc h' = mh_alloc h \<longrightarrow> (\<exists>calls'. mpi_process h' argv = Some (calls', exit_code) \<and>
       filter collective calls' = filter collective calls)) \<and>
    (\<forall>a n dt op. mpi_parse_args argv = Inr a \<longrightarrow> ma_max_size a < 2 ^ 33 \<longrightarrow> MPI_Allreduce n dt op \<in> set calls \<longrightarrow> 0 < n)"
proof -
  define wrap where "wrap calls = [MPI_Init, MPI_Comm_rank, MPI_Comm_size] @ calls @ [MPI_Finalize]" for calls
  show ?thesis
  proof (cases "\<exists>a dt e op rows. mpi_parse_args argv = Inr a \<and> parse_mpi_dtype (ma_dtype_str a) = Inr (dt, e) \<and>
      parse_mpi_op (ma_op_str a) = Inr op \<and> ma_max_size a < 2 ^ 63 \<and> mh_alloc h (ma_max_size a) \<and> mpi_sweep a e (ma_min_size a) = Some rows")
    case True
    then obtain a dt e op rows where ok: "mpi_parse_args argv = Inr a" "parse_mpi_dtype (ma_dtype_str a) = Inr (dt, e)"
      "parse_mpi_op (ma_op_str a) = Inr op" "ma_max_size a < 2 ^ 63" "mpi_sweep a e (ma_min_size a) = Some rows"
      "mh_alloc h (ma_max_size a)" by blast
    note row = mpi_rows [OF ok(5,4)]
    have e: "e = 4" using ok(2) by (auto simp: parse_mpi_dtype_def split: if_splits)
    define Q where "Q body \<longleftrightarrow> filter collective body = concat (map (block_collectives dt op) rows) \<and> MPI_Init \<notin> set body \<and>
      MPI_Finalize \<notin> set body \<and> (\<forall>m d p. MPI_Allreduce m d p \<in> set body \<longrightarrow> (\<exists>row\<in>set rows. m = to_int (row_count row)))" for body
    have run: "\<exists>body. mpi_process h' argv = Some (wrap body, 0) \<and> Q body" if "mh_alloc h' = mh_alloc h" for h'
      using mpi_blocks_ok [of rows h' a e dt op 0] row(1) ok
      that
      by (auto simp: mpi_process_def wrap_def Q_def mpi_csv_def not_le)
    obtain body where body: "calls = wrap body" "exit_code = 0" "Q body" using run [of h] assms by auto
    have "0 < n" if mx: "ma_max_size a < 2 ^ 33" and call: "MPI_Allreduce n d p \<in> set calls" for n d p
    proof -
      obtain w where w: "w \<in> set rows" "n = to_int (row_count w)" using call body by (auto simp: wrap_def Q_def)
      with row(2,3) [OF w(1)] mx show ?thesis by (simp add: to_int_small e)
    qed
    moreover have "\<exists>calls'. mpi_process h' argv = Some (calls', exit_code) \<and> filter collective calls' = filter collective calls" if "mh_alloc h' = mh_alloc h" for h'
      using run [OF that] body by (auto simp: wrap_def Q_def)
    moreover have "calls = MPI_Init # ([MPI_Comm_rank, MPI_Comm_size] @ body) @ [MPI_Finalize]" using body(1) by (simp add: wrap_def)
    ultimately show ?thesis using ok(1) body(3) unfolding Q_def
      by (intro conjI exI [of _ "[MPI_Comm_rank, MPI_Comm_size] @ body"]) auto
  next
    case False
    then have const: "mpi_process h' argv = mpi_process h argv \<and>
        (mpi_process h' argv = None \<or> mpi_process h' argv = Some (wrap [], 1))" if "mh_alloc h' = mh_alloc h" for h'
      using that by (auto simp: mpi_process_def wrap_def not_le split: sum.splits option.splits)
    then have "calls = MPI_Init # [MPI_Comm_rank, MPI_Comm_size] @ [MPI_Finalize]" using assms const [of h] by (auto simp: wrap_def)
    moreover have "\<forall>h'. mh_alloc h' = mh_alloc h \<longrightarrow> (\<exists>calls'. mpi_process h' argv = Some (calls', exit_code) \<and>
        filter collective calls' = filter collective calls)"
      using const assms by simp
    ultimately show ?thesis by (intro conjI exI [of _ "[MPI_Comm_rank, MPI_Comm_size]"]) simp_all
  qed
qed

definition sample_mpi_host :: "int \<Rightarrow> mpi_host" where
  "sample_mpi_host r = \<lparr>mh_rank = r, mh_world_size = 4, mh_time = (\<lambda>k. k + nat r), mh_alloc = (\<lambda>_. True), mh_open = (\<lambda>_. True)\<rparr>"

text \<open>Rank 0 and rank 3 of a run over a single size.\<close>

theorem mpi_calls_match_witness:
  "\<exists>calls. mpi_process (sample_mpi_host 3) [''--max-size'', ''8''] = Some (calls, 0) \<and>
     filter collective calls = MPI_Init # MPI_Barrier # replicate 205 (MPI_Allreduce 2 MPI_FLOAT MPI_SUM) @ [MPI_Finalize]"
proof -
  let ?argv = "[''--max-size'', ''8'']" and ?a = "mpi_defaults\<lparr>ma_max_size := 8\<rparr>"
  have "dec 8 = ''8''" by (simp add: dec.simps digit_def char_of_def bit_0)
  then have parse: "mpi_parse_args ?argv = Inr ?a"
    using set_ok(2) [of 8 "\<lambda>x. ma_max_size_update (\<lambda>_. x)" mpi_defaults] by (simp add: mpi_parse_args_def mpi_flags_def)
  have sel: "ma_dtype_str ?a = ''float32''" "ma_op_str ?a = ''sum''" "ma_min_size ?a = 8" "ma_max_size ?a = 8"
    by (simp_all add: mpi_defaults_def)
  let ?row = "\<lparr>row_algo = ''openmpi'', row_size_bytes = 8, row_count = 2, row_iters = 200\<rparr>"
  have sweep: "mpi_sweep ?a 4 8 = Some [?row]"
    by (simp add: mpi_sweep.simps [of _ _ 8] mpi_sweep.simps [of _ _ 16] sz_mul_def mpi_size_def mpi_choose_iters_def)
  obtain body where body: "mpi_blocks (sample_mpi_host 0) ?a 4 MPI_FLOAT MPI_SUM 0 [?row] = (body, 0)"
    "filter collective body = concat (map (block_collectives MPI_FLOAT MPI_SUM) [?row])"
    using mpi_blocks_ok [of "[?row]" "sample_mpi_host 0" ?a 4 MPI_FLOAT MPI_SUM 0] by (auto simp del: mpi_blocks.simps)
  have "mpi_process (sample_mpi_host 0) ?argv = Some ([MPI_Init, MPI_Comm_rank, MPI_Comm_size] @ body @ [MPI_Finalize], 0)"
    unfolding mpi_process_def parse sum.case sel parse_mpi_dtype_def parse_mpi_op_def using sweep body(1)
    by (simp add: sample_mpi_host_def mpi_csv_def mpi_defaults_def del: mpi_blocks.simps)
  from mpi_calls_match [OF this, THEN conjunct2, THEN conjunct1, rule_format, of "sample_mpi_host 3"] body(2) show ?thesis
    by (simp add: block_collectives_def kWarmup_def to_int_small sample_mpi_host_def)
qed

end
