(* ===== verification/Integration.thy ===== *)
theory Integration
  imports Startup Allreduce_Call Allgather
begin

text \<open>
  The integration tests of the repository, \<^verbatim>\<open>test/integration_allreduce_4rank.cc\<close> and \<^verbatim>\<open>test/integration_mismatched_scratch.cc\<close>, as
  processes: \<^verbatim>\<open>main\<close> forks one process per rank, every process opens its own device, builds a communicator and runs the collectives, and
  \<^verbatim>\<open>main\<close> adds up the exit codes. Both tests pass under every interleaving.
\<close>

section \<open>integration_allreduce_4rank\<close>

definition kWorldSize :: int where
  "kWorldSize = 4"

definition kCount :: nat where
  "kCount = 4001"

definition kBasePort :: u16 where
  "kBasePort = 20310"

text \<open>An array of 32-bit values written element by element.\<close>

definition write_array :: "(nat \<Rightarrow> int) \<Rightarrow> nat \<Rightarrow> nat \<Rightarrow> mem \<Rightarrow> mem" where
  "write_array f a n m = foldl (\<lambda>m i. store32 m (a + 4 * i) (word_of_int (f i))) m [0..<n]"

definition fill_value :: "int \<Rightarrow> nat \<Rightarrow> int" where
  "fill_value rank i = (rank + 1) * 3 - int (i mod 11)"

definition fill :: "int \<Rightarrow> nat \<Rightarrow> nat \<Rightarrow> mem \<Rightarrow> mem" where
  "fill rank = write_array (fill_value rank)"

definition expected_sum_at :: "nat \<Rightarrow> u32" where
  "expected_sum_at i = word_of_int (foldl (\<lambda>total r. total + ((r + 1) * 3 - int (i mod 11))) 0 [0..kWorldSize - 1])"

definition check :: "nat \<Rightarrow> nat \<Rightarrow> mem \<Rightarrow> bool" where
  "check a n m = list_all (\<lambda>i. load32 m (a + 4 * i) = expected_sum_at i) [0..<n]"

text \<open>
  A collective on \<open>data\<close> between a fill, a barrier and a check.
\<close>

definition try_allreduce ::
    "(allreduce_args \<Rightarrow> rprog \<Rightarrow> rprog) \<Rightarrow> int \<Rightarrow> 'q comm_object \<Rightarrow> MemoryRegion \<Rightarrow> nat \<Rightarrow> MemoryRegion \<Rightarrow> nat \<Rightarrow> nat \<Rightarrow>
      'q built mprog \<Rightarrow> 'q built mprog" where
  "try_allreduce allreduce rank comm data_mr data scratch_mr scratch capacity k =
     Rdma (Compute (\<lambda>m. Inr (fill rank data kCount m)) Return)
     (comm_barrier comm
     (Rdma (allreduce \<lparr>ar_comm = c_comm comm, ar_data_mr = data_mr, ar_data = data, ar_count = kCount, ar_dtype = Int32, ar_op = Sum_op,
              ar_scratch_mr = scratch_mr, ar_scratch = scratch, ar_scratch_capacity = capacity\<rparr> Return)
     (Inspect (\<lambda>m. if check data kCount m then k else Exit 1))))"

text \<open>The allgather part: 64 elements per rank.\<close>

definition send_count :: nat where
  "send_count = 64"

definition check_gather :: "nat \<Rightarrow> mem \<Rightarrow> bool" where
  "check_gather a m = list_all (\<lambda>r. list_all (\<lambda>i. load32 m (a + 4 * (r * send_count + i)) = word_of_int (int r * 1000 + int i))
     [0..<send_count]) [0..<nat kWorldSize]"

definition try_allgather :: "('q, 'o) host_env \<Rightarrow> int \<Rightarrow> 'q comm_object \<Rightarrow> 'q built mprog" where
  "try_allgather H rank comm =
     (let bytes = 4 * (send_count * nat kWorldSize) in
      new_array H 3 bytes (\<lambda>gather_buf.
      register H 3 (c_pd comm) gather_buf bytes (\<lambda>gather_mr.
      Rdma (Compute (\<lambda>m. Inr (write_array (\<lambda>i. rank * 1000 + int i) (gather_buf + 4 * (nat rank * send_count)) send_count m)) Return)
      (comm_barrier comm
      (Rdma (allgather \<lparr>ag_comm = c_comm comm, ag_mr = gather_mr, ag_buf = gather_buf, ag_send_count = send_count, ag_dtype = Int32\<rparr> Return)
      (Inspect (\<lambda>m. if check_gather gather_buf m then Exit 0 else Exit 1)))))))"

definition run_collectives :: "('q, 'o) host_env \<Rightarrow> int \<Rightarrow> 'q comm_object \<Rightarrow> 'q built mprog" where
  "run_collectives H rank comm =
     (let max_chunk = (kCount + nat kWorldSize - 1) div nat kWorldSize in
      new_array H 0 (4 * kCount) (\<lambda>data.
      new_array H 1 (4 * max_chunk) (\<lambda>scratch.
      register H 0 (c_pd comm) data (4 * kCount) (\<lambda>data_mr.
      register H 1 (c_pd comm) scratch (4 * max_chunk) (\<lambda>scratch_mr.
      try_allreduce allreduce_ring rank comm data_mr data scratch_mr scratch max_chunk
      (new_array H 2 (4 * kCount) (\<lambda>rd_scratch.
      register H 2 (c_pd comm) rd_scratch (4 * kCount) (\<lambda>rd_scratch_mr.
      try_allreduce allreduce_recursive_doubling rank comm data_mr data rd_scratch_mr rd_scratch kCount
      (try_allgather H rank comm)))))))))"

definition run_rank :: "('q, 'o) host_env \<Rightarrow> int \<Rightarrow> 'q \<Rightarrow> 'o \<Rightarrow> 'q built mprog" where
  "run_rank H rank q s =
     mtry_loop (device_ctor (he_verbs H) []) (\<lambda>device.
     communicator_ctor H device rank kWorldSize ''127.0.0.1'' kBasePort q s (run_collectives H rank))"

text \<open>
  The exit code of an ended process, given what the \<^verbatim>\<open>catch\<close> clause of its \<^verbatim>\<open>run_rank\<close> returns, and the result of
  \<^verbatim>\<open>main\<close>, which waits for all of them.
\<close>

fun exit_code :: "int \<Rightarrow> 't mprog \<Rightarrow> int option" where
  "exit_code caught (Exit c) = Some c"
| "exit_code caught (Fail e) = Some caught"
| "exit_code caught _ = None"

definition wait_all :: "int \<Rightarrow> nat \<Rightarrow> (nat \<Rightarrow> 't mprog) \<Rightarrow> int option" where
  "wait_all caught P m = fold (\<lambda>r overall. Option.bind overall (\<lambda>x. map_option (\<lambda>c. if c \<noteq> 0 then 1 else x) (exit_code caught (m r))))
     [0..<P] (Some 0)"

section \<open>Arrays\<close>

lemma write_array_Suc: "write_array f a (Suc n) m = store32 (write_array f a n m) (a + 4 * n) (word_of_int (f n))"
  by (simp add: write_array_def)

lemma write_array_load: "i < n \<Longrightarrow> load32 (write_array f a n m) (a + 4 * i) = word_of_int (f i)"
  by (induction n) (auto simp: write_array_Suc less_Suc_eq mem_simps)

lemma fill_load: "i < n \<Longrightarrow> load32 (fill rank a n m) (a + 4 * i) = word_of_int (fill_value rank i)"
  by (simp add: fill_def write_array_load)

lemma fill_sint:
  assumes "q < 4"
  shows "sint (word_of_int (fill_value (int q) i) :: u32) = fill_value (int q) i" and "\<bar>fill_value (int q) i\<bar> \<le> 12"
proof -
  obtain j where "i mod 11 = j" "j < 11" by simp
  then show b: "\<bar>fill_value (int q) i\<bar> \<le> 12" using assms by (auto simp: fill_value_def)
  then show "sint (word_of_int (fill_value (int q) i) :: u32) = fill_value (int q) i" by (intro sint_dst) simp_all
qed

lemma expected_sint: "sint (expected_sum_at i) = (\<Sum>q<4. fill_value (int q) i)"
proof -
  obtain j where j: "i mod 11 = j" "j < 11" by simp
  then have "sint (word_of_int (30 - 4 * int j) :: u32) = 30 - 4 * int j" by (intro sint_dst) simp_all
  moreover have "[0..kWorldSize - 1] = [0, 1, 2, 3]" by (simp add: kWorldSize_def upto.simps)
  ultimately show ?thesis unfolding expected_sum_at_def fill_value_def j(1) by (simp add: numeral_eq_Suc algebra_simps)
qed

lemma fills_defined: "int_defined Sum_op {..<4} (\<lambda>q. fill_value (int q) i)"
proof -
  have "(\<Sum>q<4. \<bar>fill_value (int q) i\<bar>) \<le> (\<Sum>q<4::nat. 12)"
    by (intro sum_mono) (use fill_sint(2) in auto)
  then show ?thesis by (simp add: int_defined_def)
qed

section \<open>One collective of the test\<close>

text \<open>
  All ranks prepare their buffers, meet at a barrier, run a collective that leaves every rank with memory that passes its test, and test it.
\<close>

lemma tested_phase:
  assumes wired: "wired wire P B" "\<And>r. r < P \<Longrightarrow> c_bootstrap (c r) = B r"
    and w: "mstage w P (\<lambda>r. Rdma (Compute (\<lambda>m. Inr (f r m)) Return)
      (comm_barrier (c r) (Rdma (p r) (Inspect (\<lambda>m. if ok r m then k r else Exit 1))))) M E"
    and one: "\<And>u. stage u (ranks P p) (\<lambda>r. if r < P then f r (M r) else M r) E \<Longrightarrow>
      \<exists>as u' M'. run (exec rc_fabric) as u = Some u' \<and> stage u' (ranks P (\<lambda>_. Return)) M' E \<and> (\<forall>r<P. ok r (M' r))"
  shows "\<exists>w' M'. mreach wire w w' \<and> mstage w' P k M' E"
proof -
  let ?M = "\<lambda>r. if r < P then f r (M r) else M r"
  let ?test = "\<lambda>r. Inspect (\<lambda>m. if ok r m then k r else Exit 1)"
  obtain w1 where w1: "mreach wire w w1" "mstage w1 P (\<lambda>r. comm_barrier (c r) (Rdma (p r) (?test r))) ?M E"
    using phase_compute [where f = "\<lambda>r m. Inr (f r m)" and M' = ?M, OF _ _ w] by auto
  obtain w2 where w2: "mreach wire w1 w2" "mstage w2 P (\<lambda>r. Rdma (p r) (?test r)) ?M E"
    using phase_barrier [OF wired w1(2)] by blast
  obtain w3 M3 where w3: "mreach wire w2 w3" "mstage w3 P ?test M3 E" "\<forall>r<P. ok r (M3 r)"
    using phase_rdma [where Q = "\<lambda>M. \<forall>r<P. ok r (M r)", OF w2(2) one] by blast
  obtain w4 where w4: "mreach wire w3 w4" "mstage w4 P (\<lambda>r. if ok r (M3 r) then k r else Exit 1) M3 E"
    using phase_inspect [OF w3(2)] by blast
  have "mstage w4 P k M3 E" by (rule mstage_cong [OF w4(2)]) (use w3(3) in simp)
  moreover have "mreach wire w w4" using w1(1) w2(1) w3(1) w4(1) by (blast intro: mreach_trans)
  ultimately show ?thesis by blast
qed

context int32_allreduce
begin

text \<open>
  A collective of all four ranks between fill and check, for either algorithm: every rank passes its check.
\<close>

lemma try_phase:
  assumes ready: "ready 4 kCount Int32 Sum_op A E" and idle: "\<And>x. idle (E x)"
    and args: "\<And>r. r < 4 \<Longrightarrow> A r = \<lparr>ar_comm = c_comm (c r), ar_data_mr = data_mr r, ar_data = data r, ar_count = kCount,
      ar_dtype = Int32, ar_op = Sum_op, ar_scratch_mr = scratch_mr r, ar_scratch = scratch r, ar_scratch_capacity = cap r\<rparr>"
    and wired: "wired wire 4 B" "\<And>r. r < 4 \<Longrightarrow> c_bootstrap (c r) = B r"
    and w: "mstage w 4 (\<lambda>r. try_allreduce call (int r) (c r) (data_mr r) (data r) (scratch_mr r) (scratch r) (cap r) (k r)) M E"
  shows "\<exists>w' M'. mreach wire w w' \<and> mstage w' 4 k M' E"
proof (rule tested_phase [OF wired, where ok = "\<lambda>r. check (data r) kCount" and p = "\<lambda>r. call (A r) Return"])
  show "mstage w 4 (\<lambda>r. Rdma (Compute (\<lambda>m. Inr (fill (int r) (data r) kCount m)) Return)
      (comm_barrier (c r) (Rdma (call (A r) Return) (Inspect (\<lambda>m. if check (data r) kCount m then k r else Exit 1))))) M E"
    by (rule mstage_cong [OF w]) (simp add: try_allreduce_def args)
  let ?M = "\<lambda>r. if r < 4 then fill (int r) (data r) kCount (M r) else M r"
  have int: "sint (elem A ?M q i) = fill_value (int q) i" if "q < 4" "i < kCount" for q i
    using that by (simp add: elem_def args fill_load fill_sint)
  have defined: "int_defined Sum_op {..<4} (\<lambda>q. sint (elem A ?M q i))" if "i < kCount" for i
    using fills_defined [of i] that by (simp add: int_defined_def int)
  have test: "check (data r) kCount m" if "r < 4"
    and "\<forall>i<kCount. sint (load32 m (data r + 4 * i)) = int_reduce Sum_op {..<4} (\<lambda>q. sint (elem A ?M q i))" for r m
    unfolding check_def list_all_iff using that by (auto intro!: signed_word_eqI [where ?'a = int] simp: expected_sint int int_reduce_def)
  fix u assume "stage u (ranks 4 (\<lambda>r. call (A r) Return)) ?M E"
  from int_stage [OF ready idle defined this]
  show "\<exists>as u' M'. run (exec rc_fabric) as u = Some u' \<and> stage u' (ranks 4 (\<lambda>_. Return)) M' E \<and> (\<forall>r<4. check (data r) kCount (M' r))"
    using test by (auto simp: elem_def args) blast
qed

lemma try_disc:
  assumes "ready 4 kCount Int32 Sum_op A E" "r < 4"
    and "A r = \<lparr>ar_comm = c_comm c, ar_data_mr = data_mr, ar_data = data, ar_count = kCount,
      ar_dtype = Int32, ar_op = Sum_op, ar_scratch_mr = scratch_mr, ar_scratch = scratch, ar_scratch_capacity = cap\<rparr>"
    and "mdisc k"
  shows "mdisc (try_allreduce call rank c data_mr data scratch_mr scratch cap k)"
  using assms(4) call_disc [OF assms(1,2), of Return] unfolding try_allreduce_def assms(3) [symmetric]
  by (simp add: mdisc_barrier)

end

lemma gather_phase:
  assumes ready: "allgather_ready 4 send_count G E" and idle: "\<And>x. idle (E x)"
    and args: "\<And>r. r < 4 \<Longrightarrow> G r = \<lparr>ag_comm = c_comm (c r), ag_mr = mr r, ag_buf = buf r, ag_send_count = send_count, ag_dtype = Int32\<rparr>"
    and wired: "wired wire 4 B" "\<And>r. r < 4 \<Longrightarrow> c_bootstrap (c r) = B r"
    and w: "mstage w 4 (\<lambda>r. Rdma (Compute (\<lambda>m. Inr (write_array (\<lambda>i. int r * 1000 + int i) (buf r + 4 * (r * send_count)) send_count m)) Return)
      (comm_barrier (c r) (Rdma (allgather (G r) Return) (Inspect (\<lambda>m. if check_gather (buf r) m then Exit 0 else Exit 1))))) M E"
  shows "\<exists>w' M'. mreach wire w w' \<and> mstage w' 4 (\<lambda>_. Exit 0) M' E"
proof (rule tested_phase [OF wired w])
  let ?M = "\<lambda>r. if r < 4 then write_array (\<lambda>i. int r * 1000 + int i) (buf r + 4 * (r * send_count)) send_count (M r) else M r"
  have val: "ag_elem G ?M q (q * send_count + i) = word_of_int (int q * 1000 + int i)" if "q < 4" "i < send_count" for q i
    using write_array_load [OF that(2), of "\<lambda>i. int q * 1000 + int i" "buf q + 4 * (q * send_count)" "M q"] that
    by (simp add: ag_elem_def args algebra_simps)
  fix u assume u: "stage u (ranks 4 (\<lambda>r. allgather (G r) Return)) ?M E"
  obtain as u' M' where "run (exec rc_fabric) as u = Some u'" "stage u' (ranks 4 (\<lambda>_. Return)) M' E"
    and got: "\<forall>r<4. (\<forall>q<4. \<forall>j < send_count. ag_elem G M' r (q * send_count + j) = ag_elem G ?M q (q * send_count + j)) \<and>
       outside_buf (4 * send_count) (ag_gbuf (G r)) (?M r) (M' r)"
    using allgather_stage [OF ready idle u] by blast
  moreover have "check_gather (buf r) (M' r)" if "r < 4" for r
    using got that val by (simp add: check_gather_def list_all_iff kWorldSize_def ag_elem_def args)
  ultimately show "\<exists>as u' M'. run (exec rc_fabric) as u = Some u' \<and> stage u' (ranks 4 (\<lambda>_. Return)) M' E \<and>
      (\<forall>r<4. check_gather (buf r) (M' r))" by blast
qed

section \<open>All ranks of the test\<close>

text \<open>The sizes in bytes of the four arrays: data, scratch, scratch of recursive doubling, gather buffer.\<close>

definition test_len :: "nat \<Rightarrow> nat" where
  "test_len i = (if i = 1 then 4004 else if i = 3 then 1024 else 16004)"

text \<open>
  Four hosts that work: devices open, the bootstrap joins them, the driver keeps the queue pair state machine, memory registers, and
  the arrays used together do not overlap.
\<close>

definition four_hosts ::
    "(nat \<Rightarrow> ('q, 'o) host_env) \<Rightarrow> (nat \<Rightarrow> 'o) \<Rightarrow> (nat \<Rightarrow> 'q \<Rightarrow> ptr \<rightharpoonup> qp_hw) \<Rightarrow> (nat \<Rightarrow> Device) \<Rightarrow> (nat \<Rightarrow> TcpBootstrap) \<Rightarrow>
      (nat \<Rightarrow> endpoint) \<Rightarrow> bool" where
  "four_hosts H s hw d B E \<longleftrightarrow> (\<forall>x. idle (E x)) \<and>
     (\<forall>r<4. opens (H r) (d r) \<and> qp_driver (he_qp (H r)) (hw r) \<and>
        joins (H r) (int r) 4 ''127.0.0.1'' kBasePort (s r) (B r) \<and>
        (\<forall>i<4. registers (H r) (E r) i (the_pd (H r) (d r)) (he_array (H r) i (test_len i)) (test_len i)) \<and>
        disjoint_ranges (he_array (H r) 0 16004) 16004 (he_array (H r) 1 4004) 4004 \<and>
        disjoint_ranges (he_array (H r) 0 16004) 16004 (he_array (H r) 2 16004) 16004)"

lemma four_rank:
  assumes "four_hosts H s hw d B E" "r < 4"
  shows "opens (H r) (d r)" "qp_driver (he_qp (H r)) (hw r)" "joins (H r) (int r) 4 ''127.0.0.1'' kBasePort (s r) (B r)"
    "registers (H r) (E r) 0 (the_pd (H r) (d r)) (he_array (H r) 0 16004) 16004"
    "registers (H r) (E r) 1 (the_pd (H r) (d r)) (he_array (H r) 1 4004) 4004"
    "registers (H r) (E r) 2 (the_pd (H r) (d r)) (he_array (H r) 2 16004) 16004"
    "registers (H r) (E r) 3 (the_pd (H r) (d r)) (he_array (H r) 3 1024) 1024"
    "disjoint_ranges (he_array (H r) 0 16004) 16004 (he_array (H r) 1 4004) 4004"
    "disjoint_ranges (he_array (H r) 0 16004) 16004 (he_array (H r) 2 16004) 16004"
proof -
  have reg: "registers (H r) (E r) i (the_pd (H r) (d r)) (he_array (H r) i (test_len i)) (test_len i)" if "i < 4" for i
    using assms that by (simp add: four_hosts_def)
  from reg [of 0] reg [of 1] reg [of 2] reg [of 3]
  show "registers (H r) (E r) 0 (the_pd (H r) (d r)) (he_array (H r) 0 16004) 16004"
    "registers (H r) (E r) 1 (the_pd (H r) (d r)) (he_array (H r) 1 4004) 4004"
    "registers (H r) (E r) 2 (the_pd (H r) (d r)) (he_array (H r) 2 16004) 16004"
    "registers (H r) (E r) 3 (the_pd (H r) (d r)) (he_array (H r) 3 1024) 1024"
    by (simp_all add: test_len_def)
qed (use assms in \<open>simp_all add: four_hosts_def\<close>)

text \<open>The arguments of the three collectives.\<close>

definition test_args :: "('q, 'o) host_env \<Rightarrow> Device \<Rightarrow> nat \<Rightarrow> nat \<Rightarrow> communicator \<Rightarrow> allreduce_args" where
  "test_args H d i len comm =
     \<lparr>ar_comm = comm, ar_data_mr = the_mr H 0 (the_pd H d) (he_array H 0 16004) 16004, ar_data = he_array H 0 16004, ar_count = kCount,
      ar_dtype = Int32, ar_op = Sum_op, ar_scratch_mr = the_mr H i (the_pd H d) (he_array H i len) len, ar_scratch = he_array H i len,
      ar_scratch_capacity = len div 4\<rparr>"

definition gather_test_args :: "('q, 'o) host_env \<Rightarrow> Device \<Rightarrow> communicator \<Rightarrow> allgather_args" where
  "gather_test_args H d comm =
     \<lparr>ag_comm = comm, ag_mr = the_mr H 3 (the_pd H d) (he_array H 3 1024) 1024, ag_buf = he_array H 3 1024,
      ag_send_count = send_count, ag_dtype = Int32\<rparr>"

lemma tests_ready:
  assumes hosts: "four_hosts H s hw d B E" and conn: "\<And>r. r < 4 \<Longrightarrow> connected 4 r (comm r)"
  shows "ring_ready 4 kCount Int32 Sum_op (\<lambda>r. test_args (H r) (d r) 1 4004 (comm r)) E"
    and "rd_ready 4 kCount Int32 Sum_op (\<lambda>r. test_args (H r) (d r) 2 16004 (comm r)) E"
    and "allgather_ready 4 send_count (\<lambda>r. gather_test_args (H r) (d r) (comm r)) E"
proof -
  note rank = four_rank [OF hosts]
  have "chunk_len kCount 4 0 \<le> 1001" by (simp add: chunk_len_def kCount_def)
  then show "ring_ready 4 kCount Int32 Sum_op (\<lambda>r. test_args (H r) (d r) 1 4004 (comm r)) E"
    using conn rank(4,5,8)
    by (simp add: ring_ready_def allreduce_ready_def buffers_ok_def test_args_def kCount_def registers_def)
  show "rd_ready 4 kCount Int32 Sum_op (\<lambda>r. test_args (H r) (d r) 2 16004 (comm r)) E"
    using conn rank(4,6,9) is_power_of_two_pow [of 2]
    by (simp add: rd_ready_def allreduce_ready_def buffers_ok_def test_args_def kCount_def registers_def)
  show "allgather_ready 4 send_count (\<lambda>r. gather_test_args (H r) (d r) (comm r)) E"
    using conn rank(7)
    by (simp add: allgather_ready_def gather_ok_def ag_gbuf_def gather_test_args_def send_count_def registers_def)
qed

text \<open>What a rank still has to do when its communicator stands, the registrations resolved.\<close>

definition gather_part :: "('q, 'o) host_env \<Rightarrow> Device \<Rightarrow> nat \<Rightarrow> 'q comm_object \<Rightarrow> 'q built mprog" where
  "gather_part H d r c =
     Rdma (Compute (\<lambda>m. Inr (write_array (\<lambda>i. int r * 1000 + int i) (he_array H 3 1024 + 4 * (r * send_count)) send_count m)) Return)
     (comm_barrier c (Rdma (allgather (gather_test_args H d (c_comm c)) Return)
     (Inspect (\<lambda>m. if check_gather (he_array H 3 1024) m then Exit 0 else Exit 1))))"

abbreviation try_part ::
    "(allreduce_args \<Rightarrow> rprog \<Rightarrow> rprog) \<Rightarrow> ('q, 'o) host_env \<Rightarrow> Device \<Rightarrow> nat \<Rightarrow> 'q comm_object \<Rightarrow> nat \<Rightarrow> nat \<Rightarrow> 'q built mprog \<Rightarrow>
      'q built mprog" where
  "try_part call H d r c i len k \<equiv>
     try_allreduce call (int r) c (the_mr H 0 (the_pd H d) (he_array H 0 16004) 16004) (he_array H 0 16004)
       (the_mr H i (the_pd H d) (he_array H i len) len) (he_array H i len) (len div 4) k"

lemma test_starts:
  assumes hosts: "four_hosts H s hw d B E" and r: "r < 4"
  shows "run_rank (H r) (int r) q0 (s r) =
      communicator_ctor (H r) (d r) (int r) (int 4) ''127.0.0.1'' kBasePort q0 (s r) (run_collectives (H r) (int r))"
    and "c_pd c = the_pd (H r) (d r) \<Longrightarrow> run_collectives (H r) (int r) c =
      new_array (H r) 0 16004 (\<lambda>_. new_array (H r) 1 4004 (\<lambda>_. try_part allreduce_ring (H r) (d r) r c 1 4004
        (new_array (H r) 2 16004 (\<lambda>_. try_part allreduce_recursive_doubling (H r) (d r) r c 2 16004
          (new_array (H r) 3 1024 (\<lambda>_. gather_part (H r) (d r) r c))))))"
proof -
  note a = four_rank [OF hosts r]
  obtain calls where "device_ctor (he_verbs (H r)) [] = Some (Inr (d r), calls)" using a(1) by (auto simp: opens_def)
  then show "run_rank (H r) (int r) q0 (s r) =
      communicator_ctor (H r) (d r) (int r) (int 4) ''127.0.0.1'' kBasePort q0 (s r) (run_collectives (H r) (int r))"
    by (simp add: run_rank_def kWorldSize_def)
  assume c: "c_pd c = the_pd (H r) (d r)"
  note reg = a(4-7) [THEN register_ok]
  have gather: "try_allgather (H r) (int r) c = new_array (H r) 3 1024 (\<lambda>_. gather_part (H r) (d r) r c)"
    by (simp add: try_allgather_def gather_part_def gather_test_args_def send_count_def kWorldSize_def c reg(4) cong: new_array_cong)
  have len: "4 * kCount = 16004" "(kCount + nat kWorldSize - 1) div nat kWorldSize = 1001" "4 * 1001 = (4004 :: nat)"
    by (simp_all add: kCount_def kWorldSize_def)
  show "run_collectives (H r) (int r) c =
      new_array (H r) 0 16004 (\<lambda>_. new_array (H r) 1 4004 (\<lambda>_. try_part allreduce_ring (H r) (d r) r c 1 4004
        (new_array (H r) 2 16004 (\<lambda>_. try_part allreduce_recursive_doubling (H r) (d r) r c 2 16004
          (new_array (H r) 3 1024 (\<lambda>_. gather_part (H r) (d r) r c))))))"
    unfolding run_collectives_def gather Let_def len c
    by (simp add: reg(1-3) kCount_def del: One_nat_def cong: new_array_cong)
qed

text \<open>The three collectives in turn, once the communicators stand.\<close>

lemma collectives_phases:
  assumes hosts: "four_hosts H s hw d B E" and wired: "wired wire 4 B"
    and c: "\<forall>r<4. comm_works (H r) (d r) (B r) 4 r (c r)"
  shows "r < 4 \<Longrightarrow> mdisc (run_collectives (H r) (int r) (c r))"
    and "mstage w 4 (\<lambda>r. run_collectives (H r) (int r) (c r)) M E \<Longrightarrow> \<exists>w' M'. mreach wire w w' \<and> mstage w' 4 (\<lambda>_. Exit 0) M' E"
proof -
  have idle: "\<And>x. idle (E x)" using hosts by (simp add: four_hosts_def)
  have boot: "\<And>r. r < 4 \<Longrightarrow> c_bootstrap (c r) = B r" and pd: "\<And>r. r < 4 \<Longrightarrow> c_pd (c r) = the_pd (H r) (d r)"
    and conn: "\<And>r. r < 4 \<Longrightarrow> connected 4 r (c_comm (c r))" using c by (simp_all add: comm_works_def)
  note ready = tests_ready [where comm = "\<lambda>r. c_comm (c r)", OF hosts conn]
  note start = test_starts(2) [OF hosts _ pd]
  show "mdisc (run_collectives (H r) (int r) (c r))" if r: "r < 4"
  proof -
    have "mdisc (gather_part (H r) (d r) r (c r))"
      using disc_allgather [OF ready(3) r, of Return] by (simp add: gather_part_def mdisc_barrier)
    then show ?thesis unfolding start [OF r r]
      by (intro mdisc_array ring_call.try_disc [OF ready(1) r] rd_call.try_disc [OF ready(2) r]) (simp_all add: test_args_def)
  qed
  assume w: "mstage w 4 (\<lambda>r. run_collectives (H r) (int r) (c r)) M E"
  have n: "16004 < (2 :: nat) ^ 63" "4004 < (2 :: nat) ^ 63" "1024 < (2 :: nat) ^ 63" by simp_all
  let ?g = "\<lambda>r. gather_part (H r) (d r) r (c r)"
  let ?rd = "\<lambda>r. try_part allreduce_recursive_doubling (H r) (d r) r (c r) 2 16004 (new_array (H r) 3 1024 (\<lambda>_. ?g r))"
  let ?ring = "\<lambda>r. try_part allreduce_ring (H r) (d r) r (c r) 1 4004 (new_array (H r) 2 16004 (\<lambda>_. ?rd r))"
  obtain w1 M1 where w1: "mreach wire w w1" "mstage w1 4 (\<lambda>r. new_array (H r) 1 4004 (\<lambda>_. ?ring r)) M1 E"
    by (rule phase_new_array [OF n(1) mstage_cong [OF w start]])
  obtain w2 M2 where w2: "mreach wire w1 w2" "mstage w2 4 ?ring M2 E" by (rule phase_new_array [OF n(2) w1(2)])
  obtain w3 M3 where w3: "mreach wire w2 w3" "mstage w3 4 (\<lambda>r. new_array (H r) 2 16004 (\<lambda>_. ?rd r)) M3 E"
    using ring_call.try_phase [OF ready(1) idle _ wired boot w2(2)] unfolding test_args_def by blast
  obtain w4 M4 where w4: "mreach wire w3 w4" "mstage w4 4 ?rd M4 E" by (rule phase_new_array [OF n(1) w3(2)])
  obtain w5 M5 where w5: "mreach wire w4 w5" "mstage w5 4 (\<lambda>r. new_array (H r) 3 1024 (\<lambda>_. ?g r)) M5 E"
    using rd_call.try_phase [OF ready(2) idle _ wired boot w4(2)] unfolding test_args_def by blast
  obtain w6 M6 where w6: "mreach wire w5 w6" "mstage w6 4 ?g M6 E" by (rule phase_new_array [OF n(3) w5(2)])
  have "\<exists>w' M'. mreach wire w6 w' \<and> mstage w' 4 (\<lambda>_. Exit 0) M' E"
    using gather_phase [where mr = "\<lambda>r. the_mr (H r) 3 (the_pd (H r) (d r)) (he_array (H r) 3 1024) 1024", OF ready(3) idle _ wired boot
        w6(2) [unfolded gather_part_def]] unfolding gather_test_args_def by blast
  moreover have "mreach wire w w6" using w1(1) w2(1) w3(1) w4(1) w5(1) w6(1) by (blast intro: mreach_trans)
  ultimately show "\<exists>w' M'. mreach wire w w' \<and> mstage w' 4 (\<lambda>_. Exit 0) M' E" by (blast intro: mreach_trans)
qed

lemma wait_all_zero: "(\<And>r. r < P \<Longrightarrow> exit_code caught (m r) = Some 0) \<Longrightarrow> wait_all caught P m = Some 0"
  by (induction P) (simp_all add: wait_all_def)

section \<open>Properties\<close>

text \<open>
  C10: the integration test passes: on four hosts that work, over every fabric that keeps the reliable-connection contract and under every
  interleaving, the four processes end; each has checked ring allreduce, recursive doubling and allgather against the serial results and
  exits with 0, and \<^verbatim>\<open>main\<close>, which waits for them, returns 0.
\<close>

theorem integration_test_passes:
  assumes "rc_contract F \<alpha>" and "four_hosts H s hw d B (\<alpha> (wnet w))" and "wired wire 4 B"
    and "mprocs w = mranks 4 (\<lambda>r. run_rank (H r) (int r) (q r) (s r))" and "wchan w = (\<lambda>_ _. [])"
  shows "always_ends (mexec F wire) w (\<lambda>f. wait_all 1 4 (mprocs f) = Some 0)"
proof -
  note rank = four_rank [OF assms(2)]
  have "always_ends (mexec F wire) w (\<lambda>f. (\<forall>r<4. mprocs f r = Exit 0) \<and> True)"
  proof (rule communicators_end [where k = "\<lambda>r. run_collectives (H r) (int r)", OF assms(1,4,5) _ assms(3) _ test_starts(1) [OF assms(2)]])
    show "idle (\<alpha> (wnet w) x)" for x using assms(2) by (simp add: four_hosts_def)
    show "opens (H r) (d r) \<and> joins (H r) (int r) (int 4) ''127.0.0.1'' kBasePort (s r) (B r)" if "r < 4" for r
      using rank(1,3) [OF that] by simp
    show "qp_driver (he_qp (H r)) (hw r)" if "r < 4" for r by (rule rank(2) [OF that])
  qed ((simp; fail) | use collectives_phases [OF assms(2,3)] in blast)+
  then show ?thesis by (rule always_ends_mono) (simp add: wait_all_zero)
qed

text \<open>Four processes on hosts with Soft-RoCE.\<close>

definition test_arrays :: "nat \<Rightarrow> nat \<Rightarrow> nat" where
  "test_arrays i len = 16004 * i"

definition test_world :: "(sim built, nat \<Rightarrow> endpoint) world" where
  "test_world = \<lparr>mprocs = mranks 4 (\<lambda>r. run_rank (sample_host test_arrays) (int r) one_qp (sample_net 4)),
     wmems = (\<lambda>_ _. 0),
     wnet = (\<lambda>_. \<lparr>sq = (\<lambda>_. []), rq = (\<lambda>_. []), scq = [], rcq = [],
       regs = [1 \<mapsto> (0, 16004), 2 \<mapsto> (16004, 4004), 3 \<mapsto> (32008, 16004), 4 \<mapsto> (48012, 1024)]\<rparr>),
     wchan = (\<lambda>_ _. [])\<rparr>"

theorem integration_test_passes_witness:
  "always_ends (mexec rc_fabric sample_wire) test_world (\<lambda>f. wait_all 1 4 (mprocs f) = Some 0)"
proof -
  let ?H = "sample_host test_arrays"
  obtain B where B: "wired sample_wire 4 B" "\<forall>r<4. joins ?H (int r) (int 4) ''127.0.0.1'' kBasePort (sample_net 4) (B r)"
    using sample_hosts_join [of 4 test_arrays "\<lambda>_. ''127.0.0.1''" "\<lambda>_. kBasePort"] by auto
  have "registers ?H (id (wnet test_world) r) i pd (test_arrays i (test_len i)) (test_len i)" if "i < 4" for r i pd
  proof -
    consider "i = 0" | "i = 1" | "i = 2" | "i = 3" using \<open>i < 4\<close> by linarith
    then show ?thesis by (intro sample_registers, cases) (simp_all add: test_world_def test_arrays_def test_len_def)
  qed
  then have hosts: "four_hosts (\<lambda>_. ?H) (\<lambda>_. sample_net 4) (\<lambda>_. sim_hw) (\<lambda>_. rxe_device) B (id (wnet test_world))"
    using B(2) sample_opens sim.qp_driver_axioms
    by (simp add: four_hosts_def idle_def test_world_def disjoint_ranges_def test_arrays_def)
  show ?thesis
    by (rule integration_test_passes [where w = test_world and \<alpha> = id and q = "\<lambda>_. one_qp",
          OF rc_ref.rc_contract_axioms hosts B(1)]) (simp_all add: test_world_def)
qed

end
