(* ===== verification/Mismatched_Scratch.thy ===== *)
theory Mismatched_Scratch
  imports Integration
begin

text \<open>
  \<^verbatim>\<open>test/integration_mismatched_scratch.cc\<close>: two ranks call ring allreduce with a scratch buffer that is too small; the test expects
  an exception on both. It passes for the right reason when everything else works, and it also passes when something else throws.
\<close>

definition kTooSmallScratch :: nat where
  "kTooSmallScratch = 10"

definition undersized_args :: "MemoryRegion \<Rightarrow> nat \<Rightarrow> MemoryRegion \<Rightarrow> nat \<Rightarrow> communicator \<Rightarrow> allreduce_args" where
  "undersized_args data_mr data scratch_mr scratch comm =
     \<lparr>ar_comm = comm, ar_data_mr = data_mr, ar_data = data, ar_count = 1000, ar_dtype = Int32, ar_op = Sum_op,
      ar_scratch_mr = scratch_mr, ar_scratch = scratch, ar_scratch_capacity = kTooSmallScratch\<rparr>"

definition run_undersized :: "('q, 'o) host_env \<Rightarrow> int \<Rightarrow> 'q comm_object \<Rightarrow> 'q built mprog" where
  "run_undersized H rank comm =
     new_array H 0 4000 (\<lambda>data.
     Rdma (Compute (\<lambda>m. Inr (write_array (\<lambda>_. rank + 1) data 1000 m)) Return)
     (new_array H 1 (4 * kTooSmallScratch) (\<lambda>scratch.
     register H 0 (c_pd comm) data 4000 (\<lambda>data_mr.
     register H 1 (c_pd comm) scratch (4 * kTooSmallScratch) (\<lambda>scratch_mr.
     Rdma (allreduce_ring (undersized_args data_mr data scratch_mr scratch (c_comm comm)) Return) (Exit 1))))))"

definition run_rank_undersized :: "('q, 'o) host_env \<Rightarrow> int \<Rightarrow> 'q \<Rightarrow> 'o \<Rightarrow> 'q built mprog" where
  "run_rank_undersized H rank q s =
     mtry_loop (device_ctor (he_verbs H) []) (\<lambda>device.
     communicator_ctor H device rank 2 ''127.0.0.1'' 20320 q s (run_undersized H rank))"

section \<open>Both ranks\<close>

definition two_hosts ::
    "(nat \<Rightarrow> ('q, 'o) host_env) \<Rightarrow> (nat \<Rightarrow> 'o) \<Rightarrow> (nat \<Rightarrow> 'q \<Rightarrow> ptr \<rightharpoonup> qp_hw) \<Rightarrow> (nat \<Rightarrow> Device) \<Rightarrow> (nat \<Rightarrow> TcpBootstrap) \<Rightarrow>
      (nat \<Rightarrow> endpoint) \<Rightarrow> bool" where
  "two_hosts H s hw d B E \<longleftrightarrow> (\<forall>x. idle (E x)) \<and>
     (\<forall>r<2. opens (H r) (d r) \<and> qp_driver (he_qp (H r)) (hw r) \<and> joins (H r) (int r) 2 ''127.0.0.1'' 20320 (s r) (B r) \<and>
        registers (H r) (E r) 0 (the_pd (H r) (d r)) (he_array (H r) 0 4000) 4000 \<and>
        registers (H r) (E r) 1 (the_pd (H r) (d r)) (he_array (H r) 1 40) 40)"

abbreviation undersized_error :: error where
  "undersized_error \<equiv> RuntimeError ''allreduce_ring: scratch buffer (% elems) smaller than largest chunk (% elems)'' [10, 500]"

lemma undersized_throws:
  "connected 2 r comm \<Longrightarrow> r < 2 \<Longrightarrow> mr_length data_mr = 4000 \<Longrightarrow>
     allreduce_ring (undersized_args data_mr data scratch_mr scratch comm) k = Throw undersized_error"
  by (subst ring_guarded [of 2 r]) (simp_all add: undersized_args_def kTooSmallScratch_def)

lemma undersized_starts:
  assumes hosts: "two_hosts H s hw d B E" and r: "r < 2"
  shows "run_rank_undersized (H r) (int r) q0 (s r) =
      communicator_ctor (H r) (d r) (int r) (int 2) ''127.0.0.1'' 20320 q0 (s r) (run_undersized (H r) (int r))"
    and "c_pd c = the_pd (H r) (d r) \<Longrightarrow> connected 2 r (c_comm c) \<Longrightarrow> run_undersized (H r) (int r) c =
      new_array (H r) 0 4000 (\<lambda>_.
        Rdma (Compute (\<lambda>m. Inr (write_array (\<lambda>_. int r + 1) (he_array (H r) 0 4000) 1000 m)) Return)
        (new_array (H r) 1 40 (\<lambda>_. Rdma (Throw undersized_error) (Exit 1))))"
proof -
  obtain calls where "device_ctor (he_verbs (H r)) [] = Some (Inr (d r), calls)" using hosts r by (auto simp: two_hosts_def opens_def)
  then show "run_rank_undersized (H r) (int r) q0 (s r) =
      communicator_ctor (H r) (d r) (int r) (int 2) ''127.0.0.1'' 20320 q0 (s r) (run_undersized (H r) (int r))"
    by (simp add: run_rank_undersized_def)
  have reg: "registers (H r) (E r) 0 (the_pd (H r) (d r)) (he_array (H r) 0 4000) 4000"
    "registers (H r) (E r) 1 (the_pd (H r) (d r)) (he_array (H r) 1 40) 40" using hosts r by (simp_all add: two_hosts_def)
  have len: "4 * kTooSmallScratch = 40" by (simp add: kTooSmallScratch_def)
  assume c: "c_pd c = the_pd (H r) (d r)" "connected 2 r (c_comm c)"
  show "run_undersized (H r) (int r) c =
      new_array (H r) 0 4000 (\<lambda>_.
        Rdma (Compute (\<lambda>m. Inr (write_array (\<lambda>_. int r + 1) (he_array (H r) 0 4000) 1000 m)) Return)
        (new_array (H r) 1 40 (\<lambda>_. Rdma (Throw undersized_error) (Exit 1))))"
    unfolding run_undersized_def len c(1)
    by (simp add: reg [THEN register_ok] undersized_throws [OF c(2) r] del: One_nat_def cong: new_array_cong)
qed

lemma undersized_phases:
  assumes hosts: "two_hosts H s hw d B E" and c: "\<forall>r<2. comm_works (H r) (d r) (B r) 2 r (c r)"
  shows "r < 2 \<Longrightarrow> mdisc (run_undersized (H r) (int r) (c r))"
    and "mstage w 2 (\<lambda>r. run_undersized (H r) (int r) (c r)) M E \<Longrightarrow>
      \<exists>w' M'. mreach wire w w' \<and> mstage w' 2 (\<lambda>_. Fail undersized_error) M' E"
proof -
  have works: "c_pd (c r) = the_pd (H r) (d r)" "connected 2 r (c_comm (c r))" if "r < 2" for r using c that by (simp_all add: comm_works_def)
  note start = undersized_starts(2) [OF hosts _ works]
  let ?k = "\<lambda>r. new_array (H r) 1 40 (\<lambda>_. Rdma (Throw undersized_error) (Exit 1))"
  let ?f = "\<lambda>r m. Inr (write_array (\<lambda>_. int r + 1) (he_array (H r) 0 4000) 1000 m)"
  show "mdisc (run_undersized (H r) (int r) (c r))" if r: "r < 2"
    unfolding start [OF r r r] by (intro mdisc_array) (simp add: mdisc_array)
  assume w: "mstage w 2 (\<lambda>r. run_undersized (H r) (int r) (c r)) M E"
  have n: "4000 < (2 :: nat) ^ 63" "40 < (2 :: nat) ^ 63" by simp_all
  obtain w1 M1 where w1: "mreach wire w w1" "mstage w1 2 (\<lambda>r. Rdma (Compute (?f r) Return) (?k r)) M1 E"
    by (rule phase_new_array [OF n(1) mstage_cong [OF w start]])
  have "?f r (M1 r) = Inr (if r < 2 then projr (?f r (M1 r)) else M1 r)" if "r < 2" for r using that by simp
  from phase_compute [where wire = wire and f = ?f, OF this _ w1(2)]
  obtain w2 M2 where w2: "mreach wire w1 w2" "mstage w2 2 ?k M2 E" by auto
  obtain w3 M3 where w3: "mreach wire w2 w3" "mstage w3 2 (\<lambda>r. Rdma (Throw undersized_error) (Exit 1)) M3 E"
    by (rule phase_new_array [OF n(2) w2(2)])
  from phase_throw [OF w3(2)] w1(1) w2(1) w3(1)
  show "\<exists>w' M'. mreach wire w w' \<and> mstage w' 2 (\<lambda>_. Fail undersized_error) M' E" by (blast intro: mreach_trans)
qed

section \<open>Properties\<close>

text \<open>
  C34: the test of an undersized scratch buffer: on two hosts that work, under every interleaving, both ranks end with the exception of the scratch
  guard and \<^verbatim>\<open>main\<close> returns 0. Any exception will do, though: when no device can be opened at all the test passes as well.
\<close>

theorem mismatched_scratch_detected:
  assumes "rc_contract F \<alpha>" and "wchan w = (\<lambda>_ _. [])"
    and "mprocs w = mranks 2 (\<lambda>r. run_rank_undersized (H r) (int r) (q r) (s r))"
  shows "(two_hosts H s hw d B (\<alpha> (wnet w)) \<and> wired wire 2 B \<longrightarrow>
      always_ends (mexec F wire) w (\<lambda>f. (\<forall>r<2. mprocs f r = Fail undersized_error) \<and> wait_all 0 2 (mprocs f) = Some 0)) \<and>
    ((\<forall>r<2. \<exists>e calls. device_ctor (he_verbs (H r)) [] = Some (Inl e, calls)) \<longrightarrow> wait_all 0 2 (mprocs w) = Some 0)"
proof (intro conjI impI)
  assume "two_hosts H s hw d B (\<alpha> (wnet w)) \<and> wired wire 2 B"
  then have hosts: "two_hosts H s hw d B (\<alpha> (wnet w))" and wired: "wired wire 2 B" by simp_all
  have "always_ends (mexec F wire) w (\<lambda>f. (\<forall>r<2. mprocs f r = Fail undersized_error) \<and> True)"
  proof (rule communicators_end [where k = "\<lambda>r. run_undersized (H r) (int r)", OF assms(1,3,2) _ wired _ undersized_starts(1) [OF hosts]])
    show "idle (\<alpha> (wnet w) x)" for x using hosts by (simp add: two_hosts_def)
    show "opens (H r) (d r) \<and> joins (H r) (int r) (int 2) ''127.0.0.1'' 20320 (s r) (B r)" if "r < 2" for r
      using hosts that by (simp add: two_hosts_def)
    show "qp_driver (he_qp (H r)) (hw r)" if "r < 2" for r using hosts that by (simp add: two_hosts_def)
  qed ((simp; fail) | use undersized_phases [OF hosts] in blast)+
  then show "always_ends (mexec F wire) w (\<lambda>f. (\<forall>r<2. mprocs f r = Fail undersized_error) \<and> wait_all 0 2 (mprocs f) = Some 0)"
    by (rule always_ends_mono) (simp add: wait_all_zero)
next
  assume none: "\<forall>r<2. \<exists>e calls. device_ctor (he_verbs (H r)) [] = Some (Inl e, calls)"
  show "wait_all 0 2 (mprocs w) = Some 0"
    using none by (intro wait_all_zero) (auto simp: assms(3) run_rank_undersized_def)
qed

definition undersized_world :: "(sim built, nat \<Rightarrow> endpoint) world" where
  "undersized_world = \<lparr>mprocs = mranks 2 (\<lambda>r. run_rank_undersized (sample_host (\<lambda>i _. 4000 * i)) (int r) one_qp (sample_net 2)),
     wmems = (\<lambda>_ _. 0),
     wnet = (\<lambda>_. \<lparr>sq = (\<lambda>_. []), rq = (\<lambda>_. []), scq = [], rcq = [], regs = [1 \<mapsto> (0, 4000), 2 \<mapsto> (4000, 40)]\<rparr>),
     wchan = (\<lambda>_ _. [])\<rparr>"

theorem mismatched_scratch_detected_witness:
  "always_ends (mexec rc_fabric sample_wire) undersized_world (\<lambda>f. wait_all 0 2 (mprocs f) = Some 0)"
proof -
  let ?H = "sample_host (\<lambda>i _. 4000 * i)"
  obtain B where B: "wired sample_wire 2 B" "\<forall>r<2. joins ?H (int r) (int 2) ''127.0.0.1'' 20320 (sample_net 2) (B r)"
    using sample_hosts_join [of 2 "\<lambda>i _. 4000 * i" "\<lambda>_. ''127.0.0.1''" "\<lambda>_. 20320"] by auto
  have hosts: "two_hosts (\<lambda>_. ?H) (\<lambda>_. sample_net 2) (\<lambda>_. sim_hw) (\<lambda>_. rxe_device) B (id (wnet undersized_world))"
    using B(2) sample_opens sim.qp_driver_axioms
    by (auto simp: two_hosts_def idle_def undersized_world_def intro!: sample_registers)
  have "always_ends (mexec rc_fabric sample_wire) undersized_world
      (\<lambda>f. (\<forall>r<2. mprocs f r = Fail undersized_error) \<and> wait_all 0 2 (mprocs f) = Some 0)"
    by (rule mismatched_scratch_detected [where w = undersized_world and \<alpha> = id and q = "\<lambda>_. one_qp" and H = "\<lambda>_. ?H" and s = "\<lambda>_. sample_net 2",
          OF rc_ref.rc_contract_axioms, THEN conjunct1, rule_format]) (use hosts B(1) in \<open>simp_all add: undersized_world_def\<close>)
  then show ?thesis by (rule always_ends_mono) simp
qed

end
