(* ===== verification/Unit_Tests.thy ===== *)
theory Unit_Tests
  imports Chunking Reduce_Ops
begin

text \<open>
  The unit tests of the repository, \<^verbatim>\<open>test/unit_chunking.cc\<close> and \<^verbatim>\<open>test/unit_reduce_ops.cc\<close>, run on the model: every \<^verbatim>\<open>REQUIRE\<close> is a
  conjunct, and the kernel evaluates them. They tie the definitions to the behaviour the authors of the code expect of it.
\<close>

section \<open>unit_chunking\<close>

definition chunk_counts :: "nat \<Rightarrow> nat \<Rightarrow> nat list" where
  "chunk_counts tot n = (case compute_chunks tot n of Inl _ \<Rightarrow> [] | Inr chunks \<Rightarrow> map cr_count chunks)"

definition chunk_offsets :: "nat \<Rightarrow> nat \<Rightarrow> nat list" where
  "chunk_offsets tot n = (case compute_chunks tot n of Inl _ \<Rightarrow> [] | Inr chunks \<Rightarrow> map cr_offset chunks)"

fun throws_invalid_argument :: "'a result \<Rightarrow> bool" where
  "throws_invalid_argument (Inl (InvalidArgument _)) = True"
| "throws_invalid_argument _ = False"

definition unit_chunking :: "bool list" where
  "unit_chunking =
     [chunk_counts 12 4 = [3, 3, 3, 3] \<and> chunk_offsets 12 4 = [0, 3, 6, 9],
      chunk_counts 10 3 = [4, 3, 3] \<and> chunk_offsets 10 3 = [0, 4, 7],
      (let cs = chunk_counts 97 8 in sum_list cs = 97 \<and> foldl max (hd cs) cs - foldl min (hd cs) cs \<le> 1),
      (let cs = chunk_counts 3 8 in length cs = 8 \<and> sum_list cs = 3 \<and> length (filter (\<lambda>c. 0 < c) cs) = 3 \<and>
         cs ! 0 = 1 \<and> cs ! 1 = 1 \<and> cs ! 2 = 1 \<and> cs ! 3 = 0 \<and> cs ! 7 = 0),
      chunk_counts 100 1 = [100] \<and> chunk_offsets 100 1 = [0],
      length (chunk_counts 0 4) = 4 \<and> list_all (\<lambda>c. c = 0) (chunk_counts 0 4),
      throws_invalid_argument (compute_chunks 10 0)]"

section \<open>unit_reduce_ops\<close>

text \<open>Two vectors in a fresh memory, and the first after the call. The values of type \<^verbatim>\<open>float\<close> are given by their bits.\<close>

fun place :: "nat \<Rightarrow> u32 list \<Rightarrow> mem \<Rightarrow> mem" where
  "place a [] m = m"
| "place a (v # vs) m = place (a + 4) vs (store32 m a v)"

definition after_reduce :: "Dtype \<Rightarrow> ReduceOp \<Rightarrow> nat \<Rightarrow> u32 list \<Rightarrow> u32 list \<Rightarrow> u32 list result" where
  "after_reduce dt op n dst src =
     (let a = 4 * length dst in
      bind_res (reduce_inplace 0 a n dt op (place a src (place 0 dst (\<lambda>_. 0)))) (\<lambda>m. Inr (array m 0 (length dst))))"

definition unit_reduce_ops :: "bool list" where
  "unit_reduce_ops =
     [dtype_size Float32 = 4 \<and> dtype_size Int32 = 4,
      after_reduce Float32 Sum_op 3 [0x3f800000, 0x40000000, 0xc0600000] [0x41200000, 0xc0a00000, 0x3f000000] =
        Inr [0x41300000, 0xc0400000, 0xc0400000],
      after_reduce Float32 Min_op 3 [0x40a00000, 0xbf800000, 0x40400000] [0x40000000, 0xc0800000, 0x40400000] =
        Inr [0x40000000, 0xc0800000, 0x40400000],
      after_reduce Float32 Max_op 3 [0x40a00000, 0xbf800000, 0x40400000] [0x40000000, 0xc0800000, 0x40400000] =
        Inr [0x40a00000, 0xbf800000, 0x40400000],
      after_reduce Int32 Sum_op 3 [100, -50, 0] [-30, -50, 42] = Inr [70, -100, 42],
      after_reduce Int32 Min_op 3 [7, -2, 9] [3, -8, 20] = Inr [3, -8, 9],
      after_reduce Int32 Max_op 3 [7, -2, 9] [3, -8, 20] = Inr [7, -2, 20],
      after_reduce Int32 Sum_op 0 [42] [999] = Inr [42]]"

section \<open>All pass\<close>

lemma chunks_closed:
  assumes "0 < p" "n < 2 ^ 64"
  shows "chunk_counts n p = map (chunk_len n p) [0..<p]" "chunk_offsets n p = map (chunk_off n p) [0..<p]"
  using assms by (simp_all add: chunk_counts_def chunk_offsets_def compute_chunks_closed comp_def)

lemma unit_chunking_passes: "list_all id unit_chunking"
  by (simp add: unit_chunking_def chunks_closed chunk_len_def chunk_off_def upt_conv_Cons compute_chunks_def)

lemma place_outside: "x < a \<or> a + 4 * length vs \<le> x \<Longrightarrow> place a vs m x = m x"
  by (induction vs arbitrary: a m) (auto simp: store32_outside)

lemma array_place: "array (place a vs m) a (length vs) = vs"
proof (induction vs arbitrary: a m)
  case (Cons v vs)
  have "load32 (place (a + 4) vs (store32 m a v)) a = load32 (store32 m a v) a"
    by (rule load32_cong) (auto simp: place_outside)
  then show ?case by (simp add: array_Suc Cons.IH mem_simps)
qed (simp add: array_def)

lemma after_reduce_arrays:
  assumes "length src = n" "length dst = n"
  shows "after_reduce dt op n dst src = reduce_arrays (elem_op dt op) dst src"
proof -
  have "array (place (4 * n) src (place 0 dst m)) 0 n = array (place 0 dst m) 0 n" for m
    by (rule array_cong) (use assms in \<open>simp add: place_outside\<close>)
  then show ?thesis
    using array_place [of 0 dst] array_place [of "4 * n" src] assms
    by (simp add: after_reduce_def reduce_inplace_loop reduce_loop_arrays disjoint_ranges_def)
qed

lemma unit_reduce_ops_passes: "list_all id unit_reduce_ops"
proof -
  have empty: "after_reduce Int32 Sum_op 0 [42] [999] = Inr [42]"
    by (simp add: after_reduce_def reduce_inplace_loop array_def mem_simps)
  have int: "reduce_arrays (elem_op Int32 Sum_op) [100, -50, 0] [-30, -50, 42] = Inr [70, -100, 42]"
    "reduce_arrays (elem_op Int32 Min_op) [7, -2, 9] [3, -8, 20] = Inr [3, -8, 9]"
    "reduce_arrays (elem_op Int32 Max_op) [7, -2, 9] [3, -8, 20] = Inr [7, -2, 20]"
    by code_simp+
  have add: "f32_add 0x3f800000 0x41200000 = 0x41300000" "f32_add 0x40000000 0xc0a00000 = 0xc0400000"
    "f32_add 0xc0600000 0x3f000000 = 0xc0400000"
    by (simp_all add: f32_eval)
  have lt: "\<not> f32_lt 0x40a00000 0x40000000" "\<not> f32_lt 0xbf800000 0xc0800000" "\<not> f32_lt 0x40400000 0x40400000"
    "f32_lt 0x40000000 0x40a00000" "f32_lt 0xc0800000 0xbf800000"
    by (simp_all add: f32_eval)
  show ?thesis
    by (simp add: unit_reduce_ops_def after_reduce_arrays int empty del: reduce_arrays.simps)
      (simp add: elem_op_def std_min_def std_max_def add lt)
qed

end
