(* ===== verification/Lifetime.thy ===== *)
theory Lifetime
  imports Device
begin

text \<open>
  Lifetimes: in which order the objects of a process are constructed, and that leaving their scope, at the end or by an exception after any number of
  constructions, releases every native object once and never while another one needs it. The destructors ignore the result of
  their calls, so a release that the verbs library refuses (\<^verbatim>\<open>EBUSY\<close>) would be a silent leak.
\<close>

section \<open>Objects and their users\<close>

datatype resource =
    Dev ptr
  | Pd ptr
  | Cq ptr
  | Qp ptr
  | Mr ptr
  | Vec nat
  | Boot

text \<open>The calls of the destructors: those of theories \<open>Handles\<close> and \<open>Device\<close>, freeing a vector, closing the sockets.\<close>

datatype release = Verbs native_call | Free nat | CloseSockets

fun dtor :: "resource \<Rightarrow> release list" where
  "dtor (Dev p) = map Verbs (device_dtor (blank_device p))"
| "dtor (Pd p) = map Verbs (pd_dtor (Some p))"
| "dtor (Cq p) = map Verbs (cq_dtor (Some p))"
| "dtor (Qp p) = map Verbs (qp_dtor (Some p))"
| "dtor (Mr p) = map Verbs (mr_dtor (Some p))"
| "dtor (Vec a) = [Free a]"
| "dtor Boot = [CloseSockets]"

text \<open>
  The objects alive, youngest first, each with those it uses.
\<close>

type_synonym lifetimes = "(resource \<times> resource list) list"

fun target :: "release \<Rightarrow> resource" where
  "target (Verbs (Ibv_close_device p)) = Dev p"
| "target (Verbs (Ibv_dealloc_pd p)) = Pd p"
| "target (Verbs (Ibv_destroy_cq p)) = Cq p"
| "target (Verbs (Ibv_destroy_qp p)) = Qp p"
| "target (Verbs (Ibv_dereg_mr p)) = Mr p"
| "target (Free a) = Vec a"
| "target CloseSockets = Boot"

text \<open>A release is refused, or is an error, when its object is not alive or an object that is alive uses it.\<close>

definition release :: "release \<Rightarrow> lifetimes \<Rightarrow> lifetimes option" where
  "release c T =
     (if target c \<in> fst ` set T \<and> (\<forall>(x, uses)\<in>set T. target c \<notin> set uses)
      then Some (filter (\<lambda>(x, uses). x \<noteq> target c) T) else None)"

fun release_all :: "release list \<Rightarrow> lifetimes \<Rightarrow> lifetimes option" where
  "release_all [] T = Some T"
| "release_all (c # cs) T = Option.bind (release c T) (release_all cs)"

text \<open>Leaving a scope: the destructors of its objects, the youngest first.\<close>

definition unwind :: "lifetimes \<Rightarrow> release list" where
  "unwind T = concat (map (\<lambda>(x, uses). dtor x) T)"

section \<open>The scopes of the programs\<close>

text \<open>
  The members of \<^verbatim>\<open>Communicator\<close>. \<open>qps\<close> are the queue pairs in the order in which the hash map destroys them.
\<close>

definition communicator_members :: "ptr \<Rightarrow> ptr \<Rightarrow> ptr \<Rightarrow> ptr \<Rightarrow> ptr list \<Rightarrow> lifetimes" where
  "communicator_members dev pd send_cq recv_cq qps =
     map (\<lambda>qp. (Qp qp, [Pd pd, Cq send_cq, Cq recv_cq])) qps @
     [(Boot, []), (Cq recv_cq, [Dev dev]), (Cq send_cq, [Dev dev]), (Pd pd, [Dev dev])]"

definition bench_scope :: "ptr \<Rightarrow> ptr \<Rightarrow> ptr \<Rightarrow> ptr \<Rightarrow> ptr list \<Rightarrow> nat \<Rightarrow> nat \<Rightarrow> ptr \<Rightarrow> ptr \<Rightarrow> lifetimes" where
  "bench_scope dev pd send_cq recv_cq qps data scratch data_mr scratch_mr =
     [(Mr scratch_mr, [Pd pd, Vec scratch]), (Mr data_mr, [Pd pd, Vec data]), (Vec scratch, []), (Vec data, [])] @
     communicator_members dev pd send_cq recv_cq qps @ [(Dev dev, [])]"

definition pingpong_scope :: "ptr \<Rightarrow> ptr \<Rightarrow> ptr \<Rightarrow> ptr \<Rightarrow> ptr \<Rightarrow> nat \<Rightarrow> nat \<Rightarrow> ptr \<Rightarrow> ptr \<Rightarrow> lifetimes" where
  "pingpong_scope dev pd send_cq recv_cq qp send_buf recv_buf send_mr recv_mr =
     [(Boot, []), (Mr recv_mr, [Pd pd, Vec recv_buf]), (Mr send_mr, [Pd pd, Vec send_buf]), (Vec recv_buf, []), (Vec send_buf, []),
      (Qp qp, [Pd pd, Cq send_cq, Cq recv_cq]), (Cq recv_cq, [Dev dev]), (Cq send_cq, [Dev dev]), (Pd pd, [Dev dev]), (Dev dev, [])]"

section \<open>Nested lifetimes\<close>

text \<open>Every object uses only older ones.\<close>

fun nested :: "lifetimes \<Rightarrow> bool" where
  "nested [] \<longleftrightarrow> True"
| "nested ((x, uses) # older) \<longleftrightarrow> x \<notin> fst ` set older \<and> set uses \<subseteq> fst ` set older \<and> nested older"

lemma dtor_single: "\<exists>c. dtor x = [c] \<and> target c = x"
  by (cases x) (auto simp: device_dtor_def blank_device_def pd_dtor_def cq_dtor_def qp_dtor_def mr_dtor_def)

lemma nested_users: "nested T \<Longrightarrow> (x, uses) \<in> set T \<Longrightarrow> set uses \<subseteq> fst ` set T"
  by (induction T rule: nested.induct) auto

lemma release_youngest:
  assumes "nested ((x, uses) # T)" "target c = x"
  shows "release c ((x, uses) # T) = Some T"
proof -
  have new: "x \<notin> fst ` set T" and "x \<notin> set uses" and T: "nested T" using assms by auto
  moreover have "\<forall>(y, us)\<in>set T. x \<notin> set us" using new nested_users [OF T] by blast
  moreover have "filter (\<lambda>(y, us). y \<noteq> x) T = T" using new by (force simp: filter_id_conv)
  ultimately show ?thesis using assms(2) by (simp add: release_def)
qed

lemma nested_unwinds: "nested T \<Longrightarrow> release_all (unwind T) T = Some []"
proof (induction T)
  case (Cons t T)
  obtain x uses where t: "t = (x, uses)" by (cases t)
  obtain c where c: "dtor x = [c]" "target c = x" using dtor_single by blast
  have "release_all (unwind T) T = Some []" using Cons t by simp
  then show ?case using release_youngest [of x uses T c] Cons.prems c by (simp add: t unwind_def)
qed (simp add: unwind_def)

lemma nested_drop: "nested T \<Longrightarrow> nested (drop k T)"
proof (induction T arbitrary: k)
  case (Cons t T)
  then show ?case by (cases k; cases t) auto
qed simp

lemma members_nested:
  assumes "distinct qps" "send_cq \<noteq> recv_cq"
  shows "nested (communicator_members dev pd send_cq recv_cq qps @ [(Dev dev, [])])"
  using assms by (induction qps) (auto simp: communicator_members_def)

section \<open>Properties\<close>

text \<open>
  C20: scopes unwind cleanly: in the benchmark and in pingpong, after any number \<open>k\<close> fewer constructions than all of them (an exception at any
  point, or the normal end for \<open>k = 0\<close>) and whatever order the hash map destroys the queue pairs in, the destructors release every object once,
  none while an object still uses it (no protection domain or completion queue before its queue pairs, no registered memory freed, no device closed
  early), and nothing is left.
\<close>

theorem scopes_unwind:
  assumes "distinct qps" and "send_cq \<noteq> recv_cq" and "a \<noteq> b" and "ma \<noteq> mb"
    and "T = bench_scope dev pd send_cq recv_cq qps a b ma mb \<or> T = pingpong_scope dev pd send_cq recv_cq qp a b ma mb"
  shows "release_all (unwind (drop k T)) (drop k T) = Some []"
proof -
  have "nested (bench_scope dev pd send_cq recv_cq qps a b ma mb)"
    using members_nested [OF assms(1,2), of dev pd] assms(3,4) by (auto simp: bench_scope_def communicator_members_def)
  moreover have "nested (pingpong_scope dev pd send_cq recv_cq qp a b ma mb)"
    using assms(2-4) by (simp add: pingpong_scope_def)
  ultimately show ?thesis using assms(5) nested_drop nested_unwinds by metis
qed

text \<open>An exception of the last registration in a benchmark of three ranks.\<close>

theorem scopes_unwind_witness:
  "unwind (drop 1 (bench_scope 1 2 3 4 [6, 5] 100 200 7 8)) =
     [Verbs (Ibv_dereg_mr 7), Free 200, Free 100, Verbs (Ibv_destroy_qp 6), Verbs (Ibv_destroy_qp 5), CloseSockets,
      Verbs (Ibv_destroy_cq 4), Verbs (Ibv_destroy_cq 3), Verbs (Ibv_dealloc_pd 2), Verbs (Ibv_close_device 1)] \<and>
   release_all (unwind (drop 1 (bench_scope 1 2 3 4 [6, 5] 100 200 7 8))) (drop 1 (bench_scope 1 2 3 4 [6, 5] 100 200 7 8)) = Some []"
proof
  show "unwind (drop 1 (bench_scope 1 2 3 4 [6, 5] 100 200 7 8)) =
     [Verbs (Ibv_dereg_mr 7), Free 200, Free 100, Verbs (Ibv_destroy_qp 6), Verbs (Ibv_destroy_qp 5), CloseSockets,
      Verbs (Ibv_destroy_cq 4), Verbs (Ibv_destroy_cq 3), Verbs (Ibv_dealloc_pd 2), Verbs (Ibv_close_device 1)]"
    by (simp add: unwind_def bench_scope_def communicator_members_def device_dtor_def blank_device_def pd_dtor_def cq_dtor_def qp_dtor_def mr_dtor_def)
qed (rule scopes_unwind [of "[6, 5]" 3 4 100 200 7 8 _ 1 2 0]; simp)

end
