(* ===== verification/Spec2Isabelle.thy ===== *)
theory Spec2Isabelle
  imports Collective_Sequences Pingpong_Process Bench_Process Mpi_Process Mismatched_Scratch Unit_Tests Lifetime
begin

text \<open>
  A verification library for micro-ccl, a small collective-communication library over RDMA verbs.

  \<^bold>\<open>The program.\<close> A job is a fixed number of ranks. Each opens an RDMA device (\<^verbatim>\<open>src/src/verbs/device.cc\<close>), allocates a
  protection domain, completion queues and memory regions (the other files of \<^verbatim>\<open>verbs/\<close>), meets the other ranks over
  TCP (\<^verbatim>\<open>bootstrap/tcp_bootstrap.cc\<close>), exchanges the addresses of its queue pairs and connects one
  queue pair per peer (\<^verbatim>\<open>communicator/communicator.cc\<close>, \<^verbatim>\<open>verbs/queue_pair.cc\<close>). After that the collectives
  (\<^verbatim>\<open>collectives/\<close>) move data only with the send and receive wrappers of \<^verbatim>\<open>transport/transport.cc\<close>. Three programs use the
  library: \<^verbatim>\<open>examples/pingpong.cc\<close>, \<^verbatim>\<open>bench/bench_allreduce.cc\<close> and, for comparison, \<^verbatim>\<open>bench/bench_mpi_allreduce.cc\<close>; the
  tests are in \<^verbatim>\<open>test/\<close>.

  \<^bold>\<open>How it is modelled.\<close> Exceptions are values (\<open>error\<close>, with \<open>Undefined\<close> for undefined behaviour), memory is a
  function from addresses to bytes, \<^verbatim>\<open>size_t\<close> and \<^verbatim>\<open>uint32_t\<close> arithmetic wraps where the code's does. The data path of a
  rank is a resumption (\<open>rprog\<close>), its TCP side another (\<open>bprog\<close>); the ranks of a job and the hardware (or the
  network) take steps in any order. A whole process (\<open>mprog\<close>) is a sequence of phases of either kind, from the arguments of \<^verbatim>\<open>main\<close> to
  its exit code. libibverbs, the NIC, the kernel's sockets, sysfs and the random number
  generator are parameters: records of the calls the code makes, over an abstract state.

  \<^bold>\<open>Theories\<close>, in the order of dependence.

  \<^item> \<open>Prelude\<close>: error values, results, \<^verbatim>\<open>detail/error.hpp\<close>, fixed-width arithmetic, byte memory, ring indices.
  \<^item> \<open>Confluence\<close>: schedules, \<open>always_ends\<close> (every schedule can be completed, all completed schedules have the same length and
    end in a given condition), the locale \<open>diamond_system\<close>, in which one completed schedule decides for all, and the locale \<open>abstraction\<close>, which
    carries it to systems with more detail.
  \<^item> \<open>Chunking\<close> (\<^verbatim>\<open>chunking.cc\<close>): \<open>compute_chunks\<close> partitions the index range into balanced chunks.
  \<^item> \<open>Float32\<close>, \<open>Reduce_Ops\<close> (\<^verbatim>\<open>reduce_ops.cc\<close>): IEEE addition and comparison of \<^verbatim>\<open>float\<close> at bit level, \<^verbatim>\<open>int32_t\<close> with overflow as an
    error; \<open>reduce_inplace\<close> refines an element-wise operation on arrays.
  \<^item> \<open>Transport\<close> (\<^verbatim>\<open>transport.cc\<close>): work requests, posting, the polling loop.
  \<^item> \<open>Fabric\<close>: jobs of ranks over any RDMA fabric; the reliable-connection contract as the locale \<open>rc_contract\<close>, interpreted by
    the reference queues (\<open>rc_ref\<close>). \<open>Discipline\<close>, \<open>Diamond\<close>: ranks that respect buffer ownership form a
    \<open>diamond_system\<close> (interpretation \<open>rc\<close>). \<open>Exchange\<close>, \<open>Mesh\<close>, \<open>Traffic\<close>: one round of matched sends and receives, loops of rounds, messages sent.
  \<^item> \<open>Ring_Gather\<close>: the ring pass that allgather and the second phase of ring allreduce share, as the locale
    \<open>ring_layout\<close> with an interpretation for each.
  \<^item> \<open>Allreduce_Common\<close>, \<open>Allreduce_Ring\<close>, \<open>Allreduce_RD\<close>, \<open>Allgather\<close>, \<open>Broadcast\<close> (the files of the same names): every collective ends
    under every interleaving with the right data on every rank; guards; traffic. \<open>Allreduce_Call\<close>: either allreduce as its callers see it (locales
    \<open>allreduce_call\<close> and \<open>int32_allreduce\<close>, interpreted for both). \<open>Collective_Sequences\<close>: any sequence of collective calls keeps the buffer
    discipline and ends.
  \<^item> \<open>Endpoint_Info\<close> (\<^verbatim>\<open>endpoint_info.cc\<close>): the wire format; locale \<open>codec\<close>.
  \<^item> \<open>Handles\<close> (\<^verbatim>\<open>protection_domain.cc\<close>, \<^verbatim>\<open>completion_queue.cc\<close>, \<^verbatim>\<open>memory_region.cc\<close>, \<^verbatim>\<open>queue_pair.cc\<close>): construction, destruction and
    moves; locale \<open>owning_handle\<close>, interpreted for each class and for \<open>Device\<close>.
  \<^item> \<open>Device\<close> (\<^verbatim>\<open>device.cc\<close>): choosing device, port and GID.
  \<^item> \<open>Tcp_Stream\<close>, \<open>Bootstrap\<close>, \<open>Rendezvous\<close> (\<^verbatim>\<open>tcp_bootstrap.cc\<close>): exact transfers over a fragmenting stream (locale
    \<open>byte_stream\<close>), the exchange and the barrier as programs over reliable pipes (interpretation \<open>tcp\<close> of \<open>diamond_system\<close>), and the
    constructor and destructor (locale \<open>rendezvous\<close>).
  \<^item> \<open>Queue_Pair\<close> (\<^verbatim>\<open>queue_pair.cc\<close>): the INIT, RTR, RTS transitions over any driver that keeps the state machine (locale
    \<open>qp_driver\<close>). \<open>Communicator\<close> (\<^verbatim>\<open>communicator.cc\<close>): all ranks together build a full mesh.
  \<^item> \<open>Lifetime\<close>: the order in which objects are constructed and destroyed, exceptions included.
  \<^item> \<open>Rank_Process\<close>: whole processes, phase after phase over the sockets and over the fabric (interpretation \<open>ranks_system\<close> of
    \<open>diamond_system\<close>, sublocale of \<open>abstraction\<close>). \<open>Startup\<close>: what every program does first, the whole constructor of \<^verbatim>\<open>Communicator\<close>
    included; \<open>communicators_end\<close> takes a program apart into its start and the rest.
  \<^item> \<open>Command_Line\<close>, \<open>Statistics\<close>, \<open>Pingpong\<close>, \<open>Bench\<close>: the parts of the programs. Argument parsing with \<^verbatim>\<open>std::stoi\<close> and its
    relatives, \<open>compute_stats\<close> with its floating-point index, the ping-pong rounds, the size sweeps (locale \<open>doubling_sweep\<close>, interpreted for both
    benchmarks) and the benchmark rounds over either allreduce.
  \<^item> \<open>Pingpong_Process\<close>, \<open>Bench_Process\<close>: the two programs as wholes; all processes exit with 0 under every interleaving.
    \<open>Mpi_Process\<close>: the MPI benchmark as the sequence of its calls; all ranks make the same collective calls.
  \<^item> \<open>Integration\<close>, \<open>Mismatched_Scratch\<close>, \<open>Unit_Tests\<close>: the tests of the repository; they pass in the model under every interleaving.

  This theory compares the two allreduce algorithms.

  \<^bold>\<open>Bounds.\<close> A message fits the 32-bit length of a work request (\<open>4 * n < 2 ^ 32\<close> bytes); the number of ranks is below
  \<open>2 ^ 31\<close> for the collectives, as \<^verbatim>\<open>int\<close> requires, and below \<open>2 ^ 16\<close> for the mesh and the benchmark, so that the
  total number of exchanged entries fits the 32-bit counts on the wire. \<open>int32_t\<close> sums are assumed not to overflow, the code
  having no meaning otherwise. No definition uses fuel: loops without a bound of their own
  are \<^verbatim>\<open>partial_function\<close>s with \<open>None\<close> for not returning, and termination is proved, or refuted, for each
  (\<open>poll_loop_returns\<close>, \<open>find_active_port_diverges\<close>, \<open>bench_sweep_sizes\<close>).

  \<^bold>\<open>Not modelled.\<close> Printing and the formatting of numbers, in the programs and in the CSV file; the text of \<^verbatim>\<open>strerror\<close>; what MPI does
  with the calls it gets; \<^verbatim>\<open>fork\<close> failing in the tests. Clocks show arbitrary durations. Allocation of a vector fails only when it is too long for
  its type (\<open>new_array\<close>), except in the MPI benchmark, where it is a parameter. Of the headers only types, constants, default arguments and inline
  functions have a counterpart: the rest are declarations of what the source files define, and comments.
\<close>

section \<open>Properties across components\<close>

text \<open>
  C6: the two allreduce algorithms are interchangeable on \<^verbatim>\<open>int32_t\<close> data: started from the same
  memory, a completed run of ring allreduce and a completed run of recursive doubling, each under
  any interleaving and on any fabric that keeps the contract, leave the same bits in every element
  of every rank's data.
\<close>

theorem allreduce_algorithms_agree:
  assumes "rc_contract F \<alpha>" "rc_contract G \<beta>" "is_power_of_two (int P)" "mems w = mems v"
    and ring: "procs w = ranks P (\<lambda>r. allreduce_ring (A r) Return)" "\<forall>x. idle (\<alpha> (net w) x)"
      "allreduce_ready P n Int32 op (chunk_len n P 0) A (\<alpha> (net w))"
    and rd: "procs v = ranks P (\<lambda>r. allreduce_recursive_doubling (A r) Return)" "\<forall>x. idle (\<beta> (net v) x)"
      "allreduce_ready P n Int32 op n A (\<beta> (net v))"
    and "\<forall>i<n. int_defined op {..<P} (\<lambda>q. sint (elem A (mems w) q i))"
    and runs: "run (exec F) ls w = Some f" "stuck (exec F) f" "run (exec G) ms v = Some g" "stuck (exec G) g"
  shows "\<forall>r<P. \<forall>i<n. elem A (mems f) r i = elem A (mems g) r i"
proof (intro allI impI)
  fix r i assume r: "r < P" "i < n"
  have "sint (elem A (mems f) r i) = int_reduce op {..<P} (\<lambda>q. sint (elem A (mems w) q i))"
    using always_ends_stuck [OF ring_int32_ends [OF assms(1) ring assms(11)] runs(1,2)] r by blast
  also have "\<dots> = sint (elem A (mems g) r i)"
    using always_ends_stuck [OF rd_int32_ends [OF assms(2,3) rd] runs(3,4)] r assms(4,11) by simp
  finally show "elem A (mems f) r i = elem A (mems g) r i" by (rule signed_word_eqI)
qed

theorem allreduce_algorithms_agree_witness:
  "\<exists>ls f ms g.
     run (exec rc_fabric) ls (sample_job 4 3 (\<lambda>r. allreduce_ring (sample_args 4 3 Int32 Max_op r) Return)) = Some f \<and>
     run (exec rc_fabric) ms (sample_job 4 3 (\<lambda>r. allreduce_recursive_doubling (sample_args 4 3 Int32 Max_op r) Return)) = Some g \<and>
     (\<forall>r<4. \<forall>i<3. elem (sample_args 4 3 Int32 Max_op) (mems f) r i = elem (sample_args 4 3 Int32 Max_op) (mems g) r i)"
proof -
  let ?A = "sample_args 4 3 Int32 Max_op"
  let ?w = "sample_job 4 3 (\<lambda>r. allreduce_ring (?A r) Return)"
  let ?v = "sample_job 4 3 (\<lambda>r. allreduce_recursive_doubling (?A r) Return)"
  have pow: "is_power_of_two (int 4)" by (simp add: is_power_of_two_def)
  have ready: "allreduce_ready 4 3 Int32 Max_op (chunk_len 3 4 0) ?A (id (net ?w))"
    "allreduce_ready 4 3 Int32 Max_op 3 ?A (id (net ?v))"
    by (rule sample_ready; simp add: chunk_len_def)+
  have idle: "\<forall>x. idle (id (net ?w) x)" "\<forall>x. idle (id (net ?v) x)" using sample_idle by simp_all
  have def: "\<forall>i<3. int_defined Max_op {..<4} (\<lambda>q. sint (elem ?A (mems u) q i))" for u :: "(nat \<Rightarrow> endpoint) job"
    by (simp add: int_defined_def)
  have procs: "procs ?w = ranks 4 (\<lambda>r. allreduce_ring (?A r) Return)"
    "procs ?v = ranks 4 (\<lambda>r. allreduce_recursive_doubling (?A r) Return)" and mems: "mems ?w = mems ?v"
    by simp_all
  note ends = ring_int32_ends [where w = ?w and \<alpha> = id, OF rc_ref.rc_contract_axioms procs(1) idle(1) ready(1) def]
    rd_int32_ends [where w = ?v and \<alpha> = id, OF rc_ref.rc_contract_axioms pow procs(2) idle(2) ready(2) def]
  obtain ls f ms g where runs: "run (exec rc_fabric) ls ?w = Some f" "stuck (exec rc_fabric) f"
    "run (exec rc_fabric) ms ?v = Some g" "stuck (exec rc_fabric) g"
    using always_ends_exists [OF ends(1)] always_ends_exists [OF ends(2)] by blast
  from allreduce_algorithms_agree [where \<alpha> = id and \<beta> = id and w = ?w and v = ?v, OF rc_ref.rc_contract_axioms
      rc_ref.rc_contract_axioms pow mems procs(1) idle(1) ready(1) procs(2) idle(2) ready(2) def runs] runs
  show ?thesis by blast
qed

end
